(* ===== verification/Prelude.thy ===== *)
theory Prelude
  imports Main "HOL-Library.Word" "HOL-Library.Signed_Division"
begin

text \<open>
  Shared vocabulary of the development: machine integers of the C sources, the
  byte-addressed memory the kernel code works on, the arithmetic macros the
  sources use, and the generic lemmas that the component theories rest on.

  Addresses are \<^typ>\<open>int\<close>: the C code compares and subtracts pointers and masks
  them with \<^verbatim>\<open>PAGE_MASK\<close>, and \<^typ>\<open>int\<close> carries the same bit operations
  (\<^verbatim>\<open>AND\<close>, \<^verbatim>\<open>NOT\<close>) without a width.
\<close>

unbundle bit_operations_syntax

named_theorems mem_simps \<open>reads after writes of the byte memory\<close>
named_theorems addr_simps \<open>page base, page offset and alignment of addresses\<close>

type_synonym u8 = "8 word"
type_synonym s16 = "16 word"
type_synonym u32 = "32 word"
type_synonym u64 = "64 word"
type_synonym memory = "int \<Rightarrow> u8"

subsection \<open>Byte memory, little endian\<close>

definition load16 :: "memory \<Rightarrow> int \<Rightarrow> s16" where
  "load16 m a = word_cat (m (a + 1)) (m a)"

definition store16 :: "memory \<Rightarrow> int \<Rightarrow> s16 \<Rightarrow> memory" where
  "store16 m a w = m(a := ucast w, a + 1 := ucast (drop_bit 8 w))"

definition load32 :: "memory \<Rightarrow> int \<Rightarrow> u32" where
  "load32 m a = word_cat (load16 m (a + 2)) (load16 m a)"

definition store32 :: "memory \<Rightarrow> int \<Rightarrow> u32 \<Rightarrow> memory" where
  "store32 m a w = store16 (store16 m a (ucast w)) (a + 2) (ucast (drop_bit 16 w))"

definition memset0 :: "memory \<Rightarrow> int \<Rightarrow> int \<Rightarrow> memory" where
  "memset0 m a n = (\<lambda>x. if a \<le> x \<and> x < a + n then 0 else m x)"

subsection \<open>Integer macros\<close>

definition DIV_ROUND_UP :: "int \<Rightarrow> int \<Rightarrow> int" where
  "DIV_ROUND_UP n d = (n + d - 1) div d"

definition ALIGN :: "int \<Rightarrow> int \<Rightarrow> int" where
  "ALIGN x a = (x + (a - 1)) AND NOT (a - 1)"

subsection \<open>Reads after writes\<close>

lemma word_cat_halves16:
  "word_cat (ucast (drop_bit 8 w) :: u8) (ucast w :: u8) = (w :: s16)"
  by (rule bit_word_eqI)
    (auto simp: bit_word_cat_iff bit_ucast_iff bit_drop_bit_eq)

lemma word_cat_halves32:
  "word_cat (ucast (drop_bit 16 w) :: s16) (ucast w :: s16) = (w :: u32)"
  by (rule bit_word_eqI)
    (auto simp: bit_word_cat_iff bit_ucast_iff bit_drop_bit_eq)

lemma load16_store16_same [mem_simps]: "load16 (store16 m a w) a = w"
  by (simp add: load16_def store16_def word_cat_halves16)

lemma load16_store16_other [mem_simps]:
  "b + 2 \<le> a \<or> a + 2 \<le> b \<Longrightarrow> load16 (store16 m a w) b = load16 m b"
  by (auto simp: load16_def store16_def)

lemma load32_store32_same [mem_simps]: "load32 (store32 m a w) a = w"
  by (simp add: load32_def store32_def mem_simps word_cat_halves32)

lemma store16_other [mem_simps]: "x < a \<or> a + 2 \<le> x \<Longrightarrow> store16 m a w x = m x"
  by (auto simp: store16_def)

lemma store32_other [mem_simps]: "x < a \<or> a + 4 \<le> x \<Longrightarrow> store32 m a w x = m x"
  by (auto simp: store32_def mem_simps)

lemma load16_cong: "m a = m' a \<Longrightarrow> m (a + 1) = m' (a + 1) \<Longrightarrow> load16 m a = load16 m' a"
  by (simp add: load16_def)

lemma load32_cong: "(\<And>x. a \<le> x \<Longrightarrow> x < a + 4 \<Longrightarrow> m x = m' x) \<Longrightarrow> load32 m a = load32 m' a"
  by (simp add: load32_def load16_def)

subsection \<open>Masks\<close>

lemma and_not_mask_int: "(x :: int) AND NOT (2 ^ n - 1) = x - x mod 2 ^ n"
proof -
  have "x AND NOT (mask n) = push_bit n (drop_bit n x)"
    by (rule bit_eqI) (auto simp: bit_simps)
  also have "\<dots> = x - x mod 2 ^ n"
    by (simp add: push_bit_eq_mult drop_bit_eq_div minus_mod_eq_mult_div mult.commute)
  finally show ?thesis
    by (simp add: mask_eq_exp_minus_1)
qed

lemma and_mask_int: "(x :: int) AND (2 ^ n - 1) = x mod 2 ^ n"
  by (simp add: take_bit_eq_mod flip: mask_eq_exp_minus_1 take_bit_eq_mask)

lemma ALIGN_power2: "ALIGN x (2 ^ n) = (x + 2 ^ n - 1) - (x + 2 ^ n - 1) mod 2 ^ n"
  by (simp add: ALIGN_def and_not_mask_int algebra_simps)

lemma ALIGN_ge: "x \<le> ALIGN x (2 ^ n)"
proof -
  have "(x + 2 ^ n - 1) mod 2 ^ n < 2 ^ n" by simp
  then show ?thesis unfolding ALIGN_power2 by linarith
qed

lemma ALIGN_less: "ALIGN x (2 ^ n) < x + 2 ^ n"
proof -
  have "0 \<le> (x + 2 ^ n - 1) mod 2 ^ n" by simp
  then show ?thesis unfolding ALIGN_power2 by linarith
qed

lemma ALIGN_dvd: "2 ^ n dvd ALIGN x (2 ^ n)"
  by (simp add: ALIGN_power2 dvd_minus_mod)

lemma ALIGN_id: "2 ^ n dvd x \<Longrightarrow> ALIGN x (2 ^ n) = x"
proof -
  assume "2 ^ n dvd x"
  then have "2 ^ n dvd ALIGN x (2 ^ n) - x" by (simp add: ALIGN_dvd)
  moreover have "0 \<le> ALIGN x (2 ^ n) - x" "ALIGN x (2 ^ n) - x < 2 ^ n"
    using ALIGN_ge [of x n] ALIGN_less [of x n] by linarith+
  ultimately have "ALIGN x (2 ^ n) - x = 0"
    using zdvd_imp_le by fastforce
  then show ?thesis by simp
qed

subsection \<open>Sets\<close>

lemma ball_subset: "\<forall>x\<in>B. P x \<Longrightarrow> A \<subseteq> B \<Longrightarrow> \<forall>x\<in>A. P x"
  by blast

text \<open>A failed \<^verbatim>\<open>BUG_ON\<close> stops the kernel.\<close>

datatype kernel_bug = BUG_ON

subsection \<open>Reachable states\<close>

inductive reach :: "('s \<Rightarrow> bool) \<Rightarrow> ('s \<Rightarrow> 's \<Rightarrow> bool) \<Rightarrow> 's \<Rightarrow> bool" for init step where
  start: "init s \<Longrightarrow> reach init step s"
| later: "reach init step s \<Longrightarrow> step s t \<Longrightarrow> reach init step t"

inductive run :: "('s \<Rightarrow> 's \<Rightarrow> bool) \<Rightarrow> 's \<Rightarrow> 's \<Rightarrow> bool" for step where
  run_refl: "run step s s"
| run_more: "step s t \<Longrightarrow> run step t u \<Longrightarrow> run step s u"

lemma run_trans: "run step s t \<Longrightarrow> run step t u \<Longrightarrow> run step s u"
  by (induction rule: run.induct) (auto intro: run.run_more)

lemma run_one: "step s t \<Longrightarrow> run step s t"
  by (auto intro: run.intros)

lemma reach_run: "run step s t \<Longrightarrow> reach init step s \<Longrightarrow> reach init step t"
  by (induction rule: run.induct) (auto intro: reach.later)

text \<open>
  The contract of a component that runs by itself: its invariant holds at the start
  and every step keeps it. The clients use the invariant of the reachable states.
\<close>

locale invariant_system =
  fixes init :: "'s \<Rightarrow> bool"
    and step :: "'s \<Rightarrow> 's \<Rightarrow> bool"
    and inv :: "'s \<Rightarrow> bool"
  assumes init_inv: "init s \<Longrightarrow> inv s"
    and step_inv: "inv s \<Longrightarrow> step s t \<Longrightarrow> inv t"
begin

lemma reach_inv: "reach init step s \<Longrightarrow> inv s"
  by (induction rule: reach.induct) (auto intro: init_inv step_inv)

lemma run_inv: "run step s t \<Longrightarrow> inv s \<Longrightarrow> inv t"
  by (induction rule: run.induct) (auto intro: step_inv)

end

text \<open>
  A component that implements an abstract one: its states represent abstract states, and
  each of its steps is an abstract step. The abstract run then explains the concrete one.
\<close>

locale simulation = invariant_system init step inv
  for init :: "'s \<Rightarrow> bool" and step :: "'s \<Rightarrow> 's \<Rightarrow> bool" and inv :: "'s \<Rightarrow> bool" +
  fixes rep :: "'s \<Rightarrow> 'a \<Rightarrow> bool"
    and ainit :: "'a \<Rightarrow> bool"
    and astep :: "'a \<Rightarrow> 'a \<Rightarrow> bool"
  assumes init_rep: "init s \<Longrightarrow> \<exists>a. rep s a \<and> ainit a"
    and step_rep: "inv s \<Longrightarrow> step s t \<Longrightarrow> rep s a \<Longrightarrow> \<exists>b. rep t b \<and> astep a b"
begin

lemma reach_rep: "reach init step s \<Longrightarrow> \<exists>a. rep s a \<and> reach ainit astep a"
proof (induction rule: reach.induct)
  case (start s)
  then show ?case using init_rep reach.start by metis
next
  case (later s t)
  then obtain a where "rep s a" "reach ainit astep a" by blast
  then show ?case using step_rep [OF reach_inv [OF later(1)] later(2)] reach.later by metis
qed

lemma run_rep: "run step s t \<Longrightarrow> inv s \<Longrightarrow> rep s a \<Longrightarrow> \<exists>b. rep t b \<and> run astep a b"
proof (induction arbitrary: a rule: run.induct)
  case (run_refl s)
  then show ?case using run.run_refl [of astep a] by blast
next
  case (run_more s t u)
  obtain b where b: "rep t b" "astep a b" using step_rep [OF run_more(4,1,5)] by blast
  obtain c where c: "rep u c" "run astep b c" using run_more(3) [OF step_inv [OF run_more(4,1)] b(1)] by blast
  then show ?case using run.run_more [of astep, OF b(2) c(2)] by blast
qed

end

end
