(* ===== verification/Slob_Block.thy ===== *)
theory Slob_Block
  imports Prelude
begin

text \<open>
  The in-band encoding of free blocks of the SLOB allocator
  (\<^verbatim>\<open>src/kernel/project4/code/slob.c\<close>, lines 79--197): a free block of one
  unit holds the negated offset of the next free block, a larger block holds its
  size in its first unit and that offset in its second. The platform is the one
  the project targets (\<^verbatim>\<open>syscall_32.tbl\<close>): i386, pages of 4096 bytes, so that
  \<^verbatim>\<open>slobidx_t\<close> is \<^verbatim>\<open>s16\<close> and a unit is two bytes.

  After the operations come the relation \<open>block_at\<close> (what the encoding of one
  free block means), the free list as a path through the memory (\<open>chain\<close>), the
  abstract free list (address-ordered blocks that do not touch, \<open>wf_blocks\<close>) and
  the lemmas that connect them.
\<close>

subsection \<open>Operations of the source\<close>

definition PAGE_SIZE :: int where
  "PAGE_SIZE = 4096"

definition PAGE_MASK :: int where
  "PAGE_MASK = NOT (PAGE_SIZE - 1)"

type_synonym slobidx_t = s16

definition SLOB_UNIT :: int where
  "SLOB_UNIT = 2"

definition SLOB_UNITS :: "int \<Rightarrow> int" where
  "SLOB_UNITS sz = DIV_ROUND_UP sz SLOB_UNIT"

text \<open>
  A \<^verbatim>\<open>slob_t *\<close> is the address of a unit; \<open>p + n\<close> on such pointers is
  \<open>p + SLOB_UNIT * n\<close> on addresses and a difference of pointers is divided by
  \<open>SLOB_UNIT\<close>.
\<close>

definition set_slob :: "memory \<Rightarrow> int \<Rightarrow> slobidx_t \<Rightarrow> int \<Rightarrow> memory" where
  "set_slob m s sz nxt =
     (let base = s AND PAGE_MASK;
          offset = (word_of_int ((nxt - base) div SLOB_UNIT) :: slobidx_t)
      in if sint sz > 1
         then store16 (store16 m s sz) (s + SLOB_UNIT) offset
         else store16 m s (- offset))"

definition slob_units :: "memory \<Rightarrow> int \<Rightarrow> slobidx_t" where
  "slob_units m s = (if sint (load16 m s) > 0 then load16 m s else 1)"

definition slob_next :: "memory \<Rightarrow> int \<Rightarrow> int" where
  "slob_next m s =
     (let base = s AND PAGE_MASK;
          nxt = (if sint (load16 m s) < 0 then - load16 m s
                 else load16 m (s + SLOB_UNIT))
      in base + SLOB_UNIT * sint nxt)"

definition slob_last :: "memory \<Rightarrow> int \<Rightarrow> bool" where
  "slob_last m s \<longleftrightarrow> slob_next m s AND NOT PAGE_MASK = 0"

subsection \<open>What the encoding means\<close>

definition page_base :: "int \<Rightarrow> int" where
  "page_base a = a - a mod PAGE_SIZE"

definition page_off :: "int \<Rightarrow> int \<Rightarrow> int" where
  "page_off a q = (q - page_base a) div 2"

definition block_at :: "memory \<Rightarrow> int \<Rightarrow> int \<Rightarrow> int \<Rightarrow> bool" where
  "block_at m a n q \<longleftrightarrow>
     1 \<le> n \<and> n \<le> 2048 \<and> even a \<and> even q \<and> a < q \<and> q \<le> page_base a + PAGE_SIZE \<and>
     (if n = 1 then sint (load16 m a) = - page_off a q
      else sint (load16 m a) = n \<and> sint (load16 m (a + 2)) = page_off a q)"

type_synonym blocks = "(int \<times> int) list"

fun chain :: "memory \<Rightarrow> int \<Rightarrow> blocks \<Rightarrow> int \<Rightarrow> bool" where
  "chain m p [] q \<longleftrightarrow> p = q"
| "chain m p ((a, n) # bs) q \<longleftrightarrow>
     p = a \<and> block_at m a n (slob_next m a) \<and> chain m (slob_next m a) bs q"

text \<open>
  \<open>wf_blocks g lo hi bs\<close>: the blocks lie in \<open>[lo, hi)\<close>, in address order, with a
  gap of at least \<open>g\<close> bytes between neighbours. With \<open>g = 0\<close> they are disjoint,
  with \<open>g = 2\<close> no two of them touch: the list is fully coalesced.
\<close>

fun wf_blocks :: "int \<Rightarrow> int \<Rightarrow> int \<Rightarrow> blocks \<Rightarrow> bool" where
  "wf_blocks g lo hi [] \<longleftrightarrow> True"
| "wf_blocks g lo hi ((a, n) # bs) \<longleftrightarrow>
     lo \<le> a \<and> even a \<and> 1 \<le> n \<and> a + 2 * n \<le> hi \<and> wf_blocks g (a + 2 * n + g) hi bs"

fun blocks_end :: "int \<Rightarrow> int \<Rightarrow> blocks \<Rightarrow> int" where
  "blocks_end g lo [] = lo"
| "blocks_end g lo ((a, n) # bs) = blocks_end g (a + 2 * n + g) bs"

definition block_units :: "blocks \<Rightarrow> int" where
  "block_units bs = sum_list (map snd bs)"

definition block_bytes :: "blocks \<Rightarrow> int set" where
  "block_bytes bs = (\<Union>(a, n)\<in>set bs. {a ..< a + 2 * n})"

subsection \<open>Page arithmetic\<close>

lemma page_mask_and [addr_simps]: "a AND PAGE_MASK = page_base a"
  using and_not_mask_int [of a 12]
  by (simp add: PAGE_MASK_def PAGE_SIZE_def page_base_def)

lemma page_offset_and [addr_simps]: "a AND NOT PAGE_MASK = a mod PAGE_SIZE"
  using and_mask_int [of a 12] by (simp add: PAGE_MASK_def PAGE_SIZE_def)

lemma page_base_le [simp]: "page_base a \<le> a"
  by (simp add: page_base_def PAGE_SIZE_def)

lemma page_base_gt [simp]: "a < page_base a + PAGE_SIZE"
  unfolding page_base_def PAGE_SIZE_def by (smt (verit) pos_mod_bound)

lemma page_base_dvd [simp]: "PAGE_SIZE dvd page_base a"
  by (simp add: page_base_def dvd_minus_mod)

lemma page_base_even [simp]: "even (page_base a)"
  by (rule dvd_trans [OF _ page_base_dvd]) (simp add: PAGE_SIZE_def)

lemma page_base_eq:
  assumes "PAGE_SIZE dvd b" "b \<le> a" "a < b + PAGE_SIZE"
  shows "page_base a = b"
proof -
  have "a mod PAGE_SIZE = (a - b) mod PAGE_SIZE"
    using assms(1) by (simp add: mod_eq_dvd_iff)
  also have "\<dots> = a - b"
    using assms(2,3) by (intro mod_pos_pos_trivial) auto
  finally show ?thesis by (simp add: page_base_def)
qed

lemma page_base_idem [simp]: "page_base (page_base a) = page_base a"
  by (rule page_base_eq [OF page_base_dvd]) (auto simp: PAGE_SIZE_def)

lemma SLOB_UNITS_eq: "SLOB_UNITS sz = (sz + 1) div 2"
  by (simp add: SLOB_UNITS_def DIV_ROUND_UP_def SLOB_UNIT_def)

lemma SLOB_UNITS_page [simp]: "SLOB_UNITS PAGE_SIZE = 2048"
  by (simp add: SLOB_UNITS_eq PAGE_SIZE_def)

lemma sint_s16: "- 32768 \<le> x \<Longrightarrow> x < 32768 \<Longrightarrow> sint (word_of_int x :: s16) = x"
  by (simp add: int_word_sint)

lemma sint_s16_neg:
  assumes "- 32768 < sint (w :: s16)"
  shows "sint (- w) = - sint w"
proof -
  have "sint w < 32768" using sint_lt [of w] by simp
  then show ?thesis
    using assms by (simp add: sint_word_minus signed_take_bit_int_eq_self)
qed

subsection \<open>One block\<close>

lemma page_off:
  assumes "even q" "a < q" "q \<le> page_base a + PAGE_SIZE"
  shows "0 < page_off a q" and "page_off a q \<le> 2048"
    and "2 * page_off a q = q - page_base a"
proof -
  obtain b where b: "page_base a = 2 * b"
    using page_base_even [of a] by (rule evenE)
  obtain c where c: "q = 2 * c"
    using assms(1) by (rule evenE)
  have "page_off a q = c - b"
    by (simp add: page_off_def b c)
  then show "0 < page_off a q" "page_off a q \<le> 2048"
    "2 * page_off a q = q - page_base a"
    using assms(2,3) b c page_base_le [of a] by (auto simp: PAGE_SIZE_def)
qed

lemma block_at_off:
  assumes "block_at m a n q"
  shows "0 < page_off a q" and "page_off a q \<le> 2048"
    and "page_base a + 2 * page_off a q = q"
  using assms page_off [of q a] by (auto simp: block_at_def)

lemma block_at_units:
  assumes "block_at m a n q"
  shows "sint (slob_units m a) = n"
  using assms block_at_off(1) [OF assms]
  by (cases "n = 1") (simp_all add: block_at_def slob_units_def)

lemma block_at_next:
  assumes "block_at m a n q"
  shows "slob_next m a = q"
  using assms block_at_off [OF assms]
  by (cases "n = 1")
    (simp_all add: block_at_def slob_next_def addr_simps SLOB_UNIT_def sint_s16_neg)

lemma block_at_set_slob:
  assumes "1 \<le> n" "n \<le> 2048" "even a" "even q" "a < q" "q \<le> page_base a + PAGE_SIZE"
  shows "block_at (set_slob m a (word_of_int n) q) a n q"
proof -
  note off = page_off [OF assms(4-6)]
  have o: "sint (word_of_int (page_off a q) :: s16) = page_off a q"
    using off by (intro sint_s16) auto
  have n: "sint (word_of_int n :: s16) = n"
    using assms by (intro sint_s16) auto
  have "set_slob m a (word_of_int n) q =
      (if n > 1 then store16 (store16 m a (word_of_int n)) (a + 2) (word_of_int (page_off a q))
       else store16 m a (- word_of_int (page_off a q)))"
    by (simp add: set_slob_def n addr_simps SLOB_UNIT_def page_off_def)
  then show ?thesis
    using assms off o n
    by (cases "n = 1") (simp_all add: block_at_def mem_simps sint_s16_neg)
qed

lemma set_slob_other:
  assumes "1 \<le> sint sz" "x < a \<or> a + 2 * sint sz \<le> x"
  shows "set_slob m a sz q x = m x"
  using assms by (auto simp: set_slob_def Let_def SLOB_UNIT_def mem_simps)

lemma block_at_frame:
  assumes "block_at m a n q" and "\<And>x. a \<le> x \<Longrightarrow> x < a + 2 * n \<Longrightarrow> m' x = m x"
  shows "block_at m' a n q"
proof -
  have "load16 m' a = load16 m a"
    using assms by (intro load16_cong) (auto simp: block_at_def)
  moreover have "load16 m' (a + 2) = load16 m (a + 2)" if "n \<noteq> 1"
    using assms that by (intro load16_cong) (auto simp: block_at_def)
  ultimately show ?thesis
    using assms(1) by (auto simp: block_at_def)
qed

subsection \<open>Paths of free blocks\<close>

lemma chain_Cons:
  "chain m p ((a, n) # bs) q \<longleftrightarrow> p = a \<and> (\<exists>r. block_at m a n r \<and> chain m r bs q)"
  using block_at_next by (auto simp: chain.simps(2))

declare chain.simps(2) [simp del]
declare chain_Cons [simp]

lemma chain_append: "chain m p (bs @ cs) q \<longleftrightarrow> (\<exists>r. chain m p bs r \<and> chain m r cs q)"
  by (induction bs arbitrary: p) (auto, blast+)

lemma block_bytes_Nil [simp]: "block_bytes [] = {}"
  by (simp add: block_bytes_def)

lemma block_bytes_Cons [simp]:
  "block_bytes ((a, n) # bs) = {a ..< a + 2 * n} \<union> block_bytes bs"
  by (simp add: block_bytes_def)

lemma block_bytes_append [simp]:
  "block_bytes (bs @ cs) = block_bytes bs \<union> block_bytes cs"
  by (simp add: block_bytes_def)

lemma block_units_simps [simp]:
  "block_units [] = 0" "block_units ((a, n) # bs) = n + block_units bs"
  "block_units (bs @ cs) = block_units bs + block_units cs"
  by (simp_all add: block_units_def)

lemma chain_frame:
  "chain m p bs q \<Longrightarrow> (\<And>x. x \<in> block_bytes bs \<Longrightarrow> m' x = m x) \<Longrightarrow> chain m' p bs q"
proof (induction bs arbitrary: p)
  case (Cons b bs)
  obtain a n where b: "b = (a, n)" by force
  from Cons.prems(1) b obtain r where "p = a" and r: "block_at m a n r" "chain m r bs q"
    unfolding b by auto
  moreover have "block_at m' a n r"
    using r(1) Cons.prems(2) b by (auto elim: block_at_frame)
  moreover have "chain m' r bs q"
    using r(2) Cons.prems(2) b by (intro Cons.IH) auto
  ultimately show ?case
    unfolding b by auto
qed simp

lemma wf_blocks_append:
  "wf_blocks g lo hi (bs @ cs) \<longleftrightarrow> wf_blocks g lo hi bs \<and> wf_blocks g (blocks_end g lo bs) hi cs"
  by (induction bs arbitrary: lo) auto

lemma blocks_end_append: "blocks_end g lo (bs @ cs) = blocks_end g (blocks_end g lo bs) cs"
  by (induction bs arbitrary: lo) auto

lemma wf_blocks_mono: "wf_blocks g lo hi bs \<Longrightarrow> lo' \<le> lo \<Longrightarrow> wf_blocks g lo' hi bs"
  by (cases bs) auto

lemma wf_blocks_gap: "wf_blocks g lo hi bs \<Longrightarrow> g' \<le> g \<Longrightarrow> wf_blocks g' lo hi bs"
  by (induction bs arbitrary: lo) (auto, metis add_le_cancel_left wf_blocks_mono)

lemma blocks_end_ge: "wf_blocks g lo hi bs \<Longrightarrow> 0 \<le> g \<Longrightarrow> lo \<le> blocks_end g lo bs"
  by (induction bs arbitrary: lo) fastforce+

lemma wf_block_bytes:
  "wf_blocks g lo hi bs \<Longrightarrow> 0 \<le> g \<Longrightarrow> x \<in> block_bytes bs \<Longrightarrow> lo \<le> x \<and> x < hi \<and> x + g < blocks_end g lo bs"
proof (induction bs arbitrary: lo)
  case (Cons b bs)
  obtain a n where b: "b = (a, n)" by force
  show ?case
  proof (cases "x \<in> block_bytes bs")
    case True
    with Cons b show ?thesis by fastforce
  next
    case False
    with Cons.prems b have "a \<le> x" "x < a + 2 * n" by auto
    with Cons.prems b blocks_end_ge [of g "a + 2 * n + g" hi bs] show ?thesis by auto
  qed
qed simp

lemma wf_block_bytes_split:
  assumes "wf_blocks g lo hi (pre @ (a, n) # rest)" "0 \<le> g"
  shows "x \<in> block_bytes pre \<Longrightarrow> lo \<le> x \<and> x < a"
    and "x \<in> block_bytes rest \<Longrightarrow> a + 2 * n \<le> x \<and> x < hi"
    and "lo \<le> a \<and> even a \<and> 1 \<le> n \<and> a + 2 * n \<le> hi"
  using assms wf_block_bytes [of g lo hi pre x] wf_block_bytes [of g "a + 2 * n + g" hi rest x]
    blocks_end_ge [of g lo hi pre]
  by (auto simp: wf_blocks_append)

lemma slob_units_word: "block_at m a n q \<Longrightarrow> slob_units m a = word_of_int n"
  using block_at_units [of m a n q] by fastforce

lemma chain_retarget:
  assumes c: "chain m p (pre @ [(b, k)]) q"
    and wf: "wf_blocks 0 lo hi (pre @ [(b, k)])"
    and q': "even q'" "b < q'" "q' \<le> page_base b + PAGE_SIZE"
  shows "chain (set_slob m b (slob_units m b) q') p (pre @ [(b, k)]) q'"
proof -
  from c have pre: "chain m p pre b" and b: "block_at m b k q"
    by (auto simp: chain_append)
  have k: "1 \<le> k" "k \<le> 2048" "even b" using b by (auto simp: block_at_def)
  then have sz: "sint (word_of_int k :: s16) = k" by (intro sint_s16) auto
  have "chain (set_slob m b (word_of_int k) q') p pre b"
    using pre wf_block_bytes_split(1) [OF wf order_refl] k sz
    by (intro chain_frame [OF pre]) (auto intro!: set_slob_other)
  moreover have "block_at (set_slob m b (word_of_int k) q') b k q'"
    using k q' by (intro block_at_set_slob) auto
  ultimately show ?thesis
    using slob_units_word [OF b] by (auto simp: chain_append)
qed

lemma chain_start:
  "chain m r bs q \<Longrightarrow> wf_blocks g lo hi bs \<Longrightarrow> lo \<le> q \<Longrightarrow> lo \<le> r"
  by (cases bs) auto

lemma set_slob_units_other:
  assumes "1 \<le> n" "n \<le> 2048" "x < a \<or> a + 2 * n \<le> x"
  shows "set_slob m a (word_of_int n) q x = m x"
proof -
  have "sint (word_of_int n :: s16) = n" using assms by (intro sint_s16) auto
  then show ?thesis using assms by (intro set_slob_other) auto
qed

end
