(* ===== verification/Slob_Page.thy ===== *)
theory Slob_Page
  imports Slob_Block
begin

text \<open>
  The page level of the SLOB allocator (\<^verbatim>\<open>src/kernel/project4/code/slob.c\<close>,
  lines 93--131 and 223--272): the state of the allocator, the partial-page
  lists, and \<^verbatim>\<open>slob_page_alloc\<close>, the first-fit scan of one page.

  A \<^verbatim>\<open>struct page *\<close> is the virtual address of its page, so \<^verbatim>\<open>page_address\<close> is
  the identity and \<^verbatim>\<open>virt_to_page\<close> clears the offset in the page. The lists
  linked through \<^verbatim>\<open>lru\<close> are the sequences of their pages, front first; taking a page off that is on no list
  does nothing here, where the code would write through its stale links. The state
  also holds \<^verbatim>\<open>current->reclaim_state\<close> (\<^term>\<open>None\<close> for NULL) and the calls made to
  the page allocator's \<^verbatim>\<open>free_pages\<close>, latest first.

  The lemmas refine the pointer-level scan to \<open>block_alloc\<close>, first fit on a list
  of blocks: the scan always returns, it returns NULL exactly where the abstract
  search fails, and otherwise the memory afterwards encodes the abstract result.
\<close>

subsection \<open>State\<close>

record page =
  sp_units :: int
  sp_freelist :: int
  PageSlobFree :: bool
  PageSlab :: bool

datatype slob_list = free_slob_small | free_slob_medium | free_slob_large

record slob =
  mem :: memory
  page_of :: "int \<Rightarrow> page"
  partial :: "slob_list \<Rightarrow> int list"
  pcount :: u32
  free :: u32
  used_m :: u32
  claimed_m :: u32
  reclaimed_slab :: "u32 option"
  released :: "(int \<times> int) list"

definition virt_to_page :: "int \<Rightarrow> int" where
  "virt_to_page b = b AND PAGE_MASK"

definition put_page :: "int \<Rightarrow> (page \<Rightarrow> page) \<Rightarrow> slob \<Rightarrow> slob" where
  "put_page sp f st = st\<lparr>page_of := (page_of st)(sp := f (page_of st sp))\<rparr>"

subsection \<open>Partial-page lists\<close>

definition slob_page_free :: "slob \<Rightarrow> int \<Rightarrow> bool" where
  "slob_page_free st sp = PageSlobFree (page_of st sp)"

definition list_add :: "int \<Rightarrow> int list \<Rightarrow> int list" where
  "list_add sp xs = sp # xs"

definition list_del :: "int \<Rightarrow> int list \<Rightarrow> int list" where
  "list_del sp xs = remove1 sp xs"

definition set_slob_page_free :: "slob \<Rightarrow> int \<Rightarrow> slob_list \<Rightarrow> slob" where
  "set_slob_page_free st sp l =
     put_page sp (\<lambda>p. p\<lparr>PageSlobFree := True\<rparr>)
       (st\<lparr>partial := (partial st)(l := list_add sp (partial st l))\<rparr>)"

definition clear_slob_page_free :: "slob \<Rightarrow> int \<Rightarrow> slob" where
  "clear_slob_page_free st sp =
     put_page sp (\<lambda>p. p\<lparr>PageSlobFree := False\<rparr>)
       (st\<lparr>partial := (\<lambda>l. list_del sp (partial st l))\<rparr>)"

subsection \<open>Allocation within a page\<close>

text \<open>Splitting the head of a block so that the rest is aligned (lines 241--248).\<close>

definition slob_fragment_head :: "memory \<Rightarrow> int \<Rightarrow> s16 \<Rightarrow> int \<Rightarrow> int \<Rightarrow> memory" where
  "slob_fragment_head m cur avail aligned delta =
     (let nxt = slob_next m cur;
          m1 = set_slob m aligned (word_of_int (sint avail - delta)) nxt
      in set_slob m1 cur (word_of_int delta) aligned)"

text \<open>Unlinking the block, or its first units, from the free list (lines 250--262).\<close>

definition slob_set_prev :: "slob \<Rightarrow> int \<Rightarrow> int option \<Rightarrow> int \<Rightarrow> slob" where
  "slob_set_prev st sp prev nxt =
     (case prev of
        Some p \<Rightarrow> st\<lparr>mem := set_slob (mem st) p (slob_units (mem st) p) nxt\<rparr>
      | None \<Rightarrow> put_page sp (\<lambda>p. p\<lparr>sp_freelist := nxt\<rparr>) st)"

definition slob_unlink :: "slob \<Rightarrow> int \<Rightarrow> int \<Rightarrow> int option \<Rightarrow> int \<Rightarrow> s16 \<Rightarrow> slob" where
  "slob_unlink st sp units prev cur avail =
     (let nxt = slob_next (mem st) cur
      in if sint avail = units
         then slob_set_prev st sp prev nxt
         else (let rest = cur + SLOB_UNIT * units;
                   st1 = slob_set_prev st sp prev rest
               in st1\<lparr>mem := set_slob (mem st1) rest (word_of_int (sint avail - units)) nxt\<rparr>))"

text \<open>The branch of the scan that has found room (lines 238--268).\<close>

definition slob_page_take ::
  "slob \<Rightarrow> int \<Rightarrow> int \<Rightarrow> int option \<Rightarrow> int \<Rightarrow> s16 \<Rightarrow> int \<Rightarrow> int \<Rightarrow> slob \<times> int option" where
  "slob_page_take st sp units prev cur avail aligned delta =
     (let (st1, prev1, cur1, avail1) =
            (if delta \<noteq> 0
             then (let m1 = slob_fragment_head (mem st) cur avail aligned delta
                   in (st\<lparr>mem := m1\<rparr>, Some cur, aligned, slob_units m1 aligned))
             else (st, prev, cur, avail));
          st2 = slob_unlink st1 sp units prev1 cur1 avail1;
          st3 = put_page sp (\<lambda>p. p\<lparr>sp_units := sp_units p - units\<rparr>) st2;
          st4 = (if sp_units (page_of st3 sp) = 0 then clear_slob_page_free st3 sp else st3)
      in (st4, Some cur1))"

text \<open>
  The scan. It has no bound of its own: on a corrupted free list it may run
  forever, which is \<^term>\<open>None\<close>.
\<close>

partial_function (option) slob_page_scan ::
  "slob \<Rightarrow> int \<Rightarrow> int \<Rightarrow> int \<Rightarrow> int option \<Rightarrow> int \<Rightarrow> (slob \<times> int option) option" where
  "slob_page_scan st sp units align prev cur =
     (let avail = slob_units (mem st) cur;
          aligned = (if align \<noteq> 0 then ALIGN cur align else cur);
          delta = (if align \<noteq> 0 then (aligned - cur) div SLOB_UNIT else 0)
      in if sint avail \<ge> units + delta
         then Some (slob_page_take st sp units prev cur avail aligned delta)
         else if slob_last (mem st) cur then Some (st, None)
         else slob_page_scan st sp units align (Some cur) (slob_next (mem st) cur))"

definition slob_page_alloc :: "slob \<Rightarrow> int \<Rightarrow> int \<Rightarrow> int \<Rightarrow> (slob \<times> int option) option" where
  "slob_page_alloc st sp sz align =
     slob_page_scan st sp (SLOB_UNITS sz) align None (sp_freelist (page_of st sp))"

subsection \<open>First fit on a list of blocks\<close>

definition align_delta :: "int \<Rightarrow> int \<Rightarrow> int" where
  "align_delta align a = (if align \<noteq> 0 then (ALIGN a align - a) div 2 else 0)"

text \<open>What remains of a free block once \<open>units\<close> units are taken \<open>d\<close> units into it.\<close>

definition taken :: "int \<Rightarrow> int \<Rightarrow> int \<Rightarrow> int \<Rightarrow> blocks" where
  "taken units d a n =
     (if d = 0 then [] else [(a, d)]) @
     (if n - d = units then [] else [(a + 2 * (d + units), n - d - units)])"

fun block_alloc :: "int \<Rightarrow> int \<Rightarrow> blocks \<Rightarrow> (int \<times> blocks) option" where
  "block_alloc units align [] = None"
| "block_alloc units align ((a, n) # bs) =
     (let d = align_delta align a
      in if units + d \<le> n then Some (a + 2 * d, taken units d a n @ bs)
         else map_option (\<lambda>(r, bs'). (r, (a, n) # bs')) (block_alloc units align bs))"

text \<open>The memory and the page descriptor encode the free blocks \<open>bs\<close> of page \<open>sp\<close>.\<close>

definition page_repr :: "slob \<Rightarrow> int \<Rightarrow> blocks \<Rightarrow> bool" where
  "page_repr st sp bs \<longleftrightarrow>
     PAGE_SIZE dvd sp \<and>
     chain (mem st) (sp_freelist (page_of st sp)) bs (sp + PAGE_SIZE) \<and>
     wf_blocks 2 sp (sp + PAGE_SIZE) bs \<and>
     sp_units (page_of st sp) = block_units bs"

definition good_align :: "int \<Rightarrow> bool" where
  "good_align align \<longleftrightarrow> align = 0 \<or> (\<exists>k. align = 2 ^ k)"

subsection \<open>Splitting and unlinking blocks\<close>

lemma in_page_base:
  assumes "PAGE_SIZE dvd sp" "wf_blocks g sp (sp + PAGE_SIZE) (pre @ (a, n) # rest)" "0 \<le> g"
    "0 \<le> d" "d < n"
  shows "page_base (a + 2 * d) = sp"
  using assms wf_block_bytes_split(3) [OF assms(2,3)] by (intro page_base_eq) auto

lemma fragment_head_other:
  assumes "0 < d" "d < n" "n \<le> 2048" "sint avail = n" "x < a \<or> a + 2 * n \<le> x"
  shows "slob_fragment_head m a avail (a + 2 * d) d x = m x"
  using assms unfolding slob_fragment_head_def Let_def
  by (subst set_slob_units_other, simp, simp, force, subst set_slob_units_other) auto

lemma fragment_head_chain:
  assumes sp: "PAGE_SIZE dvd sp"
    and wf: "wf_blocks 0 sp (sp + PAGE_SIZE) (pre @ (a, n) # rest)"
    and c: "chain m p (pre @ (a, n) # rest) (sp + PAGE_SIZE)"
    and d: "0 < d" "d < n" and avail: "sint avail = n"
  shows "chain (slob_fragment_head m a avail (a + 2 * d) d) p
           (pre @ (a, d) # (a + 2 * d, n - d) # rest) (sp + PAGE_SIZE)"
    (is "chain ?m' p _ _")
proof -
  from c obtain r where pre: "chain m p pre a" and a: "block_at m a n r"
    and rest: "chain m r rest (sp + PAGE_SIZE)"
    by (auto simp: chain_append)
  note split = wf_block_bytes_split [OF wf order_refl]
  have n: "n \<le> 2048" "even r" "a + 2 * n \<le> sp + PAGE_SIZE" "even a"
    using a split(3) by (auto simp: block_at_def)
  have base: "page_base a = sp" "page_base (a + 2 * d) = sp"
    using in_page_base [OF sp wf order_refl, of 0] in_page_base [OF sp wf order_refl, of d] d by auto
  have r: "a + 2 * n \<le> r" "r \<le> sp + PAGE_SIZE"
    using wf a base n(3) by (auto simp: wf_blocks_append block_at_def intro: chain_start [OF rest])
  define m1 where "m1 = set_slob m (a + 2 * d) (word_of_int (n - d)) r"
  have m': "?m' = set_slob m1 a (word_of_int d) (a + 2 * d)"
    by (simp add: slob_fragment_head_def m1_def block_at_next [OF a] avail)
  have "block_at m1 (a + 2 * d) (n - d) r"
    unfolding m1_def using d n r base by (intro block_at_set_slob) auto
  then have "block_at ?m' (a + 2 * d) (n - d) r"
    unfolding m' using d n by (elim block_at_frame) (auto intro!: set_slob_units_other)
  moreover have "block_at ?m' a d (a + 2 * d)"
    unfolding m' using d n base by (intro block_at_set_slob) auto
  moreover have "chain ?m' p pre a"
    using split(1) d n avail by (intro chain_frame [OF pre] fragment_head_other) auto
  moreover have "chain ?m' r rest (sp + PAGE_SIZE)"
    using split(2) d n avail by (intro chain_frame [OF rest] fragment_head_other) auto
  ultimately show ?thesis
    by (auto simp: chain_append)
qed

definition prev_of :: "blocks \<Rightarrow> int option" where
  "prev_of pre = (if pre = [] then None else Some (fst (last pre)))"

lemma put_page_freelist_same [simp]:
  "put_page sp (\<lambda>p. p\<lparr>sp_freelist := sp_freelist (page_of st sp)\<rparr>) (st\<lparr>mem := m\<rparr>) = st\<lparr>mem := m\<rparr>"
  by (simp add: put_page_def)

lemma set_prev_chain:
  assumes sp: "PAGE_SIZE dvd sp"
    and wf: "wf_blocks 0 sp (sp + PAGE_SIZE) (pre @ (c, k) # rest)"
    and pre: "chain (mem st) (sp_freelist (page_of st sp)) pre c"
    and q: "even q" "c \<le> q" "q \<le> sp + PAGE_SIZE"
  obtains m f where
    "slob_set_prev st sp (prev_of pre) q = put_page sp (\<lambda>p. p\<lparr>sp_freelist := f\<rparr>) (st\<lparr>mem := m\<rparr>)"
    "chain m f pre q" "\<And>x. x \<notin> block_bytes pre \<Longrightarrow> m x = mem st x"
proof (cases pre rule: rev_cases)
  case Nil
  show thesis
    by (rule that [of q "mem st"]) (simp_all add: Nil slob_set_prev_def prev_of_def)
next
  case (snoc pre' bk)
  obtain b n where bk: "bk = (b, n)" by force
  let ?m = "set_slob (mem st) b (slob_units (mem st) b) q"
  have wf': "wf_blocks 0 sp (sp + PAGE_SIZE) (pre' @ (b, n) # (c, k) # rest)"
    using wf snoc bk by simp
  have wf'': "wf_blocks 0 sp (sp + PAGE_SIZE) (pre' @ [(b, n)])"
    using wf' by (simp add: wf_blocks_append)
  have base: "page_base b = sp"
    using in_page_base [OF sp wf' order_refl, of 0] wf' by (simp add: wf_blocks_append)
  have bq: "b < q" using wf' q by (simp add: wf_blocks_append)
  have blk: "block_at (mem st) b n c" using pre snoc bk by (auto simp: chain_append)
  show thesis
  proof (rule that [of "sp_freelist (page_of st sp)" ?m])
    show "slob_set_prev st sp (prev_of pre) q =
        put_page sp (\<lambda>p. p\<lparr>sp_freelist := sp_freelist (page_of st sp)\<rparr>) (st\<lparr>mem := ?m\<rparr>)"
      by (simp add: slob_set_prev_def prev_of_def snoc bk)
    show "chain ?m (sp_freelist (page_of st sp)) pre q"
      using chain_retarget [OF _ wf'' q(1) bq] pre q(3) base by (simp add: snoc bk)
    fix x assume "x \<notin> block_bytes pre"
    then show "?m x = mem st x"
      using blk unfolding slob_units_word [OF blk]
      by (intro set_slob_units_other) (auto simp: snoc bk block_at_def)
  qed
qed

lemma unlink_chain:
  assumes sp: "PAGE_SIZE dvd sp"
    and wf: "wf_blocks 0 sp (sp + PAGE_SIZE) (pre @ (c, k) # rest)"
    and ch: "chain (mem st) (sp_freelist (page_of st sp)) (pre @ (c, k) # rest) (sp + PAGE_SIZE)"
    and u: "1 \<le> u" "u \<le> k" and avail: "sint avail = k"
  obtains m f where
    "slob_unlink st sp u (prev_of pre) c avail = put_page sp (\<lambda>p. p\<lparr>sp_freelist := f\<rparr>) (st\<lparr>mem := m\<rparr>)"
    "chain m f (pre @ (if k = u then [] else [(c + 2 * u, k - u)]) @ rest) (sp + PAGE_SIZE)"
    "\<And>x. x \<notin> block_bytes (pre @ [(c, k)]) \<Longrightarrow> m x = mem st x"
proof -
  from ch obtain r where pre: "chain (mem st) (sp_freelist (page_of st sp)) pre c"
    and c: "block_at (mem st) c k r" and rest: "chain (mem st) r rest (sp + PAGE_SIZE)"
    by (auto simp: chain_append)
  note split = wf_block_bytes_split [OF wf order_refl]
  have k: "k \<le> 2048" "even r" "c + 2 * k \<le> sp + PAGE_SIZE" "even c"
    using c split(3) by (auto simp: block_at_def)
  have base: "page_base c = sp" using in_page_base [OF sp wf order_refl, of 0] u by auto
  have r: "c + 2 * k \<le> r" "r \<le> sp + PAGE_SIZE"
    using wf c base k(3) by (auto simp: wf_blocks_append block_at_def intro: chain_start [OF rest])
  show thesis
  proof (cases "k = u")
    case True
    have cr: "c \<le> r" using r u by linarith
    obtain m f where mf:
      "slob_set_prev st sp (prev_of pre) r = put_page sp (\<lambda>p. p\<lparr>sp_freelist := f\<rparr>) (st\<lparr>mem := m\<rparr>)"
      "chain m f pre r" "\<And>x. x \<notin> block_bytes pre \<Longrightarrow> m x = mem st x"
      using set_prev_chain [OF sp wf pre k(2) cr r(2)] by blast
    have "chain m r rest (sp + PAGE_SIZE)"
      using split u by (intro chain_frame [OF rest] mf(3)) force
    then show thesis
      using mf True by (intro that [of f m]) (auto simp: slob_unlink_def avail block_at_next [OF c] chain_append)
  next
    case False
    let ?s = "c + 2 * u"
    have cs: "even ?s" "c \<le> ?s" "?s \<le> sp + PAGE_SIZE" using k u by auto
    obtain m f where mf:
      "slob_set_prev st sp (prev_of pre) ?s = put_page sp (\<lambda>p. p\<lparr>sp_freelist := f\<rparr>) (st\<lparr>mem := m\<rparr>)"
      "chain m f pre ?s" "\<And>x. x \<notin> block_bytes pre \<Longrightarrow> m x = mem st x"
      using set_prev_chain [OF sp wf pre cs] by blast
    define m2 where "m2 = set_slob m ?s (word_of_int (k - u)) r"
    have base': "page_base ?s = sp" using in_page_base [OF sp wf order_refl, of u] u False by auto
    have other: "m2 x = m x" if "x < ?s \<or> c + 2 * k \<le> x" for x
      unfolding m2_def using that u k False by (intro set_slob_units_other) auto
    have "chain m2 f pre ?s"
      using split(1) u by (intro chain_frame [OF mf(2)] other) fastforce
    moreover have "block_at m2 ?s (k - u) r"
      unfolding m2_def using u k r base' False by (intro block_at_set_slob) auto
    moreover have "chain m2 r rest (sp + PAGE_SIZE)"
    proof (rule chain_frame [OF rest])
      fix x assume x: "x \<in> block_bytes rest"
      then have "c + 2 * k \<le> x" "x \<notin> block_bytes pre" using split by force+
      then show "m2 x = mem st x" by (simp add: other mf(3))
    qed
    ultimately show thesis
      using mf(1,3) other u False
      by (intro that [of f m2])
        (auto simp: slob_unlink_def avail block_at_next [OF c] chain_append put_page_def SLOB_UNIT_def m2_def)
  qed
qed

text \<open>The state after a successful allocation that leaves the free blocks \<open>bs\<close>.\<close>

definition page_after :: "slob \<Rightarrow> int \<Rightarrow> memory \<Rightarrow> int \<Rightarrow> blocks \<Rightarrow> slob" where
  "page_after st sp m f bs =
     (let st1 = put_page sp (\<lambda>p. p\<lparr>sp_freelist := f, sp_units := block_units bs\<rparr>) (st\<lparr>mem := m\<rparr>)
      in if block_units bs = 0 then clear_slob_page_free st1 sp else st1)"

lemma page_take_unlink:
  assumes "sp_units (page_of st sp) = block_units bs + u"
    and "slob_unlink st1 sp u prev c avail = put_page sp (\<lambda>p. p\<lparr>sp_freelist := f\<rparr>) (st\<lparr>mem := m\<rparr>)"
    and "(if d \<noteq> 0 then (st\<lparr>mem := slob_fragment_head (mem st) a av c d\<rparr>, Some a, c,
            slob_units (slob_fragment_head (mem st) a av c d) c) else (st, prev0, a, av)) =
         (st1, prev, c, avail)"
  shows "slob_page_take st sp u prev0 a av c d = (page_after st sp m f bs, Some c)"
  using assms
  by (auto simp: slob_page_take_def Let_def page_after_def put_page_def clear_slob_page_free_def
      split: if_splits)

lemma page_take:
  assumes sp: "PAGE_SIZE dvd sp"
    and wf: "wf_blocks 2 sp (sp + PAGE_SIZE) (pre @ (a, n) # rest)"
    and ch: "chain (mem st) (sp_freelist (page_of st sp)) (pre @ (a, n) # rest) (sp + PAGE_SIZE)"
    and un: "sp_units (page_of st sp) = block_units (pre @ (a, n) # rest)"
    and u: "1 \<le> u" "u + d \<le> n" "0 \<le> d"
  obtains m f where
    "slob_page_take st sp u (prev_of pre) a (slob_units (mem st) a) (a + 2 * d) d =
       (page_after st sp m f (pre @ taken u d a n @ rest), Some (a + 2 * d))"
    "chain m f (pre @ taken u d a n @ rest) (sp + PAGE_SIZE)"
    "\<And>x. x \<notin> block_bytes (pre @ (a, n) # rest) \<Longrightarrow> m x = mem st x"
proof -
  have wf0: "wf_blocks 0 sp (sp + PAGE_SIZE) (pre @ (a, n) # rest)"
    using wf by (rule wf_blocks_gap) simp
  obtain r where blk: "block_at (mem st) a n r" using ch by (auto simp: chain_append)
  note av = block_at_units [OF blk]
  show thesis
  proof (cases "d = 0")
    case True
    have un: "u \<le> n" using u by simp
    obtain m f where mf:
      "slob_unlink st sp u (prev_of pre) a (slob_units (mem st) a) =
        put_page sp (\<lambda>p. p\<lparr>sp_freelist := f\<rparr>) (st\<lparr>mem := m\<rparr>)"
      "chain m f (pre @ (if n = u then [] else [(a + 2 * u, n - u)]) @ rest) (sp + PAGE_SIZE)"
      "\<And>x. x \<notin> block_bytes (pre @ [(a, n)]) \<Longrightarrow> m x = mem st x"
      by (rule unlink_chain [OF sp wf0 ch u(1) un av]) (rule that)
    have "slob_page_take st sp u (prev_of pre) a (slob_units (mem st) a) a 0 =
        (page_after st sp m f (pre @ taken u 0 a n @ rest), Some a)"
      by (rule page_take_unlink [OF _ mf(1)]) (auto simp: taken_def assms(4))
    then show thesis
      using mf True by (intro that [of m f]) (auto simp: taken_def)
  next
    case False
    let ?m1 = "slob_fragment_head (mem st) a (slob_units (mem st) a) (a + 2 * d) d"
    have d: "0 < d" "d < n" using False u by auto
    have ch1: "chain ?m1 (sp_freelist (page_of st sp))
        (pre @ (a, d) # (a + 2 * d, n - d) # rest) (sp + PAGE_SIZE)"
      by (rule fragment_head_chain [OF sp wf0 ch d av])
    then obtain r1 where blk1: "block_at ?m1 (a + 2 * d) (n - d) r1" by (auto simp: chain_append)
    have wf1: "wf_blocks 0 sp (sp + PAGE_SIZE) ((pre @ [(a, d)]) @ (a + 2 * d, n - d) # rest)"
      using wf0 d by (simp add: wf_blocks_append algebra_simps)
    have un1: "u \<le> n - d" using u by simp
    have ch2: "chain (mem (st\<lparr>mem := ?m1\<rparr>)) (sp_freelist (page_of (st\<lparr>mem := ?m1\<rparr>) sp))
        ((pre @ [(a, d)]) @ (a + 2 * d, n - d) # rest) (sp + PAGE_SIZE)"
      using ch1 by simp
    obtain m f where mf0:
      "slob_unlink (st\<lparr>mem := ?m1\<rparr>) sp u (prev_of (pre @ [(a, d)])) (a + 2 * d)
          (slob_units ?m1 (a + 2 * d)) =
        put_page sp (\<lambda>p. p\<lparr>sp_freelist := f\<rparr>) (st\<lparr>mem := ?m1, mem := m\<rparr>)"
      "chain m f ((pre @ [(a, d)]) @
          (if n - d = u then [] else [(a + 2 * d + 2 * u, n - d - u)]) @ rest) (sp + PAGE_SIZE)"
      "\<And>x. x \<notin> block_bytes ((pre @ [(a, d)]) @ [(a + 2 * d, n - d)]) \<Longrightarrow>
        m x = mem (st\<lparr>mem := ?m1\<rparr>) x"
      by (rule unlink_chain [OF sp wf1 ch2 u(1) un1 block_at_units [OF blk1]]) (rule that)
    have mf: "slob_unlink (st\<lparr>mem := ?m1\<rparr>) sp u (Some a) (a + 2 * d) (slob_units ?m1 (a + 2 * d)) =
        put_page sp (\<lambda>p. p\<lparr>sp_freelist := f\<rparr>) (st\<lparr>mem := m\<rparr>)"
      using mf0(1) by (simp add: prev_of_def)
    have n: "n \<le> 2048" using blk by (simp add: block_at_def)
    have "m x = mem st x" if "x \<notin> block_bytes (pre @ (a, n) # rest)" for x
    proof -
      have "m x = ?m1 x" using that d mf0(3) by auto
      also have "\<dots> = mem st x" using that d n av by (intro fragment_head_other) auto
      finally show ?thesis .
    qed
    then show thesis
      using mf0(2) un d
      by (intro that [of m f] page_take_unlink [OF _ mf]) (auto simp: taken_def algebra_simps)
  qed
qed

subsection \<open>The scan refines first fit\<close>

lemma align_delta:
  assumes "good_align align" "even a"
  shows "0 \<le> align_delta align a"
    and "a + 2 * align_delta align a = (if align = 0 then a else ALIGN a align)"
proof -
  have "even (ALIGN a align) \<and> a \<le> ALIGN a align" if nz: "align \<noteq> 0"
  proof -
    from assms(1) nz obtain k where k: "align = 2 ^ k" by (auto simp: good_align_def)
    show ?thesis
    proof (cases k)
      case 0
      with k assms(2) show ?thesis using ALIGN_id [of 0 a] by simp
    next
      case (Suc j)
      then have "even (2 ^ k :: int)" by simp
      then have "even (ALIGN a align)" using ALIGN_dvd [of k a] k by (metis dvd_trans)
      with k ALIGN_ge show ?thesis by simp
    qed
  qed
  with assms(2) show "0 \<le> align_delta align a"
    "a + 2 * align_delta align a = (if align = 0 then a else ALIGN a align)"
    by (auto simp: align_delta_def)
qed

lemma slob_last_iff:
  assumes "PAGE_SIZE dvd sp" "block_at m a n r" "page_base a = sp"
  shows "slob_last m a \<longleftrightarrow> r = sp + PAGE_SIZE"
proof -
  have r: "slob_next m a = r" "sp < r" "r \<le> sp + PAGE_SIZE"
    using assms block_at_next [OF assms(2)] page_base_le [of a] by (auto simp: block_at_def)
  have "slob_last m a \<longleftrightarrow> r mod PAGE_SIZE = 0" by (simp add: slob_last_def addr_simps r)
  also have "\<dots> \<longleftrightarrow> page_base r = r" by (auto simp: page_base_def)
  also have "\<dots> \<longleftrightarrow> r = sp + PAGE_SIZE"
  proof
    assume "page_base r = r"
    with r show "r = sp + PAGE_SIZE" using page_base_eq [OF assms(1), of r] by fastforce
  next
    assume "r = sp + PAGE_SIZE"
    then show "page_base r = r" using assms(1) by (intro page_base_eq) (auto simp: PAGE_SIZE_def)
  qed
  finally show ?thesis .
qed

definition scan_result ::
  "slob \<Rightarrow> int \<Rightarrow> blocks \<Rightarrow> blocks \<Rightarrow> (int \<times> blocks) option \<Rightarrow> (slob \<times> int option) option \<Rightarrow> bool" where
  "scan_result st sp pre cs spec res =
     (case spec of
        None \<Rightarrow> res = Some (st, None)
      | Some (r, cs') \<Rightarrow> (\<exists>m f. res = Some (page_after st sp m f (pre @ cs'), Some r) \<and>
          chain m f (pre @ cs') (sp + PAGE_SIZE) \<and>
          (\<forall>x. x \<notin> block_bytes (pre @ cs) \<longrightarrow> m x = mem st x)))"

lemma scan_result_Cons:
  "scan_result st sp (pre @ [(a, n)]) rest spec res \<Longrightarrow>
   scan_result st sp pre ((a, n) # rest) (map_option (\<lambda>(r, cs'). (r, (a, n) # cs')) spec) res"
  by (cases spec) (auto simp: scan_result_def)

lemma page_scan:
  assumes sp: "PAGE_SIZE dvd sp" and u: "1 \<le> u" and al: "good_align align"
  shows "wf_blocks 2 sp (sp + PAGE_SIZE) (pre @ cs) \<Longrightarrow>
    chain (mem st) (sp_freelist (page_of st sp)) (pre @ cs) (sp + PAGE_SIZE) \<Longrightarrow>
    sp_units (page_of st sp) = block_units (pre @ cs) \<Longrightarrow> cs \<noteq> [] \<Longrightarrow>
    scan_result st sp pre cs (block_alloc u align cs)
      (slob_page_scan st sp u align (prev_of pre) (fst (hd cs)))"
proof (induction cs arbitrary: pre)
  case (Cons b rest)
  obtain a n where b: "b = (a, n)" by force
  note wf = Cons.prems(1) [unfolded b] and ch = Cons.prems(2) [unfolded b]
    and un = Cons.prems(3) [unfolded b]
  from ch obtain r where blk: "block_at (mem st) a n r"
    and rest: "chain (mem st) r rest (sp + PAGE_SIZE)"
    by (auto simp: chain_append)
  have a: "even a" "1 \<le> n" using wf by (auto simp: wf_blocks_append)
  define d where "d = align_delta align a"
  have d: "0 \<le> d" "a + 2 * d = (if align = 0 then a else ALIGN a align)"
    using align_delta [OF al a(1)] by (auto simp: d_def)
  have scan: "slob_page_scan st sp u align (prev_of pre) a =
      (if u + d \<le> n then Some (slob_page_take st sp u (prev_of pre) a (slob_units (mem st) a) (a + 2 * d) d)
       else if slob_last (mem st) a then Some (st, None)
       else slob_page_scan st sp u align (Some a) r)"
    using d(2) by (subst slob_page_scan.simps)
      (simp add: block_at_units [OF blk] block_at_next [OF blk] Let_def d_def align_delta_def SLOB_UNIT_def)
  show ?case
  proof (cases "u + d \<le> n")
    case True
    obtain m f where
      "slob_page_take st sp u (prev_of pre) a (slob_units (mem st) a) (a + 2 * d) d =
         (page_after st sp m f (pre @ taken u d a n @ rest), Some (a + 2 * d))"
      "chain m f (pre @ taken u d a n @ rest) (sp + PAGE_SIZE)"
      "\<And>x. x \<notin> block_bytes (pre @ (a, n) # rest) \<Longrightarrow> m x = mem st x"
      by (rule page_take [OF sp wf ch un u True d(1)]) (rule that)
    with True show ?thesis
      by (auto simp: scan_result_def b scan Let_def d_def [symmetric])
  next
    case False
    have last: "slob_last (mem st) a \<longleftrightarrow> rest = []"
    proof -
      have "page_base a = sp"
        using in_page_base [OF sp wf, of 0] a by simp
      then have "slob_last (mem st) a \<longleftrightarrow> r = sp + PAGE_SIZE"
        by (rule slob_last_iff [OF sp blk])
      also have "\<dots> \<longleftrightarrow> rest = []"
        using rest wf by (cases rest) (auto simp: wf_blocks_append)
      finally show ?thesis .
    qed
    show ?thesis
    proof (cases "rest = []")
      case True
      with False last show ?thesis
        by (simp add: scan_result_def b scan Let_def d_def [symmetric])
    next
      case ne: False
      have "r = fst (hd rest)" using rest ne by (cases rest) auto
      moreover have "scan_result st sp (pre @ [(a, n)]) rest (block_alloc u align rest)
          (slob_page_scan st sp u align (prev_of (pre @ [(a, n)])) (fst (hd rest)))"
        using wf ch un ne by (intro Cons.IH) auto
      moreover have "prev_of (pre @ [(a, n)]) = Some a" by (simp add: prev_of_def)
      ultimately show ?thesis
        using False last ne
        by (simp add: b scan Let_def d_def [symmetric] scan_result_Cons)
    qed
  qed
qed simp

lemma page_after_simps [simp]:
  "mem (page_after st sp m f bs) = m"
  "sp_freelist (page_of (page_after st sp m f bs) sp) = f"
  "sp_units (page_of (page_after st sp m f bs) sp) = block_units bs"
  "PageSlab (page_of (page_after st sp m f bs) sp) = PageSlab (page_of st sp)"
  "p \<noteq> sp \<Longrightarrow> page_of (page_after st sp m f bs) p = page_of st p"
  by (auto simp: page_after_def put_page_def clear_slob_page_free_def Let_def)

subsection \<open>First fit keeps the free list well formed\<close>

lemma block_alloc_wf:
  assumes "1 \<le> u" "good_align align"
  shows "wf_blocks 2 lo hi bs \<Longrightarrow> block_alloc u align bs = Some (r, bs') \<Longrightarrow> wf_blocks 2 lo hi bs'"
proof (induction bs arbitrary: lo r bs')
  case (Cons b bs)
  obtain a n where b: "b = (a, n)" by force
  define d where "d = align_delta align a"
  have d: "0 \<le> d" using align_delta(1) [OF assms(2)] Cons.prems(1) by (simp add: b d_def)
  show ?case
  proof (cases "u + d \<le> n")
    case True
    then have bs': "bs' = taken u d a n @ bs"
      using Cons.prems(2) by (simp add: b d_def [symmetric])
    have bs: "wf_blocks 2 (a + 2 * n + 2) hi bs" using Cons.prems(1) by (simp add: b)
    from Cons.prems(1) d True assms(1) show ?thesis
      by (auto simp: bs' b taken_def wf_blocks_append algebra_simps
          intro: wf_blocks_mono [OF bs])
  next
    case False
    with Cons show ?thesis by (auto simp: b d_def [symmetric])
  qed
qed simp

lemma block_alloc_units:
  "block_alloc u align bs = Some (r, bs') \<Longrightarrow> block_units bs' = block_units bs - u"
  by (induction bs arbitrary: r bs') (auto simp: Let_def taken_def split: if_splits)

lemma taken_bytes:
  assumes "0 \<le> d" "1 \<le> u" "u + d \<le> n"
  shows "{a ..< a + 2 * n} = {a + 2 * d ..< a + 2 * d + 2 * u} \<union> block_bytes (taken u d a n)"
    and "{a + 2 * d ..< a + 2 * d + 2 * u} \<inter> block_bytes (taken u d a n) = {}"
  using assms by (auto simp: taken_def)

lemma block_alloc_bytes:
  assumes "1 \<le> u" "good_align align"
  shows "wf_blocks 2 lo hi bs \<Longrightarrow> block_alloc u align bs = Some (r, bs') \<Longrightarrow>
    block_bytes bs = {r ..< r + 2 * u} \<union> block_bytes bs' \<and> {r ..< r + 2 * u} \<inter> block_bytes bs' = {}"
proof (induction bs arbitrary: lo r bs')
  case (Cons b bs)
  obtain a n where b: "b = (a, n)" by force
  define d where "d = align_delta align a"
  have d: "0 \<le> d" using align_delta(1) [OF assms(2)] Cons.prems(1) by (simp add: b d_def)
  have bs: "wf_blocks 2 (a + 2 * n + 2) hi bs" using Cons.prems(1) by (simp add: b)
  note out = wf_block_bytes [OF bs]
  show ?case
  proof (cases "u + d \<le> n")
    case True
    then have "bs' = taken u d a n @ bs" "r = a + 2 * d"
      using Cons.prems(2) by (simp_all add: b d_def [symmetric])
    moreover have "{a + 2 * d ..< a + 2 * d + 2 * u} \<inter> block_bytes bs = {}"
      using out True d assms(1) by fastforce
    ultimately show ?thesis
      using taken_bytes [OF d assms(1) True, of a] by (simp add: b Un_assoc Int_Un_distrib)
  next
    case False
    with Cons.prems(2) obtain cs where cs: "block_alloc u align bs = Some (r, cs)" "bs' = (a, n) # cs"
      by (auto simp: b d_def [symmetric])
    from Cons.IH [OF bs cs(1)] out show ?thesis
      by (fastforce simp: b cs)
  qed
qed simp

lemma block_alloc_aligned:
  assumes "good_align align"
  shows "wf_blocks 2 lo hi bs \<Longrightarrow> block_alloc u align bs = Some (r, bs') \<Longrightarrow>
    even r \<and> (align \<noteq> 0 \<longrightarrow> align dvd r)"
proof (induction bs arbitrary: lo r bs')
  case (Cons b bs)
  obtain a n where b: "b = (a, n)" by force
  define d where "d = align_delta align a"
  have a: "even a" using Cons.prems(1) by (simp add: b)
  show ?case
  proof (cases "u + d \<le> n")
    case True
    then have r: "r = a + 2 * d" using Cons.prems(2) by (simp add: b d_def [symmetric])
    then have "align \<noteq> 0 \<longrightarrow> r = ALIGN a align" using align_delta(2) [OF assms a] by (simp add: d_def)
    moreover have "align \<noteq> 0 \<longrightarrow> align dvd ALIGN a align"
      using assms ALIGN_dvd by (auto simp: good_align_def)
    ultimately show ?thesis using r a by auto
  next
    case False
    with Cons show ?thesis by (auto simp: b d_def [symmetric])
  qed
qed simp

text \<open>
  The scan returns on every well-formed page: NULL where first fit fails, and
  otherwise the block first fit picks, with the memory encoding what is left.
\<close>

lemma page_alloc_refines:
  assumes rep: "page_repr st sp bs" and ne: "bs \<noteq> []" and sz: "1 \<le> SLOB_UNITS sz"
    and al: "good_align align"
  shows "scan_result st sp [] bs (block_alloc (SLOB_UNITS sz) align bs) (slob_page_alloc st sp sz align)"
proof -
  obtain a n rest where bs: "bs = (a, n) # rest" using ne by (cases bs) auto
  have "sp_freelist (page_of st sp) = fst (hd bs)" using rep bs by (auto simp: page_repr_def)
  moreover have "scan_result st sp [] bs (block_alloc (SLOB_UNITS sz) align bs)
      (slob_page_scan st sp (SLOB_UNITS sz) align (prev_of []) (fst (hd bs)))"
    using rep ne by (intro page_scan [OF _ sz al]) (auto simp: page_repr_def)
  ultimately show ?thesis by (simp add: slob_page_alloc_def prev_of_def)
qed

end
