(* ===== verification/Slob_Insert.thy ===== *)
theory Slob_Insert
  imports Slob_Page
begin

text \<open>
  The reinsertion of a freed block into the free list of a partially free page
  (\<^verbatim>\<open>src/kernel/project4/code/slob.c\<close>, lines 448--476 of \<^verbatim>\<open>slob_free\<close>): the
  search for the neighbours in address order, the merge with the following block
  and the merge with the preceding one.

  The lemmas refine it to \<open>block_insert\<close> on lists of blocks and show that
  \<open>block_insert\<close> keeps the list ordered and coalesced, adds exactly the freed
  bytes and the freed units.
\<close>

subsection \<open>Operations of the source\<close>

text \<open>
  The search loop (lines 458--463); it ends on every well-formed free list, and
  \<^term>\<open>None\<close> stands for a loop that never does.
\<close>

partial_function (option) slob_find_gap :: "memory \<Rightarrow> int \<Rightarrow> int \<Rightarrow> int \<Rightarrow> (int \<times> int) option" where
  "slob_find_gap m b prev nxt =
     (if b > nxt then slob_find_gap m b nxt (slob_next m nxt) else Some (prev, nxt))"

definition slob_insert_front :: "slob \<Rightarrow> int \<Rightarrow> int \<Rightarrow> s16 \<Rightarrow> slob" where
  "slob_insert_front st sp b units =
     (let fl = sp_freelist (page_of st sp);
          (units1, fl1) =
            (if b + SLOB_UNIT * sint units = fl
             then (units + slob_units (mem st) fl, slob_next (mem st) fl)
             else (units, fl))
      in put_page sp (\<lambda>p. p\<lparr>sp_freelist := b\<rparr>) (st\<lparr>mem := set_slob (mem st) b units1 fl1\<rparr>))"

definition slob_insert_between :: "memory \<Rightarrow> int \<Rightarrow> s16 \<Rightarrow> int \<Rightarrow> int \<Rightarrow> memory" where
  "slob_insert_between m b units prev nxt =
     (let m1 = (if \<not> slob_last m prev \<and> b + SLOB_UNIT * sint units = nxt
                then set_slob m b (units + slob_units m nxt) (slob_next m nxt)
                else set_slob m b units nxt)
      in if prev + SLOB_UNIT * sint (slob_units m1 prev) = b
         then set_slob m1 prev (slob_units m1 b + slob_units m1 prev) (slob_next m1 b)
         else set_slob m1 prev (slob_units m1 prev) b)"

definition slob_reinsert :: "slob \<Rightarrow> int \<Rightarrow> int \<Rightarrow> s16 \<Rightarrow> slob option" where
  "slob_reinsert st sp b units =
     (let st0 = put_page sp (\<lambda>p. p\<lparr>sp_units := sp_units p + sint units\<rparr>) st;
          fl = sp_freelist (page_of st0 sp)
      in if b < fl then Some (slob_insert_front st0 sp b units)
         else (case slob_find_gap (mem st0) b fl (slob_next (mem st0) fl) of
                 None \<Rightarrow> None
               | Some (prev, nxt) \<Rightarrow>
                   Some (st0\<lparr>mem := slob_insert_between (mem st0) b units prev nxt\<rparr>)))"

subsection \<open>Insertion into a list of blocks\<close>

fun join_next :: "int \<Rightarrow> int \<Rightarrow> blocks \<Rightarrow> blocks" where
  "join_next b u [] = [(b, u)]"
| "join_next b u ((c, k) # bs) = (if b + 2 * u = c then (b, u + k) # bs else (b, u) # (c, k) # bs)"

fun join_prev :: "int \<Rightarrow> int \<Rightarrow> blocks \<Rightarrow> blocks" where
  "join_prev a n [] = [(a, n)]"
| "join_prev a n ((b, v) # bs) = (if a + 2 * n = b then (a, n + v) # bs else (a, n) # (b, v) # bs)"

fun block_insert :: "int \<Rightarrow> int \<Rightarrow> blocks \<Rightarrow> blocks" where
  "block_insert b u [] = [(b, u)]"
| "block_insert b u ((a, n) # bs) =
     (if b < a then join_next b u ((a, n) # bs)
      else if bs = [] \<or> b < fst (hd bs) then join_prev a n (join_next b u bs)
      else (a, n) # block_insert b u bs)"

text \<open>A block that may be freed into the page: inside it and disjoint from its free blocks.\<close>

definition freeable :: "int \<Rightarrow> int \<Rightarrow> int \<Rightarrow> int \<Rightarrow> blocks \<Rightarrow> bool" where
  "freeable lo hi b u bs \<longleftrightarrow>
     even b \<and> 1 \<le> u \<and> lo \<le> b \<and> b + 2 * u \<le> hi \<and> {b ..< b + 2 * u} \<inter> block_bytes bs = {}"

subsection \<open>Insertion keeps the list well formed\<close>

lemma join_next_units [simp]: "block_units (join_next b u bs) = u + block_units bs"
  by (cases "(b, u, bs)" rule: join_next.cases) auto

lemma join_prev_units [simp]: "block_units (join_prev a n bs) = n + block_units bs"
  by (cases "(a, n, bs)" rule: join_prev.cases) auto

lemma block_insert_units: "block_units (block_insert b u bs) = u + block_units bs"
  by (induction b u bs rule: block_insert.induct) auto

lemma join_next_bytes:
  "1 \<le> u \<Longrightarrow> wf_blocks 2 (b + 2 * u) hi bs \<Longrightarrow> block_bytes (join_next b u bs) = {b ..< b + 2 * u} \<union> block_bytes bs"
  by (cases "(b, u, bs)" rule: join_next.cases) auto

lemma join_prev_bytes:
  "1 \<le> n \<Longrightarrow> wf_blocks 2 (a + 2 * n) hi bs \<Longrightarrow> block_bytes (join_prev a n bs) = {a ..< a + 2 * n} \<union> block_bytes bs"
  by (cases "(a, n, bs)" rule: join_prev.cases) auto

lemma join_next_wf:
  "1 \<le> u \<Longrightarrow> even b \<Longrightarrow> lo \<le> b \<Longrightarrow> b + 2 * u \<le> hi \<Longrightarrow> wf_blocks 2 (b + 2 * u) hi bs \<Longrightarrow>
   wf_blocks 2 lo hi (join_next b u bs)"
  by (cases "(b, u, bs)" rule: join_next.cases) (auto simp: algebra_simps, presburger)

lemma join_prev_wf:
  "1 \<le> n \<Longrightarrow> even a \<Longrightarrow> lo \<le> a \<Longrightarrow> a + 2 * n \<le> hi \<Longrightarrow> wf_blocks 2 (a + 2 * n) hi bs \<Longrightarrow>
   wf_blocks 2 lo hi (join_prev a n bs)"
  by (cases "(a, n, bs)" rule: join_prev.cases) (auto simp: algebra_simps, presburger)

lemma freeable_after:
  assumes "freeable lo hi b u bs" "wf_blocks g lo' hi bs" "bs = [] \<or> b < fst (hd bs)"
  shows "wf_blocks g (b + 2 * u) hi bs"
proof (cases bs)
  case (Cons c bs')
  obtain a n where c: "c = (a, n)" by force
  have "a \<notin> {b ..< b + 2 * u}"
    using assms(1,2) Cons c by (auto simp: freeable_def)
  then show ?thesis using assms Cons c by auto
qed simp

lemma freeable_before:
  assumes "freeable lo hi b u ((a, n) # bs)" "a \<le> b"
  shows "a + 2 * n \<le> b"
proof (rule ccontr)
  assume "\<not> a + 2 * n \<le> b"
  with assms(2) have "b \<in> block_bytes ((a, n) # bs)" by simp
  moreover have "b \<in> {b ..< b + 2 * u}" using assms(1) by (simp add: freeable_def)
  ultimately show False using assms(1) unfolding freeable_def by blast
qed

lemma freeable_tl:
  assumes "freeable lo hi b u ((a, n) # bs)" "wf_blocks 2 lo hi ((a, n) # bs)"
    "bs \<noteq> []" "fst (hd bs) \<le> b"
  shows "freeable (a + 2 * n + 2) hi b u bs"
proof -
  obtain c k cs where bs: "bs = (c, k) # cs" using assms(3) by (cases bs) auto
  with assms show ?thesis by (auto simp: freeable_def)
qed

lemma block_insert_wf:
  "freeable lo hi b u bs \<Longrightarrow> wf_blocks 2 lo hi bs \<Longrightarrow> wf_blocks 2 lo hi (block_insert b u bs)"
proof (induction b u bs arbitrary: lo rule: block_insert.induct)
  case (1 b u)
  then show ?case by (auto simp: freeable_def)
next
  case (2 b u a n bs)
  consider (front) "b < a" | (here) "\<not> b < a" "bs = [] \<or> b < fst (hd bs)"
    | (later) "\<not> b < a" "\<not> (bs = [] \<or> b < fst (hd bs))" by blast
  then show ?case
  proof cases
    case front
    have "wf_blocks 2 (b + 2 * u) hi ((a, n) # bs)"
      using front by (intro freeable_after [OF 2(2,3)]) simp
    with 2(2) have "wf_blocks 2 lo hi (join_next b u ((a, n) # bs))"
      by (intro join_next_wf) (auto simp: freeable_def)
    with front show ?thesis by simp
  next
    case here
    have ab: "a + 2 * n \<le> b" using freeable_before [OF 2(2)] here by simp
    have fr: "freeable lo hi b u bs" using 2(2) by (auto simp: freeable_def)
    have "wf_blocks 2 (b + 2 * u) hi bs"
      using freeable_after [OF fr _ here(2), of 2 "a + 2 * n + 2"] 2(3) by simp
    then have "wf_blocks 2 (a + 2 * n) hi (join_next b u bs)"
      using ab fr by (intro join_next_wf) (auto simp: freeable_def)
    then have "wf_blocks 2 lo hi (join_prev a n (join_next b u bs))"
      using 2(3) by (intro join_prev_wf) auto
    with here show ?thesis by simp
  next
    case later
    then have "wf_blocks 2 (a + 2 * n + 2) hi (block_insert b u bs)"
      using 2 freeable_tl [OF 2(2,3)] by (intro 2(1)) auto
    then show ?thesis using later 2(3) by auto
  qed
qed

lemma block_insert_bytes:
  "freeable lo hi b u bs \<Longrightarrow> wf_blocks 2 lo hi bs \<Longrightarrow>
   block_bytes (block_insert b u bs) = {b ..< b + 2 * u} \<union> block_bytes bs"
proof (induction b u bs arbitrary: lo rule: block_insert.induct)
  case (2 b u a n bs)
  consider (front) "b < a" | (here) "\<not> b < a" "bs = [] \<or> b < fst (hd bs)"
    | (later) "\<not> b < a" "\<not> (bs = [] \<or> b < fst (hd bs))" by blast
  then show ?case
  proof cases
    case front
    have "wf_blocks 2 (b + 2 * u) hi ((a, n) # bs)"
      using front by (intro freeable_after [OF 2(2,3)]) simp
    with 2(2) have "block_bytes (join_next b u ((a, n) # bs)) = {b ..< b + 2 * u} \<union> block_bytes ((a, n) # bs)"
      by (intro join_next_bytes) (auto simp: freeable_def)
    with front show ?thesis by simp
  next
    case here
    have ab: "a + 2 * n \<le> b" using freeable_before [OF 2(2)] here by simp
    have fr: "freeable lo hi b u bs" using 2(2) by (auto simp: freeable_def)
    have bs: "wf_blocks 2 (b + 2 * u) hi bs"
      using freeable_after [OF fr _ here(2), of 2 "a + 2 * n + 2"] 2(3) by simp
    then have "wf_blocks 2 (a + 2 * n) hi (join_next b u bs)"
      using ab fr by (intro join_next_wf) (auto simp: freeable_def)
    then have "block_bytes (join_prev a n (join_next b u bs)) = {a ..< a + 2 * n} \<union> block_bytes (join_next b u bs)"
      using 2(3) by (intro join_prev_bytes) auto
    also have "block_bytes (join_next b u bs) = {b ..< b + 2 * u} \<union> block_bytes bs"
      using bs fr by (intro join_next_bytes) (auto simp: freeable_def)
    finally show ?thesis using here by auto
  next
    case later
    then have "block_bytes (block_insert b u bs) = {b ..< b + 2 * u} \<union> block_bytes bs"
      using 2 freeable_tl [OF 2(2,3)] by (intro 2(1)) auto
    then show ?thesis using later by auto
  qed
qed simp

subsection \<open>The insertion refines the abstract one\<close>

lemma join_next_chain:
  assumes base: "page_base b = sp" and b: "even b" "1 \<le> u" "b + 2 * u \<le> sp + PAGE_SIZE"
    and rest: "chain m r rest (sp + PAGE_SIZE)"
    and wf: "wf_blocks 2 (b + 2 * u) (sp + PAGE_SIZE) rest"
  defines "m1 \<equiv> (if rest \<noteq> [] \<and> b + 2 * u = r
      then set_slob m b (word_of_int u + slob_units m r) (slob_next m r)
      else set_slob m b (word_of_int u) r)"
  shows "chain m1 b (join_next b u rest) (sp + PAGE_SIZE)"
    and "\<And>x. x \<notin> {b ..< b + 2 * u} \<union> block_bytes rest \<Longrightarrow> m1 x = m x"
proof -
  have sb: "sp \<le> b" using page_base_le [of b] base by simp
  then have u: "u \<le> 2048" using b by (simp add: PAGE_SIZE_def)
  have "chain m1 b (join_next b u rest) (sp + PAGE_SIZE) \<and>
      (\<forall>x. x \<notin> {b ..< b + 2 * u} \<union> block_bytes rest \<longrightarrow> m1 x = m x)"
  proof (cases rest)
    case Nil
    have "block_at (set_slob m b (word_of_int u) r) b u r"
      using b u base rest Nil by (intro block_at_set_slob) (auto simp: PAGE_SIZE_def)
    then show ?thesis
      using rest b u by (auto simp: m1_def Nil intro!: set_slob_units_other)
  next
    case (Cons ck cs)
    obtain c k where ck: "ck = (c, k)" by force
    from rest Cons ck obtain q where c: "r = c" "block_at m c k q" "chain m q cs (sp + PAGE_SIZE)"
      by auto
    have wfc: "b + 2 * u \<le> c" "even c" "1 \<le> k" "c + 2 * k \<le> sp + PAGE_SIZE"
      "wf_blocks 2 (c + 2 * k + 2) (sp + PAGE_SIZE) cs"
      using wf Cons ck by auto
    note far = wf_block_bytes [OF wfc(5)]
    show ?thesis
    proof (cases "b + 2 * u = c")
      case True
      have cb: "page_base c = sp" using wfc sb b base page_base_dvd [of b]
        by (intro page_base_eq) auto
      have q: "even q" "b < q" "q \<le> page_base b + PAGE_SIZE"
        using c(2) cb base wfc b by (auto simp: block_at_def)
      have m1: "m1 = set_slob m b (word_of_int (u + k)) q"
        using True Cons ck c(1) by (simp add: m1_def slob_units_word [OF c(2)] block_at_next [OF c(2)])
      have uk: "1 \<le> u + k" "u + k \<le> 2048" using b wfc True sb by (auto simp: PAGE_SIZE_def)
      have "block_at m1 b (u + k) q"
        unfolding m1 using uk b q by (intro block_at_set_slob) auto
      moreover have other: "m1 x = m x" if "x < b \<or> c + 2 * k \<le> x" for x
        unfolding m1 using uk that True by (intro set_slob_units_other) auto
      moreover have "chain m1 q cs (sp + PAGE_SIZE)"
        using far by (intro chain_frame [OF c(3)] other) fastforce
      ultimately show ?thesis using Cons ck True by auto
    next
      case False
      have m1: "m1 = set_slob m b (word_of_int u) c"
        using False Cons ck c(1) by (simp add: m1_def)
      have "block_at m1 b u c"
        unfolding m1 using b u base wfc by (intro block_at_set_slob) auto
      moreover have other: "m1 x = m x" if "x < b \<or> b + 2 * u \<le> x" for x
        unfolding m1 using u b that by (intro set_slob_units_other) auto
      moreover have "chain m1 c rest (sp + PAGE_SIZE)"
        using wf_block_bytes [OF wf] c(1) by (intro chain_frame [OF rest [unfolded c(1)]] other) auto
      ultimately show ?thesis using Cons ck False by auto
    qed
  qed
  then show "chain m1 b (join_next b u rest) (sp + PAGE_SIZE)"
    and "\<And>x. x \<notin> {b ..< b + 2 * u} \<union> block_bytes rest \<Longrightarrow> m1 x = m x"
    by auto
qed

lemma join_next_head: "\<exists>v R. join_next b u rest = (b, v) # R \<and> u \<le> v" if "wf_blocks g lo hi rest"
  using that by (cases "(b, u, rest)" rule: join_next.cases) auto

lemma link_prev_chain:
  assumes sp: "PAGE_SIZE dvd sp"
    and wf: "wf_blocks 0 sp (sp + PAGE_SIZE) (pre @ (a, n) # (b, v) # R)"
    and pre: "chain m p (pre @ [(a, n)]) r"
    and b: "chain m b ((b, v) # R) (sp + PAGE_SIZE)"
  defines "m2 \<equiv> (if a + 2 * sint (slob_units m a) = b
      then set_slob m a (slob_units m b + slob_units m a) (slob_next m b)
      else set_slob m a (slob_units m a) b)"
  shows "chain m2 p (pre @ join_prev a n ((b, v) # R)) (sp + PAGE_SIZE)"
    and "\<And>x. x \<notin> block_bytes [(a, n), (b, v)] \<Longrightarrow> m2 x = m x"
proof -
  from pre have pa: "chain m p pre a" and a: "block_at m a n r" by (auto simp: chain_append)
  from b obtain q where bq: "block_at m b v q" and R: "chain m q R (sp + PAGE_SIZE)" by auto
  note units = slob_units_word [OF a] slob_units_word [OF bq] block_at_units [OF a]
    block_at_next [OF bq]
  have wfs: "sp \<le> a" "even a" "1 \<le> n" "a + 2 * n \<le> b" "even b" "1 \<le> v"
      "b + 2 * v \<le> sp + PAGE_SIZE" "n \<le> 2048"
    using wf_block_bytes_split(3) [OF wf] wf a by (auto simp: wf_blocks_append block_at_def)
  have base: "page_base a = sp" "page_base b = sp"
    using wfs by (auto intro!: page_base_eq [OF sp])
  have low: "x < a" if "x \<in> block_bytes pre" for x
    using wf_block_bytes_split(1) [OF wf] that by simp
  have high: "b + 2 * v \<le> x" if "x \<in> block_bytes R" for x
    using wf_block_bytes_split(2) [of 0 sp _ "pre @ [(a, n)]" b v R] wf that by simp
  have "chain m2 p (pre @ join_prev a n ((b, v) # R)) (sp + PAGE_SIZE) \<and>
      (\<forall>x. x \<notin> block_bytes [(a, n), (b, v)] \<longrightarrow> m2 x = m x)"
  proof (cases "a + 2 * n = b")
    case True
    have m2: "m2 = set_slob m a (word_of_int (n + v)) q"
      using True block_at_units [OF a] by (simp add: m2_def) (simp add: units add.commute)
    have nv: "1 \<le> n + v" "n + v \<le> 2048" using wfs True by (auto simp: PAGE_SIZE_def)
    have other: "m2 x = m x" if "x < a \<or> b + 2 * v \<le> x" for x
      unfolding m2 using nv that True by (intro set_slob_units_other) auto
    have "block_at m2 a (n + v) q"
      unfolding m2 using nv wfs base bq by (intro block_at_set_slob) (auto simp: block_at_def)
    moreover have "chain m2 p pre a" using low by (intro chain_frame [OF pa] other) auto
    moreover have "chain m2 q R (sp + PAGE_SIZE)" using high by (intro chain_frame [OF R] other) auto
    ultimately show ?thesis using True other by (auto simp: chain_append)
  next
    case False
    have m2: "m2 = set_slob m a (slob_units m a) b"
      using False block_at_units [OF a] by (simp add: m2_def)
    have other: "m2 x = m x" if "x < a \<or> a + 2 * n \<le> x" for x
      unfolding m2 units using wfs that by (intro set_slob_units_other) auto
    have "chain m2 p (pre @ [(a, n)]) b"
      unfolding m2 using wf wfs base
      by (intro chain_retarget [OF pre, of sp "sp + PAGE_SIZE"]) (auto simp: wf_blocks_append)
    moreover have "chain m2 b ((b, v) # R) (sp + PAGE_SIZE)"
      using high wfs by (intro chain_frame [OF b] other) fastforce
    ultimately show ?thesis
      using False other unfolding append_assoc [symmetric] by (auto simp: chain_append)
  qed
  then show "chain m2 p (pre @ join_prev a n ((b, v) # R)) (sp + PAGE_SIZE)"
    and "\<And>x. x \<notin> block_bytes [(a, n), (b, v)] \<Longrightarrow> m2 x = m x" by auto
qed

lemma insert_between_chain:
  assumes sp: "PAGE_SIZE dvd sp"
    and wf: "wf_blocks 2 sp (sp + PAGE_SIZE) (pre @ (a, n) # rest)"
    and ch: "chain m p (pre @ (a, n) # rest) (sp + PAGE_SIZE)"
    and fr: "freeable sp (sp + PAGE_SIZE) b u (pre @ (a, n) # rest)"
    and ab: "a + 2 * n \<le> b" "rest = [] \<or> b < fst (hd rest)"
  defines "m' \<equiv> slob_insert_between m b (word_of_int u) a (slob_next m a)"
  shows "chain m' p (pre @ join_prev a n (join_next b u rest)) (sp + PAGE_SIZE)"
    and "\<And>x. x \<notin> {b ..< b + 2 * u} \<union> block_bytes (pre @ (a, n) # rest) \<Longrightarrow> m' x = m x"
proof -
  from ch obtain r where pa: "chain m p (pre @ [(a, n)]) r" and a: "block_at m a n r"
    and rest: "chain m r rest (sp + PAGE_SIZE)" by (auto simp: chain_append)
  have b: "even b" "1 \<le> u" "b + 2 * u \<le> sp + PAGE_SIZE" "sp \<le> b" using fr by (auto simp: freeable_def)
  have base: "page_base b = sp" "page_base a = sp"
    using b wf_block_bytes_split(3) [OF wf] ab by (auto intro!: page_base_eq [OF sp])
  have wfr: "wf_blocks 2 (b + 2 * u) (sp + PAGE_SIZE) rest"
    using freeable_after [of sp "sp + PAGE_SIZE" b u rest 2 "a + 2 * n + 2"] fr wf ab(2)
    by (auto simp: freeable_def wf_blocks_append)
  define m1 where "m1 = (if rest \<noteq> [] \<and> b + 2 * u = r
      then set_slob m b (word_of_int u + slob_units m r) (slob_next m r)
      else set_slob m b (word_of_int u) r)"
  note jn = join_next_chain [OF base(1) b(1-3) rest wfr, folded m1_def]
  obtain v R where vR: "join_next b u rest = (b, v) # R" "u \<le> v"
    using join_next_head [OF wfr] by blast
  have last: "slob_last m a \<longleftrightarrow> rest = []"
  proof -
    have "slob_last m a \<longleftrightarrow> r = sp + PAGE_SIZE" by (rule slob_last_iff [OF sp a base(2)])
    also have "\<dots> \<longleftrightarrow> rest = []" using rest wf by (cases rest) (auto simp: wf_blocks_append)
    finally show ?thesis .
  qed
  have u: "sint (word_of_int u :: s16) = u"
    using b by (intro sint_s16) (auto simp: PAGE_SIZE_def)
  have m': "m' = (if a + 2 * sint (slob_units m1 a) = b
      then set_slob m1 a (slob_units m1 b + slob_units m1 a) (slob_next m1 b)
      else set_slob m1 a (slob_units m1 a) b)"
    by (simp add: m'_def slob_insert_between_def block_at_next [OF a] last u SLOB_UNIT_def m1_def Let_def)
  have far: "b \<le> x" if "x \<in> {b ..< b + 2 * u} \<union> block_bytes rest" for x
    using that wf_block_bytes [OF wfr] b by fastforce
  have pre1: "chain m1 p (pre @ [(a, n)]) r"
  proof (intro chain_frame [OF pa] jn(2) notI)
    fix x assume "x \<in> block_bytes (pre @ [(a, n)])" "x \<in> {b ..< b + 2 * u} \<union> block_bytes rest"
    then have "x < a + 2 * n" "b \<le> x"
      using wf_block_bytes_split(1) [OF wf, of x] wf_block_bytes_split(3) [OF wf] far [of x] by auto
    with ab(1) show False by simp
  qed
  have wf1: "wf_blocks 2 (a + 2 * n) (sp + PAGE_SIZE) (join_next b u rest)"
    using b ab wfr by (intro join_next_wf) auto
  have wf2: "wf_blocks 0 sp (sp + PAGE_SIZE) (pre @ (a, n) # (b, v) # R)"
    using wf wf_blocks_gap [OF wf1, of 0] wf_blocks_gap [OF wf, of 0]
    by (auto simp: wf_blocks_append vR)
  note lp = link_prev_chain [OF sp wf2 pre1 jn(1) [unfolded vR(1)], folded m']
  from lp(1) show "chain m' p (pre @ join_prev a n (join_next b u rest)) (sp + PAGE_SIZE)"
    by (simp add: vR)
  have bytes: "block_bytes ((b, v) # R) = {b ..< b + 2 * u} \<union> block_bytes rest"
    using join_next_bytes [OF b(2) wfr] by (simp add: vR)
  fix x assume x: "x \<notin> {b ..< b + 2 * u} \<union> block_bytes (pre @ (a, n) # rest)"
  then have "m' x = m1 x" using bytes by (intro lp(2)) auto
  also have "\<dots> = m x" using x by (intro jn(2)) auto
  finally show "m' x = m x" .
qed

lemma find_gap:
  assumes hi: "b < hi"
  shows "chain m a ((a, n) # rest) hi \<Longrightarrow> a \<le> b \<Longrightarrow> b \<notin> block_bytes rest \<Longrightarrow>
    wf_blocks 2 lo hi ((a, n) # rest) \<Longrightarrow>
    \<exists>pre a' n' rest'. (a, n) # rest = pre @ (a', n') # rest' \<and> a' \<le> b \<and>
      (rest' = [] \<or> b < fst (hd rest')) \<and>
      slob_find_gap m b a (slob_next m a) = Some (a', slob_next m a') \<and>
      block_insert b u ((a, n) # rest) = pre @ join_prev a' n' (join_next b u rest')"
proof (induction rest arbitrary: a n lo)
  case Nil
  then have "slob_next m a = hi" by (auto dest: block_at_next)
  with Nil hi have "slob_find_gap m b a (slob_next m a) = Some (a, slob_next m a)"
    by (subst slob_find_gap.simps) simp
  with Nil show ?case by (intro exI [of _ "[]"]) auto
next
  case (Cons ck rest)
  obtain c k where ck: "ck = (c, k)" by force
  from Cons.prems ck have nxt: "slob_next m a = c" and c: "chain m c ((c, k) # rest) hi"
    by (auto dest: block_at_next)
  have "1 \<le> k" using Cons.prems(4) ck by simp
  then have "b \<noteq> c" using Cons.prems(3) ck by auto
  then consider (stop) "b < c" | (walk) "c < b" by linarith
  then show ?case
  proof cases
    case stop
    then have "slob_find_gap m b a (slob_next m a) = Some (a, slob_next m a)"
      by (subst slob_find_gap.simps) (simp add: nxt)
    with stop Cons.prems(2) ck show ?thesis by (intro exI [of _ "[]"]) auto
  next
    case walk
    have step: "slob_find_gap m b a (slob_next m a) = slob_find_gap m b c (slob_next m c)"
      using walk by (subst slob_find_gap.simps) (simp add: nxt)
    have "\<exists>pre a' n' rest'. (c, k) # rest = pre @ (a', n') # rest' \<and> a' \<le> b \<and>
        (rest' = [] \<or> b < fst (hd rest')) \<and>
        slob_find_gap m b c (slob_next m c) = Some (a', slob_next m a') \<and>
        block_insert b u ((c, k) # rest) = pre @ join_prev a' n' (join_next b u rest')"
      using Cons.prems walk ck by (intro Cons.IH [OF c, of "a + 2 * n + 2"]) auto
    then obtain pre a' n' rest' where "(c, k) # rest = pre @ (a', n') # rest'" "a' \<le> b"
        "rest' = [] \<or> b < fst (hd rest')"
        "slob_find_gap m b c (slob_next m c) = Some (a', slob_next m a')"
        "block_insert b u ((c, k) # rest) = pre @ join_prev a' n' (join_next b u rest')"
      by blast
    moreover have "block_insert b u ((a, n) # (c, k) # rest) = (a, n) # block_insert b u ((c, k) # rest)"
      using walk Cons.prems(2) by simp
    ultimately show ?thesis
      unfolding ck step
      by (intro exI [of _ "(a, n) # pre"] exI [of _ a'] exI [of _ n'] exI [of _ rest'])
        (simp del: block_insert.simps)
  qed
qed

text \<open>The reinsertion returns, and the page afterwards encodes the enlarged free list.\<close>

lemma reinsert_refines:
  assumes rep: "page_repr st sp bs" and ne: "bs \<noteq> []"
    and fr: "freeable sp (sp + PAGE_SIZE) b u bs"
  obtains m f where
    "slob_reinsert st sp b (word_of_int u) =
       Some (put_page sp (\<lambda>p. p\<lparr>sp_units := sp_units p + u, sp_freelist := f\<rparr>) (st\<lparr>mem := m\<rparr>))"
    "chain m f (block_insert b u bs) (sp + PAGE_SIZE)"
    "\<And>x. x \<notin> {b ..< b + 2 * u} \<union> block_bytes bs \<Longrightarrow> m x = mem st x"
proof -
  obtain a n rest where bs: "bs = (a, n) # rest" using ne by (cases bs) auto
  have sp: "PAGE_SIZE dvd sp" and ch: "chain (mem st) a bs (sp + PAGE_SIZE)"
    and fl: "sp_freelist (page_of st sp) = a" and wf: "wf_blocks 2 sp (sp + PAGE_SIZE) bs"
    using rep bs by (auto simp: page_repr_def)
  have b: "even b" "1 \<le> u" "b + 2 * u \<le> sp + PAGE_SIZE" "sp \<le> b" using fr by (auto simp: freeable_def)
  have base: "page_base b = sp" using b by (intro page_base_eq [OF sp]) auto
  have u: "sint (word_of_int u :: s16) = u"
    using b by (intro sint_s16) (auto simp: PAGE_SIZE_def)
  show thesis
  proof (cases "b < a")
    case True
    have wfb: "wf_blocks 2 (b + 2 * u) (sp + PAGE_SIZE) bs"
      using True by (intro freeable_after [OF fr wf]) (simp add: bs)
    note jn = join_next_chain [OF base b(1-3) ch wfb]
    let ?m = "if bs \<noteq> [] \<and> b + 2 * u = a
      then set_slob (mem st) b (word_of_int u + slob_units (mem st) a) (slob_next (mem st) a)
      else set_slob (mem st) b (word_of_int u) a"
    have "slob_reinsert st sp b (word_of_int u) =
        Some (put_page sp (\<lambda>p. p\<lparr>sp_units := sp_units p + u, sp_freelist := b\<rparr>) (st\<lparr>mem := ?m\<rparr>))"
      using True ne by (simp add: slob_reinsert_def slob_insert_front_def put_page_def fl u SLOB_UNIT_def)
    moreover have "block_insert b u bs = join_next b u bs" using True by (simp add: bs)
    ultimately show thesis using jn by (intro that [of b ?m]) auto
  next
    case False
    have "b \<in> {b ..< b + 2 * u}" using b by simp
    then have nb: "b \<notin> block_bytes bs" using fr unfolding freeable_def by blast
    then have nr: "b \<notin> block_bytes rest" by (auto simp: bs)
    have bh: "b < sp + PAGE_SIZE" using b by simp
    have "a \<le> b" using False by simp
    from find_gap [OF bh ch [unfolded bs] this nr wf [unfolded bs], of u, folded bs]
    obtain pre a' n' rest' where gap: "bs = pre @ (a', n') # rest'" "a' \<le> b"
        "rest' = [] \<or> b < fst (hd rest')"
        "slob_find_gap (mem st) b a (slob_next (mem st) a) = Some (a', slob_next (mem st) a')"
        "block_insert b u bs = pre @ join_prev a' n' (join_next b u rest')"
      by blast
    have ab: "a' + 2 * n' \<le> b" using nb gap(1,2) by auto
    note ib = insert_between_chain [OF sp wf [unfolded gap(1)] ch [unfolded gap(1)] fr [unfolded gap(1)]
        ab gap(3)]
    let ?m = "slob_insert_between (mem st) b (word_of_int u) a' (slob_next (mem st) a')"
    have "slob_reinsert st sp b (word_of_int u) =
        Some (put_page sp (\<lambda>p. p\<lparr>sp_units := sp_units p + u, sp_freelist := a\<rparr>) (st\<lparr>mem := ?m\<rparr>))"
      using False gap(4) unfolding fl [symmetric]
      by (auto simp: slob_reinsert_def put_page_def u intro!: slob.equality)
    then show thesis using ib gap(1,5) by (intro that [of a ?m]) auto
  qed
qed

subsection \<open>Freeing undoes allocating\<close>

lemma block_insert_taken:
  assumes "wf_blocks 2 (a + 2 * n + 2) hi bs" "0 \<le> d" "1 \<le> u" "u + d \<le> n"
  shows "block_insert (a + 2 * d) u (taken u d a n @ bs) = (a, n) # bs"
  using assms by (cases bs) (auto simp: taken_def)

lemma block_insert_skip:
  assumes "wf_blocks 2 (a + 2 * n + 2) hi (block_insert r u bs)" "a + 2 * n < r" "1 \<le> n"
  shows "block_insert r u ((a, n) # bs) = (a, n) # block_insert r u bs"
proof (cases "bs = [] \<or> r < fst (hd bs)")
  case True
  then have "block_insert r u bs = join_next r u bs" by (cases bs) auto
  moreover obtain v cs where "join_next r u bs = (r, v) # cs"
    by (cases bs; cases "r + 2 * u = fst (hd bs)") auto
  ultimately show ?thesis using True assms(2,3) by auto
next
  case False
  then show ?thesis using assms(2,3) by auto
qed

lemma block_alloc_in:
  "wf_blocks 2 lo hi bs \<Longrightarrow> good_align align \<Longrightarrow> 1 \<le> u \<Longrightarrow> block_alloc u align bs = Some (r, bs') \<Longrightarrow> lo \<le> r"
  using block_alloc_bytes [of u align lo hi bs r bs'] wf_block_bytes [of 2 lo hi bs r] by auto

lemma block_insert_alloc:
  assumes "good_align align" "1 \<le> u"
  shows "wf_blocks 2 lo hi bs \<Longrightarrow> block_alloc u align bs = Some (r, bs') \<Longrightarrow> block_insert r u bs' = bs"
proof (induction bs arbitrary: lo r bs')
  case (Cons b bs)
  obtain a n where b: "b = (a, n)" by force
  define d where "d = align_delta align a"
  have d: "0 \<le> d" using align_delta(1) [OF assms(1)] Cons.prems(1) by (simp add: b d_def)
  have bs: "wf_blocks 2 (a + 2 * n + 2) hi bs" using Cons.prems(1) by (simp add: b)
  show ?case
  proof (cases "u + d \<le> n")
    case True
    then have "r = a + 2 * d" "bs' = taken u d a n @ bs"
      using Cons.prems(2) by (simp_all add: b d_def [symmetric])
    then show ?thesis using block_insert_taken [OF bs d assms(2) True] by (simp add: b)
  next
    case False
    then obtain cs where cs: "block_alloc u align bs = Some (r, cs)" "bs' = (a, n) # cs"
      using Cons.prems(2) by (auto simp: b d_def [symmetric])
    have "block_insert r u cs = bs" by (rule Cons.IH [OF bs cs(1)])
    moreover have "a + 2 * n < r" using block_alloc_in [OF bs assms cs(1)] by simp
    ultimately show ?thesis using bs cs(2) Cons.prems(1) block_insert_skip [of a n hi r u cs] by (simp add: b)
  qed
qed simp

end
