(* ===== verification/Slob.thy ===== *)
theory Slob
  imports Slob_Insert
begin

text \<open>
  The entry points of the SLOB allocator (\<^verbatim>\<open>src/kernel/project4/code/slob.c\<close>,
  lines 199--221 and 274--479): \<^verbatim>\<open>slob_alloc\<close> with the best-fit choice of a page
  that the project added, \<^verbatim>\<open>slob_free\<close>, the statistics and the two system calls
  that report them.

  The page allocator is not part of the sources: \<open>kernel_env\<close> holds the functions
  of it that are called, and the build options. \<^verbatim>\<open>sp_alt\<close> is read before it is
  written; its indeterminate first value is an argument of the model.
  The lists are walked by \<^verbatim>\<open>slob_alloc\<close> through the members \<^verbatim>\<open>lru\<close> and \<^verbatim>\<open>list\<close> of
  \<^verbatim>\<open>struct page\<close>, two names of the same link.
\<close>

subsection \<open>Environment\<close>

record kernel_env =
  CONFIG_NUMA :: bool
  NUMA_NO_NODE :: int
  page_to_nid :: "int \<Rightarrow> int"
  GFP_ZERO :: u32
  alloc_pages :: "u32 \<Rightarrow> int \<Rightarrow> int option"
  alloc_pages_exact_node :: "int \<Rightarrow> u32 \<Rightarrow> int \<Rightarrow> int option"

definition ZERO_SIZE_PTR :: int where
  "ZERO_SIZE_PTR = 16"

definition ZERO_OR_NULL_PTR :: "int \<Rightarrow> bool" where
  "ZERO_OR_NULL_PTR x \<longleftrightarrow> x \<le> ZERO_SIZE_PTR"

definition SLOB_BREAK1 :: int where
  "SLOB_BREAK1 = 256"

definition SLOB_BREAK2 :: int where
  "SLOB_BREAK2 = 1024"

subsection \<open>Pages\<close>

definition slob_new_pages :: "kernel_env \<Rightarrow> u32 \<Rightarrow> int \<Rightarrow> int \<Rightarrow> int option" where
  "slob_new_pages env gfpf order node =
     (if CONFIG_NUMA env \<and> node \<noteq> NUMA_NO_NODE env
      then alloc_pages_exact_node env node gfpf order
      else alloc_pages env gfpf order)"

definition slob_free_pages :: "slob \<Rightarrow> int \<Rightarrow> int \<Rightarrow> slob" where
  "slob_free_pages st b order =
     st\<lparr>reclaimed_slab := map_option (\<lambda>n. n + word_of_int (2 ^ nat order)) (reclaimed_slab st),
        released := (b, order) # released st\<rparr>"

subsection \<open>Allocation\<close>

definition slob_list_of :: "int \<Rightarrow> slob_list" where
  "slob_list_of sz =
     (if sz < SLOB_BREAK1 then free_slob_small
      else if sz < SLOB_BREAK2 then free_slob_medium
      else free_slob_large)"

text \<open>The loop over the list of partially free pages (lines 297--336).\<close>

fun slob_best_page ::
  "kernel_env \<Rightarrow> slob \<Rightarrow> int \<Rightarrow> int \<Rightarrow> int list \<Rightarrow> int option \<Rightarrow> int option" where
  "slob_best_page env st sz node [] sp_alt = sp_alt"
| "slob_best_page env st sz node (sp # sps) sp_alt =
     (if CONFIG_NUMA env \<and> node \<noteq> NUMA_NO_NODE env \<and> page_to_nid env sp \<noteq> node
      then slob_best_page env st sz node sps sp_alt
      else if sp_units (page_of st sp) < SLOB_UNITS sz
      then slob_best_page env st sz node sps sp_alt
      else (let alt = (case sp_alt of None \<Rightarrow> sp | Some q \<Rightarrow> q)
            in slob_best_page env st sz node sps
                 (Some (if sp_units (page_of st sp) < sp_units (page_of st alt) then sp else alt))))"

text \<open>The three statistics loops (lines 343--359).\<close>

definition slob_count_list :: "slob \<Rightarrow> slob_list \<Rightarrow> u32 \<Rightarrow> u32" where
  "slob_count_list st l acc =
     fold (\<lambda>sp acc. acc + word_of_int (sp_units (page_of st sp))) (partial st l) acc"

definition slob_count_free :: "slob \<Rightarrow> slob" where
  "slob_count_free st =
     st\<lparr>free := slob_count_list st free_slob_large
                 (slob_count_list st free_slob_medium
                   (slob_count_list st free_slob_small (free st)))\<rparr>"

text \<open>A fresh page is entered into the allocator and the block taken from it (lines 368--383).\<close>

definition slob_init_page :: "slob \<Rightarrow> int \<Rightarrow> slob_list \<Rightarrow> slob" where
  "slob_init_page st b l =
     (let sp = virt_to_page b;
          st1 = put_page sp (\<lambda>p. p\<lparr>PageSlab := True\<rparr>) st;
          st2 = put_page sp (\<lambda>p. p\<lparr>sp_units := SLOB_UNITS PAGE_SIZE, sp_freelist := b\<rparr>) st1;
          st3 = st2\<lparr>mem := set_slob (mem st2) b (word_of_int (SLOB_UNITS PAGE_SIZE))
                            (b + SLOB_UNIT * SLOB_UNITS PAGE_SIZE)\<rparr>
      in set_slob_page_free st3 sp l)"

definition slob_alloc_new ::
  "kernel_env \<Rightarrow> slob \<Rightarrow> int \<Rightarrow> u32 \<Rightarrow> int \<Rightarrow> int \<Rightarrow> slob_list \<Rightarrow>
   (kernel_bug + slob \<times> int option) option" where
  "slob_alloc_new env st sz gfpf align node l =
     (case slob_new_pages env (gfpf AND NOT (GFP_ZERO env)) 0 node of
        None \<Rightarrow> Some (Inr (st, None))
      | Some b \<Rightarrow>
          (case slob_page_alloc (slob_init_page st b l) (virt_to_page b) sz align of
             None \<Rightarrow> None
           | Some (st1, None) \<Rightarrow> Some (Inl BUG_ON)
           | Some (st1, Some r) \<Rightarrow>
               Some (Inr (st1\<lparr>pcount := pcount st1 + 1,
                              claimed_m := claimed_m st1 + word_of_int PAGE_SIZE\<rparr>, Some r))))"

text \<open>The end of the function (lines 385--390).\<close>

definition slob_alloc_finish :: "kernel_env \<Rightarrow> slob \<Rightarrow> int \<Rightarrow> u32 \<Rightarrow> int \<Rightarrow> slob" where
  "slob_alloc_finish env st sz gfpf b =
     (let st1 = (if gfpf AND GFP_ZERO env \<noteq> 0 then st\<lparr>mem := memset0 (mem st) b sz\<rparr> else st)
      in st1\<lparr>used_m := used_m st1 + word_of_int sz\<rparr>)"

definition slob_alloc ::
  "kernel_env \<Rightarrow> int option \<Rightarrow> slob \<Rightarrow> int \<Rightarrow> u32 \<Rightarrow> int \<Rightarrow> int \<Rightarrow>
   (kernel_bug + slob \<times> int option) option" where
  "slob_alloc env sp_alt st sz gfpf align node =
     (let st0 = st\<lparr>free := 0\<rparr>;
          l = slob_list_of sz;
          found = (case slob_best_page env st0 sz node (partial st0 l) sp_alt of
                     None \<Rightarrow> Some (st0, None)
                   | Some sp \<Rightarrow> slob_page_alloc st0 sp sz align)
      in case found of
           None \<Rightarrow> None
         | Some (st1, b) \<Rightarrow>
             (let st2 = slob_count_free st1
              in case (case b of
                         Some r \<Rightarrow> Some (Inr (st2, Some r))
                       | None \<Rightarrow> slob_alloc_new env st2 sz gfpf align node l) of
                   None \<Rightarrow> None
                 | Some (Inl e) \<Rightarrow> Some (Inl e)
                 | Some (Inr (st3, None)) \<Rightarrow> Some (Inr (st3, None))
                 | Some (Inr (st3, Some r)) \<Rightarrow>
                     Some (Inr (slob_alloc_finish env st3 sz gfpf r, Some r))))"

subsection \<open>Deallocation\<close>

definition slob_release_page :: "slob \<Rightarrow> int \<Rightarrow> int \<Rightarrow> slob" where
  "slob_release_page st sp b =
     (let st1 = (if slob_page_free st sp then clear_slob_page_free st sp else st);
          st2 = put_page sp (\<lambda>p. p\<lparr>PageSlab := False\<rparr>) st1;
          st3 = slob_free_pages st2 b 0
      in st3\<lparr>pcount := pcount st3 - 1\<rparr>)"

definition slob_first_free :: "slob \<Rightarrow> int \<Rightarrow> int \<Rightarrow> int \<Rightarrow> s16 \<Rightarrow> slob" where
  "slob_first_free st sp b sz units =
     (let st1 = put_page sp (\<lambda>p. p\<lparr>sp_units := sint units, sp_freelist := b\<rparr>) st;
          st2 = st1\<lparr>mem := set_slob (mem st1) b units
                            ((b + SLOB_UNIT * SLOB_UNITS PAGE_SIZE) AND PAGE_MASK)\<rparr>
      in set_slob_page_free st2 sp (slob_list_of sz))"

definition slob_free :: "slob \<Rightarrow> int \<Rightarrow> int \<Rightarrow> (kernel_bug + slob) option" where
  "slob_free st block sz =
     (if ZERO_OR_NULL_PTR block then Some (Inr st)
      else if sz = 0 then Some (Inl BUG_ON)
      else (let sp = virt_to_page block;
                units = (word_of_int (SLOB_UNITS sz) :: s16);
                st0 = st\<lparr>used_m := used_m st - word_of_int sz\<rparr>
            in if sp_units (page_of st0 sp) + sint units = SLOB_UNITS PAGE_SIZE
               then Some (Inr (slob_release_page st0 sp block))
               else if \<not> slob_page_free st0 sp
               then Some (Inr (slob_first_free st0 sp block sz units))
               else map_option Inr (slob_reinsert st0 sp block units)))"

subsection \<open>System calls\<close>

definition sys_slob_free :: "slob \<Rightarrow> int" where
  "sys_slob_free st = sint (claimed_m st - used_m st)"

definition sys_slob_used :: "slob \<Rightarrow> int" where
  "sys_slob_used st = sint (claimed_m st)"

end
