(* ===== verification/Slob_Inv.thy ===== *)
theory Slob_Inv
  imports Slob
begin

text \<open>
  The heap invariant of the SLOB allocator and its preservation.

  The abstract state is the set \<open>live\<close> of allocated objects, each an address and
  a size in bytes. \<open>slob_inv live st\<close> says that the lists of partially free pages
  hold exactly the pages flagged \<^verbatim>\<open>PageSlobFree\<close>, each once; that the live
  objects are inside slab pages and do not overlap; and that on every slab page
  the free blocks encoded in its memory and the live objects partition the page.
\<close>

subsection \<open>The invariant\<close>

definition live_range :: "int \<times> int \<Rightarrow> int set" where
  "live_range = (\<lambda>(b, sz). {b ..< b + 2 * SLOB_UNITS sz})"

definition live_bytes :: "(int \<times> int) set \<Rightarrow> int set" where
  "live_bytes live = (\<Union>x\<in>live. live_range x)"

definition page_state :: "slob \<Rightarrow> int \<Rightarrow> blocks \<Rightarrow> bool" where
  "page_state st sp bs \<longleftrightarrow>
     PAGE_SIZE dvd sp \<and> PAGE_SIZE \<le> sp \<and>
     (if PageSlobFree (page_of st sp) then bs \<noteq> [] \<and> page_repr st sp bs
      else bs = [] \<and> sp_units (page_of st sp) = 0)"

definition page_inv :: "(int \<times> int) set \<Rightarrow> slob \<Rightarrow> int \<Rightarrow> bool" where
  "page_inv live st sp \<longleftrightarrow>
     (\<exists>bs. page_state st sp bs \<and> block_bytes bs \<inter> live_bytes live = {} \<and>
        {sp ..< sp + PAGE_SIZE} \<subseteq> block_bytes bs \<union> live_bytes live)"

definition lists_inv :: "slob \<Rightarrow> bool" where
  "lists_inv st \<longleftrightarrow>
     (\<forall>l. distinct (partial st l)) \<and>
     (\<forall>l l'. l \<noteq> l' \<longrightarrow> set (partial st l) \<inter> set (partial st l') = {}) \<and>
     (\<forall>sp. PageSlobFree (page_of st sp) \<longleftrightarrow> (\<exists>l. sp \<in> set (partial st l))) \<and>
     (\<forall>sp. PageSlobFree (page_of st sp) \<longrightarrow> PageSlab (page_of st sp))"

definition live_inv :: "(int \<times> int) set \<Rightarrow> slob \<Rightarrow> bool" where
  "live_inv live st \<longleftrightarrow>
     (\<forall>(b, sz)\<in>live. 0 < sz \<and> even b \<and> PageSlab (page_of st (page_base b)) \<and>
        b + 2 * SLOB_UNITS sz \<le> page_base b + PAGE_SIZE) \<and>
     (\<forall>x\<in>live. \<forall>y\<in>live. x \<noteq> y \<longrightarrow> live_range x \<inter> live_range y = {})"

definition slob_inv :: "(int \<times> int) set \<Rightarrow> slob \<Rightarrow> bool" where
  "slob_inv live st \<longleftrightarrow>
     lists_inv st \<and> live_inv live st \<and>
     (\<forall>sp. PageSlab (page_of st sp) \<longrightarrow> page_inv live st sp)"

subsection \<open>Ranges\<close>

lemma SLOB_UNITS_pos: "0 < sz \<Longrightarrow> 1 \<le> SLOB_UNITS sz"
  by (simp add: SLOB_UNITS_eq)

lemma SLOB_UNITS_bytes: "sz \<le> 2 * SLOB_UNITS sz" "2 * SLOB_UNITS sz \<le> sz + 1"
  by (simp_all add: SLOB_UNITS_eq)

lemma live_bytes_insert [simp]: "live_bytes (insert x live) = live_range x \<union> live_bytes live"
  by (simp add: live_bytes_def)

lemma live_bytes_empty [simp]: "live_bytes {} = {}"
  by (simp add: live_bytes_def)

lemma live_range_start: "0 < sz \<Longrightarrow> b \<in> live_range (b, sz)"
  using SLOB_UNITS_pos [of sz] by (simp add: live_range_def)

lemma live_range_page:
  assumes "live_inv live st" "(b, sz) \<in> live" "x \<in> live_range (b, sz)"
  shows "page_base x = page_base b"
proof -
  have "b + 2 * SLOB_UNITS sz \<le> page_base b + PAGE_SIZE"
    using assms(1,2) by (auto simp: live_inv_def)
  then show ?thesis
    using assms(3) order_trans [OF page_base_le [of b]]
    by (intro page_base_eq) (auto simp: live_range_def)
qed

lemma page_state_wf: "page_state st sp bs \<Longrightarrow> wf_blocks 2 sp (sp + PAGE_SIZE) bs"
  by (auto simp: page_state_def page_repr_def split: if_splits)

lemma page_state_bytes: "page_state st sp bs \<Longrightarrow> block_bytes bs \<subseteq> {sp ..< sp + PAGE_SIZE}"
  using wf_block_bytes [of 2 sp "sp + PAGE_SIZE" bs] page_state_wf [of st sp bs] by auto

lemma page_ranges_disjoint:
  assumes "PAGE_SIZE dvd p" "PAGE_SIZE dvd q" "p \<noteq> q"
  shows "{p ..< p + PAGE_SIZE} \<inter> {q ..< q + PAGE_SIZE} = {}"
proof (rule equals0I)
  fix x assume "x \<in> {p ..< p + PAGE_SIZE} \<inter> {q ..< q + PAGE_SIZE}"
  then have "page_base x = p" "page_base x = q"
    using assms(1,2) by (auto intro: page_base_eq)
  with assms(3) show False by simp
qed

lemma page_state_cong:
  assumes "page_state st sp bs" "page_of st' sp = page_of st sp"
    and "\<And>x. sp \<le> x \<Longrightarrow> x < sp + PAGE_SIZE \<Longrightarrow> mem st' x = mem st x"
  shows "page_state st' sp bs"
proof -
  have "chain (mem st) p bs q \<Longrightarrow> chain (mem st') p bs q" for p q
    using page_state_bytes [OF assms(1)] assms(3) by (elim chain_frame) auto
  with assms(1,2) show ?thesis by (auto simp: page_state_def page_repr_def)
qed

text \<open>A step that touches neither the page nor the objects on it keeps its invariant.\<close>

lemma page_inv_frame:
  assumes "page_inv live st sp" "page_of st' sp = page_of st sp"
    and "\<And>x. sp \<le> x \<Longrightarrow> x < sp + PAGE_SIZE \<Longrightarrow> mem st' x = mem st x"
    and "\<And>x. sp \<le> x \<Longrightarrow> x < sp + PAGE_SIZE \<Longrightarrow> x \<in> live_bytes live' \<longleftrightarrow> x \<in> live_bytes live"
  shows "page_inv live' st' sp"
proof -
  from assms(1) obtain bs where bs: "page_state st sp bs" "block_bytes bs \<inter> live_bytes live = {}"
    "{sp ..< sp + PAGE_SIZE} \<subseteq> block_bytes bs \<union> live_bytes live"
    by (auto simp: page_inv_def)
  have "page_state st' sp bs" using page_state_cong [OF bs(1) assms(2,3)] by simp
  moreover have "block_bytes bs \<inter> live_bytes live' = {}"
  proof (rule equals0I)
    fix x assume x: "x \<in> block_bytes bs \<inter> live_bytes live'"
    then have "x \<in> {sp ..< sp + PAGE_SIZE}" using page_state_bytes [OF bs(1)] by blast
    then have "x \<in> live_bytes live" using x assms(4) [of x] by simp
    then show False using x bs(2) by blast
  qed
  moreover have "{sp ..< sp + PAGE_SIZE} \<subseteq> block_bytes bs \<union> live_bytes live'"
  proof
    fix x assume x: "x \<in> {sp ..< sp + PAGE_SIZE}"
    then have "x \<in> block_bytes bs \<union> live_bytes live" using bs(3) by blast
    then show "x \<in> block_bytes bs \<union> live_bytes live'" using x assms(4) [of x] by auto
  qed
  ultimately show ?thesis by (auto simp: page_inv_def)
qed

lemma page_inv_state:
  assumes "page_inv live st sp"
  obtains bs where "page_state st sp bs" "block_bytes bs \<inter> live_bytes live = {}"
    "{sp ..< sp + PAGE_SIZE} \<subseteq> block_bytes bs \<union> live_bytes live"
  using assms by (auto simp: page_inv_def)

subsection \<open>Taking a block from a page\<close>

lemma block_units_nonneg: "wf_blocks g lo hi bs \<Longrightarrow> 0 \<le> block_units bs"
  by (induction bs arbitrary: lo) auto

lemma block_units_zero: "wf_blocks g lo hi bs \<Longrightarrow> block_units bs = 0 \<longleftrightarrow> bs = []"
proof (cases bs)
  case (Cons b cs)
  assume "wf_blocks g lo hi bs"
  then have "1 \<le> snd b" "0 \<le> block_units cs"
    using Cons by (cases b; auto intro: block_units_nonneg)+
  then show ?thesis using Cons by (cases b) auto
qed simp

lemma clear_lists:
  assumes "lists_inv st"
  shows "lists_inv (clear_slob_page_free st sp)"
proof -
  have "set (remove1 sp (partial st l)) = set (partial st l) - {sp}" for l
    using assms by (simp add: lists_inv_def)
  with assms show ?thesis
    unfolding lists_inv_def by (simp add: clear_slob_page_free_def put_page_def list_del_def) blast
qed

lemma set_lists:
  assumes "lists_inv st" "\<not> PageSlobFree (page_of st sp)" "PageSlab (page_of st sp)"
  shows "lists_inv (set_slob_page_free st sp l)"
proof -
  let ?ps = "(partial st)(l := sp # partial st l)"
  have notin: "sp \<notin> set (partial st k)" for k using assms(1,2) by (auto simp: lists_inv_def)
  have "(\<exists>k. q \<in> set (?ps k)) \<longleftrightarrow> q = sp \<or> (\<exists>k. q \<in> set (partial st k))" for q
    by (auto split: if_splits)
  with assms notin show ?thesis
    unfolding lists_inv_def by (auto simp: set_slob_page_free_def put_page_def list_add_def)
qed

lemma page_after_lists:
  assumes "lists_inv st" "PageSlobFree (page_of st sp)"
  shows "lists_inv (page_after st sp m f bs)"
proof -
  let ?st = "put_page sp (\<lambda>p. p\<lparr>sp_freelist := f, sp_units := block_units bs\<rparr>) (st\<lparr>mem := m\<rparr>)"
  have "lists_inv ?st" using assms(1) by (simp add: lists_inv_def put_page_def)
  then show ?thesis using clear_lists [of ?st sp] by (auto simp: page_after_def Let_def)
qed

lemma page_after_flags [simp]:
  "PageSlab (page_of (page_after st sp m f bs) q) = PageSlab (page_of st q)"
  "PageSlobFree (page_of (page_after st sp m f bs) sp) \<longleftrightarrow>
     block_units bs \<noteq> 0 \<and> PageSlobFree (page_of st sp)"
  by (auto simp: page_after_def put_page_def clear_slob_page_free_def Let_def)

lemma live_inv_insert:
  assumes "live_inv live st" "0 < sz" "even b" "PageSlab (page_of st (page_base b))"
    "b + 2 * SLOB_UNITS sz \<le> page_base b + PAGE_SIZE" "live_range (b, sz) \<inter> live_bytes live = {}"
  shows "live_inv (insert (b, sz) live) st"
proof -
  have "live_range (b, sz) \<inter> live_range y = {}" if "y \<in> live" for y
    using assms(6) that by (auto simp: live_bytes_def)
  with assms(1-5) show ?thesis unfolding live_inv_def by blast
qed

lemma live_inv_cong:
  assumes "live_inv live st" "\<And>q. PageSlab (page_of st q) \<Longrightarrow> PageSlab (page_of st' q)"
  shows "live_inv live st'"
  using assms unfolding live_inv_def by fast

lemma page_take_inv:
  assumes inv: "slob_inv live st" and flag: "PageSlobFree (page_of st sp)"
    and bs: "page_state st sp bs" "block_bytes bs \<inter> live_bytes live = {}"
      "{sp ..< sp + PAGE_SIZE} \<subseteq> block_bytes bs \<union> live_bytes live"
    and spec: "block_alloc (SLOB_UNITS sz) align bs = Some (r, bs')"
    and sz: "0 < sz" and al: "good_align align"
    and ch: "chain m f bs' (sp + PAGE_SIZE)"
    and fr: "\<And>x. x \<notin> block_bytes bs \<Longrightarrow> m x = mem st x"
  shows "slob_inv (insert (r, sz) live) (page_after st sp m f bs')"
    and "live_range (r, sz) \<subseteq> block_bytes bs" and "page_base r = sp"
proof -
  let ?st = "page_after st sp m f bs'"
  note u = SLOB_UNITS_pos [OF sz] and wf = page_state_wf [OF bs(1)]
  have wf': "wf_blocks 2 sp (sp + PAGE_SIZE) bs'" by (rule block_alloc_wf [OF u al wf spec])
  have bytes: "block_bytes bs = live_range (r, sz) \<union> block_bytes bs'"
    "live_range (r, sz) \<inter> block_bytes bs' = {}"
    using block_alloc_bytes [OF u al wf spec] by (auto simp: live_range_def)
  then show sub: "live_range (r, sz) \<subseteq> block_bytes bs" by blast
  have spd: "PAGE_SIZE dvd sp" "PAGE_SIZE \<le> sp" using bs(1) by (auto simp: page_state_def)
  have rng: "sp \<le> r" "r + 2 * SLOB_UNITS sz \<le> sp + PAGE_SIZE"
  proof -
    have "{r ..< r + 2 * SLOB_UNITS sz} \<subseteq> {sp ..< sp + PAGE_SIZE}"
      using order_trans [OF sub page_state_bytes [OF bs(1)]] by (simp only: live_range_def prod.case)
    then show "sp \<le> r" "r + 2 * SLOB_UNITS sz \<le> sp + PAGE_SIZE" using u by auto
  qed
  then show base: "page_base r = sp" using u by (intro page_base_eq [OF spd(1)]) auto
  have slab: "PageSlab (page_of st sp)" using inv flag by (auto simp: slob_inv_def lists_inv_def)
  have "lists_inv ?st" using inv flag by (intro page_after_lists) (auto simp: slob_inv_def)
  moreover have "live_inv (insert (r, sz) live) ?st"
  proof (rule live_inv_insert)
    show "live_inv live ?st" using inv by (auto simp: slob_inv_def elim: live_inv_cong)
    show "even r" using block_alloc_aligned [OF al wf spec] by simp
    show "live_range (r, sz) \<inter> live_bytes live = {}" using sub bs(2) by blast
  qed (use sz rng base slab in auto)
  moreover have "page_inv (insert (r, sz) live) ?st q" if q: "PageSlab (page_of ?st q)" for q
  proof (cases "q = sp")
    case True
    have "page_state ?st sp bs'"
      using spd wf' ch block_units_zero [OF wf'] flag
      by (cases "bs' = []") (auto simp: page_state_def page_repr_def)
    then show ?thesis
      unfolding True page_inv_def using bs(2,3) bytes by (intro exI [of _ bs']) auto
  next
    case False
    have old: "page_inv live st q" using inv q by (simp add: slob_inv_def)
    then have "PAGE_SIZE dvd q" by (auto simp: page_inv_def page_state_def)
    then have "{q ..< q + PAGE_SIZE} \<inter> {sp ..< sp + PAGE_SIZE} = {}"
      by (rule page_ranges_disjoint [OF _ spd(1) False])
    then have out: "x \<notin> block_bytes bs" if "q \<le> x" "x < q + PAGE_SIZE" for x
      using that page_state_bytes [OF bs(1)] by fastforce
    show ?thesis
      by (rule page_inv_frame [OF old]) (use False fr out sub in auto)
  qed
  ultimately show "slob_inv (insert (r, sz) live) ?st" by (simp add: slob_inv_def)
qed

text \<open>\<^verbatim>\<open>slob_page_alloc\<close> on a page of the partial lists.\<close>

definition same_counters :: "slob \<Rightarrow> slob \<Rightarrow> bool" where
  "same_counters st st' \<longleftrightarrow>
     pcount st' = pcount st \<and> free st' = free st \<and> used_m st' = used_m st \<and>
     claimed_m st' = claimed_m st \<and> reclaimed_slab st' = reclaimed_slab st \<and>
     released st' = released st"

lemma page_after_counters [simp]: "same_counters st (page_after st sp m f bs)"
  by (simp add: same_counters_def page_after_def put_page_def clear_slob_page_free_def Let_def)

definition alloc_post ::
  "(int \<times> int) set \<Rightarrow> slob \<Rightarrow> int \<Rightarrow> int \<Rightarrow> slob \<Rightarrow> int \<Rightarrow> bool" where
  "alloc_post live st sz align st' r \<longleftrightarrow>
     slob_inv (insert (r, sz) live) st' \<and>
     live_range (r, sz) \<inter> live_bytes live = {} \<and>
     (align \<noteq> 0 \<longrightarrow> align dvd r) \<and>
     (\<forall>x\<in>live_bytes live. mem st' x = mem st x)"

lemma page_alloc_inv:
  assumes inv: "slob_inv live st" and flag: "PageSlobFree (page_of st sp)"
    and sz: "0 < sz" and al: "good_align align"
  obtains (null) "slob_page_alloc st sp sz align = Some (st, None)"
    | (block) st' r where "slob_page_alloc st sp sz align = Some (st', Some r)"
        "alloc_post live st sz align st' r" "page_base r = sp" "same_counters st st'"
        "\<And>q. PageSlab (page_of st' q) = PageSlab (page_of st q)"
proof -
  have "PageSlab (page_of st sp)" using inv flag by (auto simp: slob_inv_def lists_inv_def)
  then have "page_inv live st sp" using inv by (simp add: slob_inv_def)
  then obtain bs where bs: "page_state st sp bs" "block_bytes bs \<inter> live_bytes live = {}"
    "{sp ..< sp + PAGE_SIZE} \<subseteq> block_bytes bs \<union> live_bytes live"
    by (rule page_inv_state)
  then have rep: "page_repr st sp bs" "bs \<noteq> []" using flag by (auto simp: page_state_def)
  note res = page_alloc_refines [OF rep SLOB_UNITS_pos [OF sz] al]
  show thesis
  proof (cases "block_alloc (SLOB_UNITS sz) align bs")
    case None
    with res show ?thesis by (intro null) (simp add: scan_result_def)
  next
    case (Some rb)
    obtain r bs' where rb: "rb = (r, bs')" by force
    from res obtain m f where mf:
      "slob_page_alloc st sp sz align = Some (page_after st sp m f bs', Some r)"
      "chain m f bs' (sp + PAGE_SIZE)" "\<And>x. x \<notin> block_bytes bs \<Longrightarrow> m x = mem st x"
      by (auto simp: scan_result_def Some rb)
    note take = page_take_inv [OF inv flag bs Some [unfolded rb] sz al mf(2,3)]
    have "alloc_post live st sz align (page_after st sp m f bs') r"
      unfolding alloc_post_def
      using take(1,2) bs(2) mf(3) block_alloc_aligned [OF al page_state_wf [OF bs(1)] Some [unfolded rb]]
      by auto
    then show ?thesis by (rule block [OF mf(1) _ take(3)]) auto
  qed
qed

subsection \<open>Steps outside the free lists\<close>

lemma slob_inv_counters [simp]:
  "slob_inv live (st\<lparr>pcount := c\<rparr>) = slob_inv live st"
  "slob_inv live (st\<lparr>free := c\<rparr>) = slob_inv live st"
  "slob_inv live (st\<lparr>used_m := c\<rparr>) = slob_inv live st"
  "slob_inv live (st\<lparr>claimed_m := c\<rparr>) = slob_inv live st"
  "slob_inv live (st\<lparr>reclaimed_slab := d\<rparr>) = slob_inv live st"
  "slob_inv live (st\<lparr>released := e\<rparr>) = slob_inv live st"
  by (simp_all add: slob_inv_def lists_inv_def live_inv_def page_inv_def page_state_def page_repr_def)

text \<open>Writes into live objects, by their owners or by \<^verbatim>\<open>memset\<close>, do not disturb the heap.\<close>

lemma slob_inv_write:
  assumes inv: "slob_inv live st" and m: "\<And>x. x \<notin> live_bytes live \<Longrightarrow> m x = mem st x"
  shows "slob_inv live (st\<lparr>mem := m\<rparr>)"
proof -
  have "page_inv live (st\<lparr>mem := m\<rparr>) sp" if "page_inv live st sp" for sp
  proof -
    from that obtain bs where bs: "page_state st sp bs" "block_bytes bs \<inter> live_bytes live = {}"
      "{sp ..< sp + PAGE_SIZE} \<subseteq> block_bytes bs \<union> live_bytes live"
      by (rule page_inv_state)
    have "chain (mem st) p bs q \<Longrightarrow> chain m p bs q" for p q
      by (elim chain_frame) (use bs(2) m in auto)
    then have "page_state (st\<lparr>mem := m\<rparr>) sp bs"
      using bs(1) by (auto simp: page_state_def page_repr_def)
    with bs(2,3) show ?thesis by (auto simp: page_inv_def)
  qed
  with inv show ?thesis by (simp add: slob_inv_def lists_inv_def live_inv_def)
qed

lemma no_live_outside_slab:
  assumes "live_inv live st" "PAGE_SIZE dvd b" "\<not> PageSlab (page_of st b)"
  shows "{b ..< b + PAGE_SIZE} \<inter> live_bytes live = {}"
proof (rule equals0I)
  fix x assume x: "x \<in> {b ..< b + PAGE_SIZE} \<inter> live_bytes live"
  then obtain a sz where a: "(a, sz) \<in> live" "x \<in> live_range (a, sz)" by (auto simp: live_bytes_def)
  have "page_base a = b"
    using live_range_page [OF assms(1) a] x page_base_eq [OF assms(2), of x] by simp
  moreover have "PageSlab (page_of st (page_base a))" using assms(1) a(1) by (auto simp: live_inv_def)
  ultimately show False using assms(3) by simp
qed

subsection \<open>A fresh page\<close>

lemma init_page_repr:
  assumes "PAGE_SIZE dvd b"
  shows "page_repr (slob_init_page st b l) b [(b, 2048)]"
proof -
  have vp: "virt_to_page b = b"
    using assms page_base_eq [of b b] by (simp add: virt_to_page_def addr_simps PAGE_SIZE_def)
  have "even b" using assms by (rule dvd_trans [rotated]) (simp add: PAGE_SIZE_def)
  moreover have "page_base b = b" using vp by (simp add: virt_to_page_def addr_simps)
  ultimately have "block_at (set_slob (mem st) b (word_of_int 2048) (b + 4096)) b 2048 (b + 4096)"
    by (intro block_at_set_slob) (auto simp: PAGE_SIZE_def)
  with \<open>even b\<close> show ?thesis
    using assms
    by (simp add: page_repr_def slob_init_page_def vp set_slob_page_free_def put_page_def
        SLOB_UNIT_def PAGE_SIZE_def SLOB_UNITS_eq)
qed

lemma init_page_other:
  assumes "PAGE_SIZE dvd b"
  shows "q \<noteq> b \<Longrightarrow> page_of (slob_init_page st b l) q = page_of st q"
    and "PageSlobFree (page_of (slob_init_page st b l) b)"
    and "PageSlab (page_of (slob_init_page st b l) b)"
    and "x \<notin> {b ..< b + PAGE_SIZE} \<Longrightarrow> mem (slob_init_page st b l) x = mem st x"
    and "partial (slob_init_page st b l) = (partial st)(l := b # partial st l)"
    and "same_counters st (slob_init_page st b l)"
proof -
  have vp: "virt_to_page b = b"
    using assms page_base_eq [of b b] by (simp add: virt_to_page_def addr_simps PAGE_SIZE_def)
  show "q \<noteq> b \<Longrightarrow> page_of (slob_init_page st b l) q = page_of st q"
    and "PageSlobFree (page_of (slob_init_page st b l) b)"
    and "PageSlab (page_of (slob_init_page st b l) b)"
    and "partial (slob_init_page st b l) = (partial st)(l := b # partial st l)"
    and "same_counters st (slob_init_page st b l)"
    by (auto simp: slob_init_page_def vp set_slob_page_free_def put_page_def list_add_def same_counters_def)
  show "x \<notin> {b ..< b + PAGE_SIZE} \<Longrightarrow> mem (slob_init_page st b l) x = mem st x"
    using set_slob_units_other [of 2048 x b]
    by (auto simp: slob_init_page_def vp set_slob_page_free_def put_page_def PAGE_SIZE_def SLOB_UNIT_def
        SLOB_UNITS_eq)
qed

lemma init_page_inv:
  assumes inv: "slob_inv live st" and b: "PAGE_SIZE dvd b" "PAGE_SIZE \<le> b"
    and fresh: "\<not> PageSlab (page_of st b)"
  shows "slob_inv live (slob_init_page st b l)"
proof -
  let ?st = "slob_init_page st b l"
  note io = init_page_other [OF b(1)] and dis = no_live_outside_slab [OF _ b(1) fresh, of live]
  have lists: "lists_inv st" and live: "live_inv live st" using inv by (auto simp: slob_inv_def)
  have notin: "b \<notin> set (partial st l')" for l' using lists fresh by (auto simp: lists_inv_def)
  have flags: "PageSlobFree (page_of ?st q) \<longleftrightarrow> q = b \<or> PageSlobFree (page_of st q)"
    "PageSlab (page_of ?st q) \<longleftrightarrow> q = b \<or> PageSlab (page_of st q)" for q
    using io(1-3) by (cases "q = b"; auto)+
  have mem: "(\<exists>k. q \<in> set (((partial st)(l := b # partial st l)) k)) \<longleftrightarrow>
      q = b \<or> (\<exists>k. q \<in> set (partial st k))" for q
    by (auto split: if_splits)
  have "lists_inv ?st"
    using lists notin unfolding lists_inv_def flags io(5) mem by auto
  moreover have "live_inv live ?st" using live by (rule live_inv_cong) (simp add: flags)
  moreover have "page_inv live ?st q" if "PageSlab (page_of ?st q)" for q
  proof (cases "q = b")
    case True
    have "page_state ?st b [(b, 2048)]"
      using b io(2) init_page_repr [OF b(1)] by (simp add: page_state_def)
    then show ?thesis
      unfolding True page_inv_def using dis [OF live]
      by (intro exI [of _ "[(b, 2048)]"]) (auto simp: PAGE_SIZE_def)
  next
    case False
    then have old: "page_inv live st q" using inv that by (auto simp: slob_inv_def flags)
    then have "PAGE_SIZE dvd q" by (auto simp: page_inv_def page_state_def)
    from page_ranges_disjoint [OF this b(1) False] show ?thesis
      by (intro page_inv_frame [OF old io(1) [OF False] io(4)]) auto
  qed
  ultimately show ?thesis by (simp add: slob_inv_def)
qed

end
