(* ===== verification/Slob_Correct.thy ===== *)
theory Slob_Correct
  imports Slob_Inv
begin

text \<open>
  Correctness of \<^verbatim>\<open>slob_alloc\<close> and \<^verbatim>\<open>slob_free\<close> against the heap invariant, the
  choice of the page, and the statistics.
\<close>

subsection \<open>The page that is chosen\<close>

definition eligible :: "kernel_env \<Rightarrow> slob \<Rightarrow> int \<Rightarrow> int \<Rightarrow> int \<Rightarrow> bool" where
  "eligible env st sz node sp \<longleftrightarrow>
     \<not> (CONFIG_NUMA env \<and> node \<noteq> NUMA_NO_NODE env \<and> page_to_nid env sp \<noteq> node) \<and>
     SLOB_UNITS sz \<le> sp_units (page_of st sp)"

definition best_in :: "kernel_env \<Rightarrow> slob \<Rightarrow> int \<Rightarrow> int \<Rightarrow> int list \<Rightarrow> int \<Rightarrow> bool" where
  "best_in env st sz node xs sp \<longleftrightarrow>
     (\<exists>ys zs. xs = ys @ sp # zs \<and> eligible env st sz node sp \<and>
        (\<forall>q\<in>set ys. eligible env st sz node q \<longrightarrow> sp_units (page_of st sp) < sp_units (page_of st q)) \<and>
        (\<forall>q\<in>set zs. eligible env st sz node q \<longrightarrow> sp_units (page_of st sp) \<le> sp_units (page_of st q)))"

lemma best_page_skip:
  "\<not> eligible env st sz node sp \<Longrightarrow>
   slob_best_page env st sz node (sp # sps) alt = slob_best_page env st sz node sps alt"
  by (auto simp: eligible_def)

lemma best_page_take:
  "eligible env st sz node sp \<Longrightarrow>
   slob_best_page env st sz node (sp # sps) alt =
     slob_best_page env st sz node sps
       (Some (case alt of None \<Rightarrow> sp
              | Some q \<Rightarrow> if sp_units (page_of st sp) < sp_units (page_of st q) then sp else q))"
  by (auto simp: eligible_def split: option.split)

declare slob_best_page.simps(2) [simp del]

lemma best_page_Some:
  "slob_best_page env st sz node xs (Some q) =
     (if \<exists>p\<in>set xs. eligible env st sz node p \<and> sp_units (page_of st p) < sp_units (page_of st q)
      then slob_best_page env st sz node xs None else Some q)"
proof (induction xs arbitrary: q)
  case (Cons x xs)
  show ?case
  proof (cases "eligible env st sz node x")
    case True
    then show ?thesis
      using Cons.IH [of q] Cons.IH [of x] by (auto simp: best_page_take)
  next
    case False
    then show ?thesis using Cons.IH [of q] by (auto simp: best_page_skip)
  qed
qed simp

lemma best_page_spec:
  "case slob_best_page env st sz node xs None of
     None \<Rightarrow> \<forall>q\<in>set xs. \<not> eligible env st sz node q
   | Some sp \<Rightarrow> best_in env st sz node xs sp"
proof (induction xs)
  case (Cons x xs)
  show ?case
  proof (cases "eligible env st sz node x")
    case False
    have "best_in env st sz node (x # xs) sp" if "best_in env st sz node xs sp" for sp
      using that False unfolding best_in_def
      by (elim exE) (rule exI [of _ "x # _"], auto)
    with Cons False show ?thesis by (auto simp: best_page_skip split: option.splits)
  next
    case True
    have keep: "best_in env st sz node (x # xs) x"
      if "\<forall>p\<in>set xs. eligible env st sz node p \<longrightarrow> sp_units (page_of st x) \<le> sp_units (page_of st p)"
      unfolding best_in_def using True that by (intro exI [of _ "[]"] exI [of _ xs]) auto
    have later: "best_in env st sz node (x # xs) sp"
      if "best_in env st sz node xs sp" "sp_units (page_of st sp) < sp_units (page_of st x)" for sp
      using that unfolding best_in_def
      by (elim exE) (rule exI [of _ "x # _"], auto)
    have min: "sp_units (page_of st sp) \<le> sp_units (page_of st p)"
      if "best_in env st sz node xs sp" "p \<in> set xs" "eligible env st sz node p" for sp p
      using that unfolding best_in_def by fastforce
    show ?thesis
      using Cons True keep later min
      by (auto simp: best_page_take best_page_Some not_less split: option.splits)
        (metis order_le_less_trans)
  qed
qed simp

lemma best_page_in:
  "slob_best_page env st sz node xs None = Some sp \<Longrightarrow> sp \<in> set xs"
  using best_page_spec [of xs env st sz node] by (auto simp: best_in_def)

lemma best_page_from:
  "slob_best_page env st sz node xs alt = Some sp \<Longrightarrow> sp \<in> set xs \<or> alt = Some sp"
  by (cases alt) (auto simp: best_page_Some dest: best_page_in split: if_splits)

subsection \<open>Allocation\<close>

text \<open>
  What the allocator needs of the page allocator: a page it hands out is
  page-aligned, is not the first page of the address space and is not a slab page.
\<close>

definition fresh_pages :: "kernel_env \<Rightarrow> slob \<Rightarrow> bool" where
  "fresh_pages env st \<longleftrightarrow>
     (\<forall>fl node b. slob_new_pages env fl 0 node = Some b \<longrightarrow>
        PAGE_SIZE dvd b \<and> PAGE_SIZE \<le> b \<and> \<not> PageSlab (page_of st b))"

lemma align_delta_page:
  assumes "good_align align" "align \<le> PAGE_SIZE" "PAGE_SIZE dvd b"
  shows "align_delta align b = 0"
proof (cases "align = 0")
  case False
  then obtain k where k: "align = 2 ^ k" using assms(1) by (auto simp: good_align_def)
  have "(2 :: int) ^ k \<le> 2 ^ 12" using assms(2) k by (simp add: PAGE_SIZE_def)
  then have "k \<le> 12" by (rule power_le_imp_le_exp [rotated]) simp
  then have "(2 :: int) ^ k dvd 2 ^ 12" by (rule le_imp_power_dvd)
  then have "2 ^ k dvd b" using assms(3) by (auto simp: PAGE_SIZE_def elim: dvd_trans)
  then show ?thesis by (simp add: align_delta_def k ALIGN_id)
qed (simp add: align_delta_def)

lemma fresh_page_alloc:
  assumes inv: "slob_inv live st" and b: "PAGE_SIZE dvd b" "PAGE_SIZE \<le> b"
    and fresh: "\<not> PageSlab (page_of st b)"
    and sz: "0 < sz" "sz \<le> PAGE_SIZE" and al: "good_align align" "align \<le> PAGE_SIZE"
  obtains st' where
    "slob_page_alloc (slob_init_page st b l) b sz align = Some (st', Some b)"
    "alloc_post live st sz align st' b" "same_counters st st'"
    "\<And>q. PageSlab (page_of st' q) \<longleftrightarrow> q = b \<or> PageSlab (page_of st q)"
proof -
  let ?st = "slob_init_page st b l"
  note io = init_page_other [OF b(1)]
  have inv': "slob_inv live ?st" by (rule init_page_inv [OF inv b fresh])
  have u: "1 \<le> SLOB_UNITS sz" "SLOB_UNITS sz \<le> 2048"
    using sz SLOB_UNITS_pos [of sz] SLOB_UNITS_bytes(2) [of sz] by (auto simp: PAGE_SIZE_def)
  obtain bs' where spec: "block_alloc (SLOB_UNITS sz) align [(b, 2048)] = Some (b, bs')"
    using u align_delta_page [OF al b(1)] by simp
  have "scan_result ?st b [] [(b, 2048)] (block_alloc (SLOB_UNITS sz) align [(b, 2048)])
      (slob_page_alloc ?st b sz align)"
    by (rule page_alloc_refines [OF init_page_repr [OF b(1)] _ u(1) al(1)]) simp
  then have ok: "\<exists>st'. slob_page_alloc ?st b sz align = Some (st', Some b)"
    unfolding spec by (auto simp: scan_result_def)
  have dis: "{b ..< b + PAGE_SIZE} \<inter> live_bytes live = {}"
    using inv by (intro no_live_outside_slab [OF _ b(1) fresh]) (simp add: slob_inv_def)
  have far: "mem ?st x = mem st x" if "x \<in> live_bytes live" for x
    using that dis by (intro io(4)) blast
  have slab: "PageSlab (page_of ?st q) \<longleftrightarrow> q = b \<or> PageSlab (page_of st q)" for q
    using io(1,3) by (cases "q = b") auto
  show thesis
  proof (cases rule: page_alloc_inv [OF inv' io(2) sz(1) al(1), case_names null block])
    case null
    with ok show ?thesis by simp
  next
    case (block st' r)
    have r: "r = b" using ok block(1) by simp
    have "alloc_post live st sz align st' b"
      using block(2) far by (simp add: alloc_post_def r)
    moreover have "same_counters st st'" using block(4) io(6) by (simp add: same_counters_def)
    ultimately show ?thesis using block(1,5) slab by (intro that [of st']) (simp_all add: r)
  qed
qed

lemma same_counters_refl [simp]: "same_counters st st"
  by (simp add: same_counters_def)

text \<open>The state before the final \<^verbatim>\<open>memset\<close> and the update of \<^verbatim>\<open>used_m\<close>.\<close>

lemma alloc_finish_post:
  assumes post: "alloc_post live st sz align st3 r" and sz: "0 < sz"
  shows "alloc_post live st sz align (slob_alloc_finish env st3 sz gfpf r) r"
    and "gfpf AND GFP_ZERO env \<noteq> 0 \<Longrightarrow> r \<le> x \<Longrightarrow> x < r + sz \<Longrightarrow>
      mem (slob_alloc_finish env st3 sz gfpf r) x = 0"
proof -
  have sub: "{r ..< r + sz} \<subseteq> live_range (r, sz)"
    using SLOB_UNITS_bytes(1) [of sz] by (auto simp: live_range_def)
  have "slob_inv (insert (r, sz) live) (st3\<lparr>mem := memset0 (mem st3) r sz\<rparr>)"
    using post sub by (intro slob_inv_write) (auto simp: alloc_post_def memset0_def)
  then show "alloc_post live st sz align (slob_alloc_finish env st3 sz gfpf r) r"
    using post sub by (auto simp: alloc_post_def slob_alloc_finish_def Let_def memset0_def)
  show "gfpf AND GFP_ZERO env \<noteq> 0 \<Longrightarrow> r \<le> x \<Longrightarrow> x < r + sz \<Longrightarrow>
      mem (slob_alloc_finish env st3 sz gfpf r) x = 0"
    by (simp add: slob_alloc_finish_def memset0_def)
qed

definition alloc_counters :: "slob \<Rightarrow> int \<Rightarrow> bool \<Rightarrow> slob \<Rightarrow> bool" where
  "alloc_counters st sz new st' \<longleftrightarrow>
     used_m st' = used_m st + word_of_int sz \<and>
     pcount st' = pcount st + of_bool new \<and>
     claimed_m st' = claimed_m st + of_bool new * word_of_int PAGE_SIZE \<and>
     reclaimed_slab st' = reclaimed_slab st \<and> released st' = released st"

text \<open>
  The first value of \<^verbatim>\<open>sp_alt\<close> does no harm if it is NULL or a page with free blocks.
\<close>

lemma slob_alloc_alt_cases:
  assumes inv: "slob_inv live st" and fresh: "fresh_pages env st"
    and sz: "0 < sz" "sz \<le> PAGE_SIZE" and al: "good_align align" "align \<le> PAGE_SIZE"
    and alt: "pred_option (slob_page_free st) sp_alt"
  obtains (null) st' where
      "slob_alloc env sp_alt st sz gfpf align node = Some (Inr (st', None))"
      "slob_new_pages env (gfpf AND NOT (GFP_ZERO env)) 0 node = None"
      "st' = st\<lparr>free := free st'\<rparr>" "slob_inv live st'"
    | (old) st' r where
      "slob_alloc env sp_alt st sz gfpf align node = Some (Inr (st', Some r))"
      "alloc_post live st sz align st' r" "alloc_counters st sz False st'"
      "gfpf AND GFP_ZERO env \<noteq> 0 \<Longrightarrow> \<forall>x. r \<le> x \<and> x < r + sz \<longrightarrow> mem st' x = 0"
      "\<And>q. PageSlab (page_of st' q) = PageSlab (page_of st q)"
    | (new) st' b where
      "slob_alloc env sp_alt st sz gfpf align node = Some (Inr (st', Some b))"
      "slob_new_pages env (gfpf AND NOT (GFP_ZERO env)) 0 node = Some b"
      "alloc_post live st sz align st' b" "alloc_counters st sz True st'"
      "gfpf AND GFP_ZERO env \<noteq> 0 \<Longrightarrow> \<forall>x. b \<le> x \<and> x < b + sz \<longrightarrow> mem st' x = 0"
      "\<And>q. PageSlab (page_of st' q) \<longleftrightarrow> q = b \<or> PageSlab (page_of st q)"
proof -
  let ?st0 = "st\<lparr>free := 0\<rparr>" and ?l = "slob_list_of sz"
  let ?best = "slob_best_page env ?st0 sz node (partial ?st0 ?l) sp_alt"
  let ?found = "case ?best of None \<Rightarrow> Some (?st0, None) | Some sp \<Rightarrow> slob_page_alloc ?st0 sp sz align"
  have inv0: "slob_inv live ?st0" using inv by simp
  consider (none) "?found = Some (?st0, None)"
    | (some) st1 r where "?found = Some (st1, Some r)" "alloc_post live ?st0 sz align st1 r"
        "same_counters ?st0 st1" "\<And>q. PageSlab (page_of st1 q) = PageSlab (page_of ?st0 q)"
  proof (cases ?best)
    case None
    then show ?thesis by (intro none) simp
  next
    case (Some sp)
    have flag: "PageSlobFree (page_of ?st0 sp)"
      using best_page_from [OF Some] inv0 alt by (auto simp: slob_inv_def lists_inv_def slob_page_free_def)
    show ?thesis
    proof (cases rule: page_alloc_inv [OF inv0 flag sz(1) al(1), case_names null block])
      case null
      with Some show ?thesis by (intro none) simp
    next
      case (block st' r)
      with Some show ?thesis by (intro some [of st' r]) auto
    qed
  qed
  then show thesis
  proof cases
    case some
    let ?st2 = "slob_count_free st1" and ?st' = "slob_alloc_finish env (slob_count_free st1) sz gfpf r"
    have run: "slob_alloc env sp_alt st sz gfpf align node = Some (Inr (?st', Some r))"
      using some(1) by (simp add: slob_alloc_def Let_def)
    have post: "alloc_post live st sz align ?st2 r"
      using some(2) by (simp add: alloc_post_def slob_count_free_def)
    show thesis
      using alloc_finish_post [OF post sz(1), where env = env and gfpf = gfpf] some(3,4)
      by (intro old [OF run])
        (auto simp: alloc_counters_def same_counters_def slob_alloc_finish_def slob_count_free_def Let_def)
  next
    case none
    let ?st2 = "slob_count_free ?st0"
    have inv2: "slob_inv live ?st2" using inv0 by (simp add: slob_count_free_def)
    have run: "slob_alloc env sp_alt st sz gfpf align node =
        (case slob_alloc_new env ?st2 sz gfpf align node ?l of
           None \<Rightarrow> None
         | Some (Inl e) \<Rightarrow> Some (Inl e)
         | Some (Inr (st3, None)) \<Rightarrow> Some (Inr (st3, None))
         | Some (Inr (st3, Some r)) \<Rightarrow> Some (Inr (slob_alloc_finish env st3 sz gfpf r, Some r)))"
      using none by (simp add: slob_alloc_def Let_def)
    show thesis
    proof (cases "slob_new_pages env (gfpf AND NOT (GFP_ZERO env)) 0 node")
      case None
      then show thesis
        using inv2 by (intro null [of ?st2]) (simp_all add: run slob_alloc_new_def slob_count_free_def)
    next
      case (Some b)
      have b: "PAGE_SIZE dvd b" "PAGE_SIZE \<le> b" "\<not> PageSlab (page_of ?st2 b)"
        using fresh Some by (auto simp: fresh_pages_def slob_count_free_def)
      have vp: "virt_to_page b = b"
        using b(1) page_base_eq [of b b] by (simp add: virt_to_page_def addr_simps PAGE_SIZE_def)
      obtain st3 where st3:
        "slob_page_alloc (slob_init_page ?st2 b ?l) b sz align = Some (st3, Some b)"
        "alloc_post live ?st2 sz align st3 b" "same_counters ?st2 st3"
        "\<And>q. PageSlab (page_of st3 q) \<longleftrightarrow> q = b \<or> PageSlab (page_of ?st2 q)"
        by (rule fresh_page_alloc [OF inv2 b sz al]) (rule that)
      let ?st4 = "st3\<lparr>pcount := pcount st3 + 1, claimed_m := claimed_m st3 + word_of_int PAGE_SIZE\<rparr>"
      have run': "slob_alloc env sp_alt st sz gfpf align node =
          Some (Inr (slob_alloc_finish env ?st4 sz gfpf b, Some b))"
        by (simp add: run slob_alloc_new_def Some vp st3(1))
      have post: "alloc_post live st sz align ?st4 b"
        using st3(2) by (simp add: alloc_post_def slob_count_free_def)
      show thesis
        using alloc_finish_post [OF post sz(1), where env = env and gfpf = gfpf] st3(3,4)
        by (intro new [OF run' Some])
          (auto simp: alloc_counters_def same_counters_def slob_alloc_finish_def slob_count_free_def Let_def)
    qed
  qed
qed

lemmas slob_alloc_cases = slob_alloc_alt_cases [where sp_alt = None, OF _ _ _ _ _ _ option.pred_inject(1)]

subsection \<open>Deallocation\<close>

lemma card_block_bytes:
  "wf_blocks g lo hi bs \<Longrightarrow> 0 \<le> g \<Longrightarrow> finite (block_bytes bs) \<and> int (card (block_bytes bs)) = 2 * block_units bs"
proof (induction bs arbitrary: lo)
  case (Cons b bs)
  obtain a n where b: "b = (a, n)" by force
  have wf: "wf_blocks g (a + 2 * n + g) hi bs" and n: "1 \<le> n" using Cons.prems(1) b by auto
  have "{a ..< a + 2 * n} \<inter> block_bytes bs = {}"
    using wf_block_bytes [OF wf Cons.prems(2)] Cons.prems(2) by fastforce
  with Cons.IH [OF wf Cons.prems(2)] n show ?case by (simp add: b card_Un_disjoint)
qed simp

lemma live_bytes_remove:
  assumes "live_inv live st" "x \<in> live"
  shows "live_bytes (live - {x}) = live_bytes live - live_range x"
  using assms unfolding live_inv_def live_bytes_def by fast

lemma live_inv_subset: "live_inv live st \<Longrightarrow> live' \<subseteq> live \<Longrightarrow> live_inv live' st"
  unfolding live_inv_def by (elim conjE, intro conjI) (erule (1) ball_subset, meson subsetD)

lemma live_object:
  assumes inv: "slob_inv live st" and l: "(b, sz) \<in> live"
  obtains bs where "page_state st (page_base b) bs" "block_bytes bs \<inter> live_bytes live = {}"
    "{page_base b ..< page_base b + PAGE_SIZE} \<subseteq> block_bytes bs \<union> live_bytes live"
    "freeable (page_base b) (page_base b + PAGE_SIZE) b (SLOB_UNITS sz) bs"
    "sp_units (page_of st (page_base b)) = block_units bs"
    "PageSlab (page_of st (page_base b))" "0 < sz"
proof -
  have live: "live_inv live st" using inv by (simp add: slob_inv_def)
  then have b: "0 < sz" "even b" "PageSlab (page_of st (page_base b))"
    "b + 2 * SLOB_UNITS sz \<le> page_base b + PAGE_SIZE"
    using l by (auto simp: live_inv_def)
  then have "page_inv live st (page_base b)" using inv by (simp add: slob_inv_def)
  then obtain bs where bs: "page_state st (page_base b) bs" "block_bytes bs \<inter> live_bytes live = {}"
    "{page_base b ..< page_base b + PAGE_SIZE} \<subseteq> block_bytes bs \<union> live_bytes live"
    by (rule page_inv_state)
  have "live_range (b, sz) \<subseteq> live_bytes live" using l by (auto simp: live_bytes_def)
  then have "freeable (page_base b) (page_base b + PAGE_SIZE) b (SLOB_UNITS sz) bs"
    using b bs(2) SLOB_UNITS_pos [OF b(1)] by (auto simp: freeable_def live_range_def)
  moreover have "sp_units (page_of st (page_base b)) = block_units bs"
    using bs(1) by (auto simp: page_state_def page_repr_def split: if_splits)
  ultimately show thesis using that bs b by blast
qed

lemma free_other_pages:
  assumes live: "live_inv live st" "(b, sz) \<in> live"
    and old: "page_inv live st q" and q: "q \<noteq> page_base b"
    and page: "page_of st' q = page_of st q"
    and mem: "\<And>x. x \<notin> {page_base b ..< page_base b + PAGE_SIZE} \<Longrightarrow> mem st' x = mem st x"
  shows "page_inv (live - {(b, sz)}) st' q"
proof (rule page_inv_frame [OF old page])
  have "PAGE_SIZE dvd q" using old by (auto simp: page_inv_def page_state_def)
  note dis = page_ranges_disjoint [OF this page_base_dvd q]
  have sub: "live_range (b, sz) \<subseteq> {page_base b ..< page_base b + PAGE_SIZE}"
  proof
    fix x assume "x \<in> live_range (b, sz)"
    from live_range_page [OF live this] show "x \<in> {page_base b ..< page_base b + PAGE_SIZE}"
      using page_base_le [of x] page_base_gt [of x] by simp
  qed
  fix x assume x: "q \<le> x" "x < q + PAGE_SIZE"
  then have out: "x \<notin> {page_base b ..< page_base b + PAGE_SIZE}" using dis by auto
  then show "mem st' x = mem st x" by (rule mem)
  show "x \<in> live_bytes (live - {(b, sz)}) \<longleftrightarrow> x \<in> live_bytes live"
    using out sub by (auto simp: live_bytes_remove [OF live])
qed

text \<open>Freeing into the page: the page keeps its state, with the freed bytes free again.\<close>

lemma free_into_page:
  assumes inv: "slob_inv live st" and l: "(b, sz) \<in> live"
    and bs: "block_bytes bs \<inter> live_bytes live = {}"
      "{page_base b ..< page_base b + PAGE_SIZE} \<subseteq> block_bytes bs \<union> live_bytes live"
    and state: "page_state st' (page_base b) bs'" "block_bytes bs' = live_range (b, sz) \<union> block_bytes bs"
    and lists: "lists_inv st'"
    and slab: "\<And>q. PageSlab (page_of st' q) = PageSlab (page_of st q)"
    and page: "\<And>q. q \<noteq> page_base b \<Longrightarrow> page_of st' q = page_of st q"
    and mem: "\<And>x. x \<notin> {page_base b ..< page_base b + PAGE_SIZE} \<Longrightarrow> mem st' x = mem st x"
  shows "slob_inv (live - {(b, sz)}) st'"
proof -
  have live: "live_inv live st" using inv by (simp add: slob_inv_def)
  then have "live_inv live st'" by (rule live_inv_cong) (simp add: slab)
  then have "live_inv (live - {(b, sz)}) st'" by (rule live_inv_subset) auto
  moreover have "page_inv (live - {(b, sz)}) st' q" if "PageSlab (page_of st' q)" for q
  proof (cases "q = page_base b")
    case True
    show ?thesis
      unfolding True page_inv_def using bs state
      by (intro exI [of _ bs']) (auto simp: live_bytes_remove [OF live l])
  next
    case False
    have "page_inv live st q" using inv that slab by (simp add: slob_inv_def)
    then show ?thesis by (rule free_other_pages [OF live l _ False page [OF False] mem])
  qed
  ultimately show ?thesis using lists by (simp add: slob_inv_def)
qed

lemma last_object:
  assumes inv: "slob_inv live st" and l: "(b, sz) \<in> live"
    and bs: "page_state st (page_base b) bs" "block_bytes bs \<inter> live_bytes live = {}"
    and full: "block_units bs + SLOB_UNITS sz = 2048"
    and y: "(c, k) \<in> live" "(c, k) \<noteq> (b, sz)"
  shows "page_base c \<noteq> page_base b"
proof
  assume same: "page_base c = page_base b"
  let ?page = "{page_base b ..< page_base b + PAGE_SIZE}"
  have live: "live_inv live st" using inv by (simp add: slob_inv_def)
  have pos: "0 < sz" "0 < k" using live l y by (auto simp: live_inv_def)
  have c: "c \<in> live_range (c, k)" "c \<in> ?page"
    using live_range_start [OF pos(2)] same page_base_le [of c] page_base_gt [of c] by auto
  have sub: "live_range (b, sz) \<subseteq> ?page"
  proof
    fix x assume "x \<in> live_range (b, sz)"
    from live_range_page [OF live l this] show "x \<in> ?page"
      using page_base_le [of x] page_base_gt [of x] by simp
  qed
  have dis: "live_range (b, sz) \<inter> block_bytes bs = {}" using bs(2) l by (auto simp: live_bytes_def)
  note cb = card_block_bytes [OF page_state_wf [OF bs(1)]]
  have "int (card (live_range (b, sz) \<union> block_bytes bs)) = 4096"
    using cb dis full SLOB_UNITS_pos [OF pos(1)] by (simp add: card_Un_disjoint live_range_def)
  then have "live_range (b, sz) \<union> block_bytes bs = ?page"
    using sub page_state_bytes [OF bs(1)] by (intro card_subset_eq) (auto simp: PAGE_SIZE_def)
  with c(2) have "c \<in> live_range (b, sz) \<or> c \<in> block_bytes bs" by blast
  moreover have "c \<notin> live_range (b, sz)" using live l y c(1) unfolding live_inv_def by blast
  moreover have "c \<notin> block_bytes bs" using bs(2) y(1) c(1) by (auto simp: live_bytes_def)
  ultimately show False by blast
qed

lemma release_page_inv:
  assumes inv: "slob_inv live st" and l: "(b, sz) \<in> live"
    and only: "\<And>c k. (c, k) \<in> live \<Longrightarrow> (c, k) \<noteq> (b, sz) \<Longrightarrow> page_base c \<noteq> page_base b"
  shows "slob_inv (live - {(b, sz)}) (slob_release_page st (page_base b) b)"
    (is "slob_inv ?live ?st")
proof -
  let ?sp = "page_base b"
  have live: "live_inv live st" and lists: "lists_inv st" using inv by (auto simp: slob_inv_def)
  have flags: "\<not> PageSlobFree (page_of ?st ?sp)" "\<not> PageSlab (page_of ?st ?sp)"
    and page: "\<And>q. q \<noteq> ?sp \<Longrightarrow> page_of ?st q = page_of st q" and mem: "mem ?st = mem st"
    by (auto simp: slob_release_page_def slob_free_pages_def clear_slob_page_free_def put_page_def
        slob_page_free_def Let_def)
  have "lists_inv (if slob_page_free st ?sp then clear_slob_page_free st ?sp else st)"
    using lists clear_lists by auto
  then have "lists_inv ?st"
    by (auto simp: lists_inv_def slob_release_page_def slob_free_pages_def put_page_def Let_def
        slob_page_free_def clear_slob_page_free_def split: if_splits)
  moreover have "live_inv ?live ?st"
  proof -
    have "PageSlab (page_of ?st (page_base c))" if "(c, k) \<in> ?live" for c k
      using that only [of c k] live page [of "page_base c"] by (auto simp: live_inv_def)
    moreover have "live_inv ?live st" using live by (rule live_inv_subset) auto
    ultimately show ?thesis unfolding live_inv_def by fast
  qed
  moreover have "page_inv ?live ?st q" if "PageSlab (page_of ?st q)" for q
  proof -
    have q: "q \<noteq> ?sp" using that flags by auto
    have "page_inv live st q" using inv that page [OF q] by (simp add: slob_inv_def)
    then show ?thesis by (rule free_other_pages [OF live l _ q page [OF q]]) (simp add: mem)
  qed
  ultimately show ?thesis by (simp add: slob_inv_def)
qed

lemma first_free_inv:
  assumes inv: "slob_inv live st" and l: "(b, sz) \<in> live"
    and none: "\<not> PageSlobFree (page_of st (page_base b))"
  shows "slob_inv (live - {(b, sz)})
      (slob_first_free st (page_base b) b sz (word_of_int (SLOB_UNITS sz)))"
    (is "slob_inv _ ?st")
proof -
  let ?sp = "page_base b" and ?u = "SLOB_UNITS sz"
  obtain bs where bs: "page_state st ?sp bs" "block_bytes bs \<inter> live_bytes live = {}"
    "{?sp ..< ?sp + PAGE_SIZE} \<subseteq> block_bytes bs \<union> live_bytes live"
    "freeable ?sp (?sp + PAGE_SIZE) b ?u bs" "sp_units (page_of st ?sp) = block_units bs"
    "PageSlab (page_of st ?sp)" "0 < sz"
    by (rule live_object [OF inv l]) (rule that)
  have nil: "bs = []" and sp: "PAGE_SIZE dvd ?sp" "PAGE_SIZE \<le> ?sp"
    using bs(1) none by (auto simp: page_state_def)
  have b: "even b" "1 \<le> ?u" "b + 2 * ?u \<le> ?sp + PAGE_SIZE" using bs(4) by (auto simp: freeable_def)
  have u: "?u \<le> 2048" using b(3) page_base_le [of b] by (simp add: PAGE_SIZE_def del: page_base_le)
  have su: "sint (word_of_int ?u :: s16) = ?u" using b u by (intro sint_s16) auto
  have nxt: "(b + SLOB_UNIT * 2048) AND PAGE_MASK = ?sp + PAGE_SIZE"
    unfolding addr_simps using page_base_le [of b] page_base_gt [of b]
    by (intro page_base_eq) (auto simp: SLOB_UNIT_def PAGE_SIZE_def SLOB_UNITS_eq dvd_add
        simp del: page_base_le intro: page_base_dvd [unfolded PAGE_SIZE_def])
  let ?m = "set_slob (mem st) b (word_of_int ?u) (?sp + PAGE_SIZE)"
  have st: "mem ?st = ?m" "partial ?st = (partial st)(slob_list_of sz := ?sp # partial st (slob_list_of sz))"
    "page_of ?st = (page_of st)(?sp := (page_of st ?sp)\<lparr>sp_units := ?u, sp_freelist := b, PageSlobFree := True\<rparr>)"
    by (auto simp: slob_first_free_def set_slob_page_free_def put_page_def list_add_def Let_def nxt su)
  have "block_at ?m b ?u (?sp + PAGE_SIZE)"
    using b u page_base_gt [of b] by (intro block_at_set_slob) (auto simp: PAGE_SIZE_def)
  then have "page_state ?st ?sp [(b, ?u)]"
    using sp b page_base_le [of b] by (simp add: page_state_def page_repr_def st)
  moreover have "lists_inv ?st"
    using inv none bs(6) unfolding slob_first_free_def Let_def
    by (intro set_lists) (auto simp: slob_inv_def lists_inv_def put_page_def)
  moreover have "?m x = mem st x" if "x \<notin> {?sp ..< ?sp + PAGE_SIZE}" for x
    using that b u page_base_le [of b] by (intro set_slob_units_other) (auto simp del: page_base_le)
  ultimately show ?thesis
    using bs(2,3) by (intro free_into_page [OF inv l, of bs]) (auto simp: st nil live_range_def)
qed

lemma reinsert_inv:
  assumes inv: "slob_inv live st" and l: "(b, sz) \<in> live"
    and flag: "PageSlobFree (page_of st (page_base b))"
  obtains st' where "slob_reinsert st (page_base b) b (word_of_int (SLOB_UNITS sz)) = Some st'"
    "slob_inv (live - {(b, sz)}) st'" "same_counters st st'"
    "\<And>q. PageSlab (page_of st' q) = PageSlab (page_of st q)"
    "\<And>x. x \<in> live_bytes (live - {(b, sz)}) \<Longrightarrow> mem st' x = mem st x"
proof -
  let ?sp = "page_base b" and ?u = "SLOB_UNITS sz"
  obtain bs where bs: "page_state st ?sp bs" "block_bytes bs \<inter> live_bytes live = {}"
    "{?sp ..< ?sp + PAGE_SIZE} \<subseteq> block_bytes bs \<union> live_bytes live"
    "freeable ?sp (?sp + PAGE_SIZE) b ?u bs" "sp_units (page_of st ?sp) = block_units bs"
    "PageSlab (page_of st ?sp)" "0 < sz"
    by (rule live_object [OF inv l]) (rule that)
  have rep: "page_repr st ?sp bs" "bs \<noteq> []" and sp: "PAGE_SIZE \<le> ?sp"
    using bs(1) flag by (auto simp: page_state_def)
  note wf = page_state_wf [OF bs(1)]
  have live: "live_inv live st" using inv by (simp add: slob_inv_def)
  obtain m f where mf:
    "slob_reinsert st ?sp b (word_of_int ?u) =
       Some (put_page ?sp (\<lambda>p. p\<lparr>sp_units := sp_units p + ?u, sp_freelist := f\<rparr>) (st\<lparr>mem := m\<rparr>))"
    "chain m f (block_insert b ?u bs) (?sp + PAGE_SIZE)"
    "\<And>x. x \<notin> {b ..< b + 2 * ?u} \<union> block_bytes bs \<Longrightarrow> m x = mem st x"
    by (rule reinsert_refines [OF rep bs(4)]) (rule that)
  let ?st = "put_page ?sp (\<lambda>p. p\<lparr>sp_units := sp_units p + ?u, sp_freelist := f\<rparr>) (st\<lparr>mem := m\<rparr>)"
  have bytes: "block_bytes (block_insert b ?u bs) = live_range (b, sz) \<union> block_bytes bs"
    using block_insert_bytes [OF bs(4) wf] by (simp add: live_range_def)
  have "block_insert b ?u bs \<noteq> []"
  proof
    assume "block_insert b ?u bs = []"
    then have "block_units (block_insert b ?u bs) = 0" by simp
    with bs(4) block_units_nonneg [OF wf] show False
      by (simp add: block_insert_units freeable_def)
  qed
  then have state: "page_state ?st ?sp (block_insert b ?u bs)"
    using rep sp flag mf(2) block_insert_wf [OF bs(4) wf]
    by (simp add: page_state_def page_repr_def put_page_def block_insert_units)
  have lists: "lists_inv ?st" using inv by (auto simp: slob_inv_def lists_inv_def put_page_def)
  have range: "{b ..< b + 2 * ?u} \<union> block_bytes bs \<subseteq> {?sp ..< ?sp + PAGE_SIZE}"
    using bs(4) page_state_bytes [OF bs(1)] by (auto simp: freeable_def)
  have out: "mem ?st x = mem st x" if "x \<notin> {?sp ..< ?sp + PAGE_SIZE}" for x
  proof -
    have "x \<notin> {b ..< b + 2 * ?u} \<union> block_bytes bs" using that range by blast
    then show ?thesis by (simp add: put_page_def mf(3))
  qed
  have "slob_inv (live - {(b, sz)}) ?st"
    by (rule free_into_page [OF inv l bs(2,3) state bytes lists]) (simp_all add: out, simp_all add: put_page_def)
  moreover have "mem ?st x = mem st x" if "x \<in> live_bytes (live - {(b, sz)})" for x
    using that bs(2) mf(3) by (auto simp: live_bytes_remove [OF live l] live_range_def put_page_def)
  ultimately show thesis
    using mf(1) by (intro that [of ?st]) (auto simp: same_counters_def put_page_def)
qed

definition free_post :: "(int \<times> int) set \<Rightarrow> slob \<Rightarrow> int \<Rightarrow> int \<Rightarrow> bool \<Rightarrow> slob \<Rightarrow> bool" where
  "free_post live st b sz rel st' \<longleftrightarrow>
     slob_inv (live - {(b, sz)}) st' \<and>
     (\<forall>x\<in>live_bytes (live - {(b, sz)}). mem st' x = mem st x) \<and>
     used_m st' = used_m st - word_of_int sz \<and> claimed_m st' = claimed_m st \<and>
     pcount st' = pcount st - of_bool rel \<and>
     released st' = (if rel then [(b, 0)] else []) @ released st \<and>
     (\<forall>q. PageSlab (page_of st' q) \<longleftrightarrow> PageSlab (page_of st q) \<and> \<not> (rel \<and> q = page_base b))"

text \<open>The object is the last one on its page.\<close>

definition last_on_page :: "(int \<times> int) set \<Rightarrow> int \<Rightarrow> int \<Rightarrow> bool" where
  "last_on_page live b sz \<longleftrightarrow> (\<forall>(c, k)\<in>live - {(b, sz)}. page_base c \<noteq> page_base b)"

lemma last_on_page_units:
  assumes inv: "slob_inv live st" and l: "(b, sz) \<in> live"
    and bs: "page_state st (page_base b) bs" "block_bytes bs \<inter> live_bytes live = {}"
      "{page_base b ..< page_base b + PAGE_SIZE} \<subseteq> block_bytes bs \<union> live_bytes live"
  shows "block_units bs + SLOB_UNITS sz = 2048 \<longleftrightarrow> last_on_page live b sz"
proof
  assume "block_units bs + SLOB_UNITS sz = 2048"
  from last_object [OF inv l bs(1,2) this] show "last_on_page live b sz"
    by (auto simp: last_on_page_def)
next
  assume only: "last_on_page live b sz"
  let ?page = "{page_base b ..< page_base b + PAGE_SIZE}"
  have live: "live_inv live st" using inv by (simp add: slob_inv_def)
  have pos: "0 < sz" using live l by (auto simp: live_inv_def)
  have dis: "live_range (b, sz) \<inter> block_bytes bs = {}" using bs(2) l by (auto simp: live_bytes_def)
  have sub: "live_range (b, sz) \<subseteq> ?page"
  proof
    fix x assume "x \<in> live_range (b, sz)"
    from live_range_page [OF live l this] show "x \<in> ?page"
      using page_base_le [of x] page_base_gt [of x] by simp
  qed
  have "x \<in> live_range (b, sz)" if x: "x \<in> ?page" "x \<in> live_bytes live" for x
  proof -
    obtain c k where c: "(c, k) \<in> live" "x \<in> live_range (c, k)" using x(2) by (auto simp: live_bytes_def)
    have "page_base c = page_base b"
      using live_range_page [OF live c] x(1) page_base_eq [OF page_base_dvd, of b x] by auto
    with only c show ?thesis by (auto simp: last_on_page_def)
  qed
  then have "live_range (b, sz) \<union> block_bytes bs = ?page"
    using bs(3) sub page_state_bytes [OF bs(1)] by auto
  then have "int (card (live_range (b, sz) \<union> block_bytes bs)) = 4096" by (simp add: PAGE_SIZE_def)
  moreover have "int (card (live_range (b, sz) \<union> block_bytes bs)) = 2 * SLOB_UNITS sz + 2 * block_units bs"
    using card_block_bytes [OF page_state_wf [OF bs(1)]] dis SLOB_UNITS_pos [OF pos]
    by (simp add: card_Un_disjoint live_range_def)
  ultimately show "block_units bs + SLOB_UNITS sz = 2048" by simp
qed

lemma slob_free_correct:
  assumes inv: "slob_inv live st" and l: "(b, sz) \<in> live"
  shows "\<exists>st'. slob_free st b sz = Some (Inr st') \<and> free_post live st b sz (last_on_page live b sz) st'"
proof -
  let ?sp = "page_base b" and ?u = "SLOB_UNITS sz" and ?st0 = "st\<lparr>used_m := used_m st - word_of_int sz\<rparr>"
  have inv0: "slob_inv live ?st0" using inv by simp
  obtain bs where bs: "page_state ?st0 ?sp bs" "block_bytes bs \<inter> live_bytes live = {}"
    "{?sp ..< ?sp + PAGE_SIZE} \<subseteq> block_bytes bs \<union> live_bytes live"
    "freeable ?sp (?sp + PAGE_SIZE) b ?u bs" "sp_units (page_of ?st0 ?sp) = block_units bs"
    "PageSlab (page_of ?st0 ?sp)" "0 < sz"
    by (rule live_object [OF inv0 l]) (rule that)
  have vp: "virt_to_page b = ?sp" by (simp add: virt_to_page_def addr_simps)
  have nz: "\<not> ZERO_OR_NULL_PTR b"
    using bs(1) page_base_le [of b]
    by (simp add: page_state_def ZERO_OR_NULL_PTR_def ZERO_SIZE_PTR_def PAGE_SIZE_def del: page_base_le)
  have "?u \<le> 2048"
    using bs(4) by (simp add: freeable_def PAGE_SIZE_def del: page_base_le)
  then have su: "sint (word_of_int ?u :: s16) = ?u"
    using SLOB_UNITS_pos [OF bs(7)] by (intro sint_s16) auto
  note run = slob_free_def [of st b sz, unfolded Let_def vp su]
  note last = last_on_page_units [OF inv0 l bs(1-3)]
  show ?thesis
  proof (cases "last_on_page live b sz")
    case True
    let ?st = "slob_release_page ?st0 ?sp b"
    have "slob_free st b sz = Some (Inr ?st)" using run nz bs(5,7) True last by simp
    moreover have "slob_inv (live - {(b, sz)}) ?st"
      using True by (intro release_page_inv [OF inv0 l]) (auto simp: last_on_page_def)
    ultimately show ?thesis
      using True by (auto simp: free_post_def slob_release_page_def slob_free_pages_def
          clear_slob_page_free_def put_page_def Let_def)
  next
    case False
    have notfull: "sp_units (page_of ?st0 ?sp) + ?u \<noteq> SLOB_UNITS PAGE_SIZE"
      using False last bs(5) by simp
    show ?thesis
    proof (cases "slob_page_free ?st0 ?sp")
      case True
      then have "PageSlobFree (page_of ?st0 ?sp)" by (simp add: slob_page_free_def)
      then obtain st' where st': "slob_reinsert ?st0 ?sp b (word_of_int ?u) = Some st'"
        "slob_inv (live - {(b, sz)}) st'" "same_counters ?st0 st'"
        "\<And>q. PageSlab (page_of st' q) = PageSlab (page_of ?st0 q)"
        "\<And>x. x \<in> live_bytes (live - {(b, sz)}) \<Longrightarrow> mem st' x = mem ?st0 x"
        using reinsert_inv [OF inv0 l] by blast
      have "slob_free st b sz = Some (Inr st')"
        using run nz bs(7) True notfull st'(1) by simp
      with st' False show ?thesis by (auto simp: free_post_def same_counters_def)
    next
      case no: False
      let ?st = "slob_first_free ?st0 ?sp b sz (word_of_int ?u)"
      have "slob_free st b sz = Some (Inr ?st)" using run nz bs(7) no notfull by simp
      moreover have "slob_inv (live - {(b, sz)}) ?st"
        using no by (intro first_free_inv [OF inv0 l]) (simp add: slob_page_free_def)
      moreover have "mem ?st x = mem st x" if "x \<in> live_bytes (live - {(b, sz)})" for x
      proof -
        have "x \<notin> live_range (b, sz)"
          using that live_bytes_remove [OF _ l] inv by (auto simp: slob_inv_def)
        then show ?thesis
          using SLOB_UNITS_pos [OF bs(7)] \<open>?u \<le> 2048\<close>
          by (simp add: slob_first_free_def set_slob_page_free_def put_page_def live_range_def)
            (intro set_slob_units_other, auto)
      qed
      ultimately show ?thesis
        using False by (auto simp: free_post_def slob_first_free_def set_slob_page_free_def put_page_def)
    qed
  qed
qed

end
