(* ===== verification/Slob_Heap.thy ===== *)
theory Slob_Heap
  imports Slob_Correct
begin

text \<open>
  The contract between the SLOB allocator and its clients, as the locale
  \<open>heap_allocator\<close>: an allocation that is asked for correctly returns, hands out
  an object that overlaps no live one, or NULL; freeing a live object returns;
  live objects keep their contents. \<open>heap_run\<close> is the relation of any number of
  such calls and of writes of the owners into their objects. The client lemmas are
  proved once from the contract; the interpretation \<open>slob\<close> discharges the contract
  for \<^verbatim>\<open>slob_alloc\<close> and \<^verbatim>\<open>slob_free\<close>.
\<close>

subsection \<open>Runs of an allocator\<close>

type_synonym objects = "(int \<times> int) set"

inductive heap_run ::
  "('r \<Rightarrow> 's \<Rightarrow> int \<Rightarrow> ('s \<times> int option) option) \<Rightarrow> ('s \<Rightarrow> int \<Rightarrow> int \<Rightarrow> 's option) \<Rightarrow>
   ('s \<Rightarrow> int \<Rightarrow> u8 \<Rightarrow> 's) \<Rightarrow> ('r \<Rightarrow> 's \<Rightarrow> int \<Rightarrow> bool) \<Rightarrow> 's \<Rightarrow> objects \<Rightarrow> 's \<Rightarrow> bool"
  for alloc dealloc poke req s0 where
  boot: "heap_run alloc dealloc poke req s0 {} s0"
| null: "heap_run alloc dealloc poke req s0 live s \<Longrightarrow> req r s sz \<Longrightarrow>
    alloc r s sz = Some (s', None) \<Longrightarrow> heap_run alloc dealloc poke req s0 live s'"
| object: "heap_run alloc dealloc poke req s0 live s \<Longrightarrow> req r s sz \<Longrightarrow>
    alloc r s sz = Some (s', Some b) \<Longrightarrow>
    heap_run alloc dealloc poke req s0 (insert (b, sz) live) s'"
| release: "heap_run alloc dealloc poke req s0 live s \<Longrightarrow> (b, sz) \<in> live \<Longrightarrow>
    dealloc s b sz = Some s' \<Longrightarrow> heap_run alloc dealloc poke req s0 (live - {(b, sz)}) s'"
| poke: "heap_run alloc dealloc poke req s0 live s \<Longrightarrow> (b, sz) \<in> live \<Longrightarrow> b \<le> x \<Longrightarrow> x < b + sz \<Longrightarrow>
    heap_run alloc dealloc poke req s0 live (poke s x v)"

locale heap_allocator =
  fixes inv :: "objects \<Rightarrow> 's \<Rightarrow> bool"
    and alloc :: "'r \<Rightarrow> 's \<Rightarrow> int \<Rightarrow> ('s \<times> int option) option"
    and dealloc :: "'s \<Rightarrow> int \<Rightarrow> int \<Rightarrow> 's option"
    and poke :: "'s \<Rightarrow> int \<Rightarrow> u8 \<Rightarrow> 's"
    and peek :: "'s \<Rightarrow> int \<Rightarrow> u8"
    and req :: "'r \<Rightarrow> 's \<Rightarrow> int \<Rightarrow> bool"
  assumes inv_disjoint: "inv live s \<Longrightarrow> (b, n) \<in> live \<Longrightarrow> (c, k) \<in> live \<Longrightarrow> (b, n) \<noteq> (c, k) \<Longrightarrow>
      {b ..< b + n} \<inter> {c ..< c + k} = {}"
    and inv_new: "inv live s \<Longrightarrow> req r s sz \<Longrightarrow> alloc r s sz = Some (s', Some b) \<Longrightarrow>
      (b, sz) \<notin> live \<and> inv (insert (b, sz) live) s'"
    and inv_null: "inv live s \<Longrightarrow> req r s sz \<Longrightarrow> alloc r s sz = Some (s', None) \<Longrightarrow> inv live s'"
    and alloc_returns: "inv live s \<Longrightarrow> req r s sz \<Longrightarrow> \<exists>res. alloc r s sz = Some res"
    and alloc_keeps: "inv live s \<Longrightarrow> req r s sz \<Longrightarrow> alloc r s sz = Some (s', p) \<Longrightarrow> (b, n) \<in> live \<Longrightarrow>
      b \<le> x \<Longrightarrow> x < b + n \<Longrightarrow> peek s' x = peek s x"
    and free_ok: "inv live s \<Longrightarrow> (b, sz) \<in> live \<Longrightarrow>
      \<exists>s'. dealloc s b sz = Some s' \<and> inv (live - {(b, sz)}) s'"
    and free_keeps: "inv live s \<Longrightarrow> (b, sz) \<in> live \<Longrightarrow> dealloc s b sz = Some s' \<Longrightarrow>
      (c, k) \<in> live - {(b, sz)} \<Longrightarrow> c \<le> x \<Longrightarrow> x < c + k \<Longrightarrow> peek s' x = peek s x"
    and inv_poke: "inv live s \<Longrightarrow> (b, n) \<in> live \<Longrightarrow> b \<le> x \<Longrightarrow> x < b + n \<Longrightarrow> inv live (poke s x v)"
begin

lemma run_inv: "heap_run alloc dealloc poke req s0 live s \<Longrightarrow> inv {} s0 \<Longrightarrow> inv live s"
proof (induction rule: heap_run.induct)
  case (release live s b sz s')
  then show ?case using free_ok [of live s b sz] by auto
qed (auto dest: inv_new intro: inv_null inv_poke)

lemma run_disjoint:
  assumes "heap_run alloc dealloc poke req s0 live s" "inv {} s0"
    "(b, n) \<in> live" "(c, k) \<in> live" "(b, n) \<noteq> (c, k)"
  shows "{b ..< b + n} \<inter> {c ..< c + k} = {}"
  using inv_disjoint [OF run_inv [OF assms(1,2)] assms(3-5)] .

lemma run_progress:
  assumes "heap_run alloc dealloc poke req s0 live s" "inv {} s0"
  shows "req r s sz \<Longrightarrow> \<exists>res. alloc r s sz = Some res"
    and "(b, sz) \<in> live \<Longrightarrow> \<exists>s'. dealloc s b sz = Some s'"
  using alloc_returns [OF run_inv [OF assms]] free_ok [OF run_inv [OF assms]] by blast+

lemma run_new:
  assumes "heap_run alloc dealloc poke req s0 live s" "inv {} s0" "req r s sz"
    "alloc r s sz = Some (s', Some b)" "(c, k) \<in> live"
  shows "{b ..< b + sz} \<inter> {c ..< c + k} = {}"
proof -
  note inv = run_inv [OF assms(1,2)]
  have "(b, sz) \<notin> live" "inv (insert (b, sz) live) s'" using inv_new [OF inv assms(3,4)] by auto
  then show ?thesis using assms(5) by (intro inv_disjoint [of "insert (b, sz) live" s']) auto
qed

end

subsection \<open>The SLOB allocator meets the contract\<close>

type_synonym slob_req = "kernel_env \<times> u32 \<times> int \<times> int"

text \<open>
  The calls as partial functions: \<^term>\<open>None\<close> is a call that never returns or
  ends in \<^verbatim>\<open>BUG_ON\<close>. The first value of \<^verbatim>\<open>sp_alt\<close> is NULL.
\<close>

fun slob_alloc_op :: "slob_req \<Rightarrow> slob \<Rightarrow> int \<Rightarrow> (slob \<times> int option) option" where
  "slob_alloc_op (env, gfpf, align, node) st sz =
     (case slob_alloc env None st sz gfpf align node of
        Some (Inr res) \<Rightarrow> Some res
      | _ \<Rightarrow> None)"

definition slob_free_op :: "slob \<Rightarrow> int \<Rightarrow> int \<Rightarrow> slob option" where
  "slob_free_op st b sz = (case slob_free st b sz of Some (Inr st') \<Rightarrow> Some st' | _ \<Rightarrow> None)"

definition slob_poke :: "slob \<Rightarrow> int \<Rightarrow> u8 \<Rightarrow> slob" where
  "slob_poke st x v = st\<lparr>mem := (mem st)(x := v)\<rparr>"

fun slob_req_ok :: "slob_req \<Rightarrow> slob \<Rightarrow> int \<Rightarrow> bool" where
  "slob_req_ok (env, gfpf, align, node) st sz \<longleftrightarrow>
     0 < sz \<and> sz \<le> PAGE_SIZE \<and> good_align align \<and> align \<le> PAGE_SIZE \<and> fresh_pages env st"

text \<open>The state at boot: no slab pages, empty lists, counters zero.\<close>

definition slob_boot :: "memory \<Rightarrow> (int \<Rightarrow> page) \<Rightarrow> slob" where
  "slob_boot m pg =
     \<lparr>mem = m, page_of = (\<lambda>a. (pg a)\<lparr>PageSlobFree := False, PageSlab := False\<rparr>),
      partial = (\<lambda>_. []), pcount = 0, free = 0, used_m = 0, claimed_m = 0,
      reclaimed_slab = None, released = []\<rparr>"

lemma slob_boot_inv: "slob_inv {} (slob_boot m pg)"
  by (simp add: slob_inv_def lists_inv_def live_inv_def slob_boot_def)

lemma object_in_range: "{b ..< b + n} \<subseteq> live_range (b, n)"
  using SLOB_UNITS_bytes(1) [of n] by (auto simp: live_range_def)

lemma object_in_live: "(b, n) \<in> live \<Longrightarrow> b \<le> x \<Longrightarrow> x < b + n \<Longrightarrow> x \<in> live_bytes live"
  using object_in_range [of b n] by (force simp: live_bytes_def)

lemma slob_alloc_op_cases:
  assumes "slob_inv live st" "slob_req_ok r st sz"
  obtains (null) st' where "slob_alloc_op r st sz = Some (st', None)" "slob_inv live st'"
      "st' = st\<lparr>free := free st'\<rparr>"
    | (old) st' b align where "slob_alloc_op r st sz = Some (st', Some b)"
        "alloc_post live st sz align st' b" "alloc_counters st sz False st'"
        "\<And>q. PageSlab (page_of st' q) = PageSlab (page_of st q)"
    | (new) st' b align where "slob_alloc_op r st sz = Some (st', Some b)"
        "alloc_post live st sz align st' b" "alloc_counters st sz True st'"
        "\<not> PageSlab (page_of st b)" "\<And>q. PageSlab (page_of st' q) \<longleftrightarrow> q = b \<or> PageSlab (page_of st q)"
proof -
  obtain env gfpf align node where r: "r = (env, gfpf, align, node)" by (cases r)
  have ok: "fresh_pages env st" "0 < sz" "sz \<le> PAGE_SIZE" "good_align align" "align \<le> PAGE_SIZE"
    using assms(2) by (auto simp: r)
  show thesis
  proof (cases rule: slob_alloc_cases [OF assms(1) ok, of gfpf node, case_names null old new])
    case (null st')
    then show ?thesis by (intro that(1) [of st']) (simp_all add: r)
  next
    case (old st' b)
    then show ?thesis by (intro that(2) [of st' b align]) (simp_all add: r)
  next
    case (new st' b)
    moreover have "\<not> PageSlab (page_of st b)" using ok(1) new(2) unfolding fresh_pages_def by blast
    ultimately show ?thesis by (intro that(3) [of st' b align]) (simp_all add: r)
  qed
qed

lemma free_update_mem: "st' = st\<lparr>free := n\<rparr> \<Longrightarrow> mem st' = mem st"
  by simp

lemma slob_free_op_cases:
  assumes "slob_inv live st" "(b, sz) \<in> live"
  obtains st' where "slob_free_op st b sz = Some st'" "free_post live st b sz (last_on_page live b sz) st'"
proof -
  obtain st' where "slob_free st b sz = Some (Inr st')"
      "free_post live st b sz (last_on_page live b sz) st'"
    using slob_free_correct [OF assms] by blast
  then show thesis by (intro that [of st']) (simp_all add: slob_free_op_def)
qed

lemma slob_inv_disjoint:
  assumes "slob_inv live st" "(b, n) \<in> live" "(c, k) \<in> live" "(b, n) \<noteq> (c, k)"
  shows "{b ..< b + n} \<inter> {c ..< c + k} = {}"
proof -
  have "live_range (b, n) \<inter> live_range (c, k) = {}"
    using assms unfolding slob_inv_def live_inv_def by blast
  then show ?thesis using object_in_range [of b n] object_in_range [of c k] by blast
qed

lemma alloc_post_new:
  assumes "alloc_post live st sz align st' b" "0 < sz"
  shows "(b, sz) \<notin> live" "slob_inv (insert (b, sz) live) st'"
proof -
  have "b \<in> live_range (b, sz)" using SLOB_UNITS_pos [OF assms(2)] by (simp add: live_range_def)
  then show "(b, sz) \<notin> live"
    using assms(1) by (auto simp: alloc_post_def live_bytes_def)
  show "slob_inv (insert (b, sz) live) st'" using assms(1) by (simp add: alloc_post_def)
qed

lemma slob_poke_inv:
  assumes "slob_inv live st" "(b, n) \<in> live" "b \<le> x" "x < b + n"
  shows "slob_inv live (slob_poke st x v)"
  unfolding slob_poke_def
  using object_in_live [OF assms(2-4)] by (intro slob_inv_write [OF assms(1)]) auto

interpretation slob: heap_allocator slob_inv slob_alloc_op slob_free_op slob_poke mem slob_req_ok
proof unfold_locales
  fix live st r sz st' b
  assume a: "slob_inv live st" "slob_req_ok r st sz" "slob_alloc_op r st sz = Some (st', Some b)"
  have "0 < sz" using a(2) by (cases r) simp
  with a show "(b, sz) \<notin> live \<and> slob_inv (insert (b, sz) live) st'"
    by (cases rule: slob_alloc_op_cases [OF a(1,2)]) (auto dest: alloc_post_new)
next
  fix live st r sz st' p b n x
  assume a: "slob_inv live st" "slob_req_ok r st sz" "slob_alloc_op r st sz = Some (st', p)"
    "(b, n) \<in> live" "b \<le> x" "x < b + n"
  then show "mem st' x = mem st x"
    by (cases rule: slob_alloc_op_cases [OF a(1,2)])
      (auto simp: alloc_post_def dest: object_in_live free_update_mem)
next
  fix live st b sz
  assume a: "slob_inv live st" "(b, sz) \<in> live"
  show "\<exists>st'. slob_free_op st b sz = Some st' \<and> slob_inv (live - {(b, sz)}) st'"
    by (cases rule: slob_free_op_cases [OF a]) (auto simp: free_post_def)
next
  fix live st b sz st' c k x
  assume a: "slob_inv live st" "(b, sz) \<in> live" "slob_free_op st b sz = Some st'"
    "(c, k) \<in> live - {(b, sz)}" "c \<le> x" "x < c + k"
  then show "mem st' x = mem st x"
    by (cases rule: slob_free_op_cases [OF a(1,2)])
      (auto simp: free_post_def dest: object_in_live [OF a(4)])
qed (auto elim: slob_alloc_op_cases dest: slob_inv_disjoint intro: slob_poke_inv)

subsection \<open>Accounting\<close>

text \<open>What the counters mean in terms of the objects and of the pages held.\<close>

definition slab_pages :: "slob \<Rightarrow> int set" where
  "slab_pages st = {q. PageSlab (page_of st q)}"

definition slob_accounts :: "objects \<Rightarrow> slob \<Rightarrow> bool" where
  "slob_accounts live st \<longleftrightarrow>
     finite live \<and> used_m st = word_of_int (\<Sum>x\<in>live. snd x) \<and>
     finite (slab_pages st) \<and> pcount st = of_nat (card (slab_pages st)) \<and>
     claimed_m st = word_of_int PAGE_SIZE * (pcount st + of_nat (length (released st)))"

abbreviation "slob_run m pg \<equiv> heap_run slob_alloc_op slob_free_op slob_poke slob_req_ok (slob_boot m pg)"

lemma slob_run_inv: "slob_run m pg live st \<Longrightarrow> slob_inv live st"
  by (rule slob.run_inv [OF _ slob_boot_inv])

lemma accounts_null: "slob_accounts live st \<Longrightarrow> st' = st\<lparr>free := n\<rparr> \<Longrightarrow> slob_accounts live st'"
  by (simp add: slob_accounts_def slab_pages_def)

lemma accounts_old:
  assumes "slob_accounts live st" "(b, sz) \<notin> live" "alloc_counters st sz False st'"
    "\<And>q. PageSlab (page_of st' q) = PageSlab (page_of st q)"
  shows "slob_accounts (insert (b, sz) live) st'"
  using assms by (simp add: slob_accounts_def alloc_counters_def slab_pages_def add.commute)

lemma accounts_new:
  assumes "slob_accounts live st" "(b, sz) \<notin> live" "alloc_counters st sz True st'"
    "\<not> PageSlab (page_of st b)" "\<And>q. PageSlab (page_of st' q) \<longleftrightarrow> q = b \<or> PageSlab (page_of st q)"
  shows "slob_accounts (insert (b, sz) live) st'"
proof -
  have "slab_pages st' = insert b (slab_pages st)" "b \<notin> slab_pages st"
    using assms(4,5) by (auto simp: slab_pages_def)
  then show ?thesis
    using assms(1-3) by (simp add: slob_accounts_def alloc_counters_def algebra_simps)
qed

lemma accounts_free:
  assumes "slob_accounts live st" "slob_inv live st" "(b, sz) \<in> live" "free_post live st b sz rel st'"
  shows "slob_accounts (live - {(b, sz)}) st'"
proof -
  have p: "page_base b \<in> slab_pages st"
    using assms(2,3) by (auto simp: slob_inv_def live_inv_def slab_pages_def)
  have "slab_pages st' = (if rel then slab_pages st - {page_base b} else slab_pages st)"
    using assms(4) by (auto simp: free_post_def slab_pages_def)
  moreover have "card (slab_pages st) = Suc (card (slab_pages st - {page_base b}))"
    using assms(1) by (intro card.remove [OF _ p]) (simp add: slob_accounts_def)
  moreover have "(\<Sum>x\<in>live. snd x) = sz + (\<Sum>x\<in>live - {(b, sz)}. snd x)"
    using assms(1,3) sum.remove [of live "(b, sz)" snd] by (simp add: slob_accounts_def)
  ultimately show ?thesis
    using assms(1,4) by (cases rel) (simp_all add: slob_accounts_def free_post_def algebra_simps)
qed

lemma slob_run_accounts: "slob_run m pg live st \<Longrightarrow> slob_accounts live st"
proof (induction rule: heap_run.induct)
  case boot
  then show ?case by (simp add: slob_accounts_def slob_boot_def slab_pages_def)
next
  case (null live st r sz st')
  note op = null(3) and IH = null.IH
  from null(1) have "slob_inv live st" by (rule slob_run_inv)
  from this null(2) show ?case
  proof (cases rule: slob_alloc_op_cases)
    case (null st1)
    then have "slob_accounts live st1" by (intro accounts_null [OF IH])
    then show ?thesis using null(1) op by simp
  qed (use null(3) in simp_all)
next
  case (object live st r sz st' b)
  from object(1) have inv: "slob_inv live st" by (rule slob_run_inv)
  have pos: "0 < sz" using object(2) by (cases r) simp
  from inv object(2) show ?case
  proof (cases rule: slob_alloc_op_cases)
    case (old st1 b1 align)
    then show ?thesis
      using object(3) accounts_old [OF object.IH alloc_post_new(1) [OF old(2) pos] old(3,4)] by simp
  next
    case (new st1 b1 align)
    then show ?thesis
      using object(3) accounts_new [OF object.IH alloc_post_new(1) [OF new(2) pos] new(3-5)] by simp
  qed (use object(3) in simp)
next
  case (release live st b sz st')
  from release(1) have inv: "slob_inv live st" by (rule slob_run_inv)
  obtain st1 where "slob_free_op st b sz = Some st1" "free_post live st b sz (last_on_page live b sz) st1"
    by (rule slob_free_op_cases [OF inv release(2)])
  then show ?case using release(3) accounts_free [OF release.IH inv release(2)] by simp
next
  case (poke live st b sz x v)
  then show ?case by (simp add: slob_accounts_def slob_poke_def slab_pages_def)
qed

end
