(* ===== verification/Slob_Front.thy ===== *)
theory Slob_Front
  imports Slob_Heap
begin

text \<open>
  The \<^verbatim>\<open>kmalloc\<close> and \<^verbatim>\<open>kmem_cache\<close> front end of the SLOB allocator
  (\<^verbatim>\<open>src/kernel/project4/code/slob.c\<close>, lines 136--144 and 481--701). An object of
  \<^verbatim>\<open>kmalloc\<close> carries its size in a header in front of it, an object of a cache with
  \<^verbatim>\<open>SLAB_DESTROY_BY_RCU\<close> a \<^verbatim>\<open>struct slob_rcu\<close> behind it. The kernel's own functions
  (\<^verbatim>\<open>get_order\<close>, \<^verbatim>\<open>compound_order\<close>, what \<^verbatim>\<open>call_rcu\<close> writes into the \<^verbatim>\<open>rcu_head\<close>)
  and constants are fields of \<open>front_env\<close>. The callbacks handed to \<^verbatim>\<open>call_rcu\<close> are a
  list in the state, from which the RCU machinery calls them later. Tracing, lockdep
  and kmemleak hooks have no effect on the heap and are left out.
\<close>

subsection \<open>State and environment\<close>

record front_env =
  kernel :: kernel_env
  ARCH_KMALLOC_MINALIGN :: int
  ARCH_SLAB_MINALIGN :: int
  gfp_allowed_mask :: u32
  GFP_COMP :: u32
  get_order :: "int \<Rightarrow> int"
  compound_order :: "int \<Rightarrow> int"
  SLAB_DESTROY_BY_RCU :: u32
  SLAB_PANIC :: u32
  sizeof_rcu_head :: int
  sizeof_kmem_cache :: u32
  rcu_head_write :: "memory \<Rightarrow> int \<Rightarrow> memory"

record kmem_cache =
  c_size :: u32
  c_align :: u32
  c_flags :: u32
  c_ctor :: "(memory \<Rightarrow> int \<Rightarrow> memory) option"

datatype slab_state = SLAB_DOWN | SLAB_UP | SLAB_FULL

record kmem =
  heap :: slob
  rcu :: "int list"
  kmem_cache_root :: "kmem_cache option"
  slab_state :: slab_state

definition sizeof_slob_rcu :: "front_env \<Rightarrow> int" where
  "sizeof_slob_rcu env = sizeof_rcu_head env + 4"

subsection \<open>kmalloc, kfree, ksize\<close>

definition kmalloc_align :: "front_env \<Rightarrow> int" where
  "kmalloc_align env = max (ARCH_KMALLOC_MINALIGN env) (ARCH_SLAB_MINALIGN env)"

definition do_kmalloc_node ::
  "front_env \<Rightarrow> int option \<Rightarrow> slob \<Rightarrow> int \<Rightarrow> u32 \<Rightarrow> int \<Rightarrow> (kernel_bug + slob \<times> int option) option" where
  "do_kmalloc_node env sp_alt st sz gfpf node =
     (let align = kmalloc_align env;
          gfpf = gfpf AND gfp_allowed_mask env
      in if sz < (PAGE_SIZE - align) mod 2 ^ 32 then
           (if sz = 0 then Some (Inr (st, Some ZERO_SIZE_PTR))
            else (case slob_alloc (kernel env) sp_alt st (sz + align) gfpf align node of
                    None \<Rightarrow> None
                  | Some (Inl e) \<Rightarrow> Some (Inl e)
                  | Some (Inr (st1, None)) \<Rightarrow> Some (Inr (st1, None))
                  | Some (Inr (st1, Some m)) \<Rightarrow>
                      Some (Inr (st1\<lparr>mem := store32 (mem st1) m (word_of_int sz)\<rparr>, Some (m + align)))))
         else (let order = get_order env sz;
                   gfpf = (if order \<noteq> 0 then gfpf OR GFP_COMP env else gfpf)
               in Some (Inr (st, slob_new_pages (kernel env) gfpf order node))))"

definition kmalloc ::
  "front_env \<Rightarrow> int option \<Rightarrow> slob \<Rightarrow> int \<Rightarrow> u32 \<Rightarrow> (kernel_bug + slob \<times> int option) option" where
  "kmalloc env sp_alt st sz gfpf = do_kmalloc_node env sp_alt st sz gfpf (NUMA_NO_NODE (kernel env))"

text \<open>The entries with a caller for the tracing hooks, and those with a node (\<^verbatim>\<open>CONFIG_NUMA\<close>).\<close>

definition kmalloc_track_caller ::
  "front_env \<Rightarrow> int option \<Rightarrow> slob \<Rightarrow> int \<Rightarrow> u32 \<Rightarrow> u32 \<Rightarrow> (kernel_bug + slob \<times> int option) option" where
  "kmalloc_track_caller env sp_alt st sz gfpf caller =
     do_kmalloc_node env sp_alt st sz gfpf (NUMA_NO_NODE (kernel env))"

definition kmalloc_node_track_caller ::
  "front_env \<Rightarrow> int option \<Rightarrow> slob \<Rightarrow> int \<Rightarrow> u32 \<Rightarrow> int \<Rightarrow> u32 \<Rightarrow> (kernel_bug + slob \<times> int option) option" where
  "kmalloc_node_track_caller env sp_alt st sz gfpf node caller = do_kmalloc_node env sp_alt st sz gfpf node"

definition kmalloc_node ::
  "front_env \<Rightarrow> int option \<Rightarrow> slob \<Rightarrow> int \<Rightarrow> u32 \<Rightarrow> int \<Rightarrow> (kernel_bug + slob \<times> int option) option" where
  "kmalloc_node env sp_alt st sz gfpf node = do_kmalloc_node env sp_alt st sz gfpf node"

definition free_pages_ext :: "slob \<Rightarrow> int \<Rightarrow> int \<Rightarrow> slob" where
  "free_pages_ext st sp order = st\<lparr>released := (sp, order) # released st\<rparr>"

definition kfree :: "front_env \<Rightarrow> slob \<Rightarrow> int \<Rightarrow> (kernel_bug + slob) option" where
  "kfree env st block =
     (if ZERO_OR_NULL_PTR block then Some (Inr st)
      else (let sp = virt_to_page block
            in if PageSlab (page_of st sp)
               then (let align = kmalloc_align env;
                         m = block - align
                     in slob_free st m (sint (load32 (mem st) m + word_of_int align)))
               else Some (Inr (free_pages_ext st sp (compound_order env sp)))))"

definition ksize :: "front_env \<Rightarrow> slob \<Rightarrow> int \<Rightarrow> kernel_bug + int" where
  "ksize env st block =
     (if block = 0 then Inl BUG_ON
      else if block = ZERO_SIZE_PTR then Inr 0
      else (let sp = virt_to_page block
            in if \<not> PageSlab (page_of st sp)
               then Inr ((PAGE_SIZE * 2 ^ nat (compound_order env sp)) mod 2 ^ 32)
               else (let m = block - kmalloc_align env
                     in Inr (uint ((load32 (mem st) m + 1) div 2 * 2)))))"

subsection \<open>Caches\<close>

definition kmem_cache_create :: "front_env \<Rightarrow> kmem_cache \<Rightarrow> u32 \<Rightarrow> kmem_cache \<times> int" where
  "kmem_cache_create env c flags =
     (let c1 = (if flags AND SLAB_DESTROY_BY_RCU env \<noteq> 0
                then c\<lparr>c_size := c_size c + word_of_int (sizeof_slob_rcu env)\<rparr> else c)
      in (c1\<lparr>c_flags := flags\<rparr>, 0))"

definition run_ctor :: "kmem_cache \<Rightarrow> slob \<Rightarrow> int \<Rightarrow> slob" where
  "run_ctor c st b = (case c_ctor c of None \<Rightarrow> st | Some f \<Rightarrow> st\<lparr>mem := f (mem st) b\<rparr>)"

definition slob_alloc_node ::
  "front_env \<Rightarrow> int option \<Rightarrow> slob \<Rightarrow> kmem_cache \<Rightarrow> u32 \<Rightarrow> int \<Rightarrow> (kernel_bug + slob \<times> int option) option" where
  "slob_alloc_node env sp_alt st c flags node =
     (let flags = flags AND gfp_allowed_mask env
      in case (if uint (c_size c) < PAGE_SIZE
               then slob_alloc (kernel env) sp_alt st (uint (c_size c)) flags (sint (c_align c)) node
               else Some (Inr (st, slob_new_pages (kernel env) flags (get_order env (uint (c_size c))) node))) of
           None \<Rightarrow> None
         | Some (Inl e) \<Rightarrow> Some (Inl e)
         | Some (Inr (st1, None)) \<Rightarrow> Some (Inr (st1, None))
         | Some (Inr (st1, Some b)) \<Rightarrow> Some (Inr (run_ctor c st1 b, Some b)))"

definition kmem_cache_alloc ::
  "front_env \<Rightarrow> int option \<Rightarrow> slob \<Rightarrow> kmem_cache \<Rightarrow> u32 \<Rightarrow> (kernel_bug + slob \<times> int option) option" where
  "kmem_cache_alloc env sp_alt st c flags =
     slob_alloc_node env sp_alt st c flags (NUMA_NO_NODE (kernel env))"

definition kmem_cache_alloc_node ::
  "front_env \<Rightarrow> int option \<Rightarrow> slob \<Rightarrow> kmem_cache \<Rightarrow> u32 \<Rightarrow> int \<Rightarrow> (kernel_bug + slob \<times> int option) option" where
  "kmem_cache_alloc_node env sp_alt st c gfpf node = slob_alloc_node env sp_alt st c gfpf node"

definition do_kmem_cache_free :: "front_env \<Rightarrow> slob \<Rightarrow> int \<Rightarrow> u32 \<Rightarrow> (kernel_bug + slob) option" where
  "do_kmem_cache_free env st b sz =
     (if uint sz < PAGE_SIZE then slob_free st b (sint sz)
      else Some (Inr (slob_free_pages st b (get_order env (uint sz)))))"

definition kmem_rcu_free :: "front_env \<Rightarrow> slob \<Rightarrow> int \<Rightarrow> (kernel_bug + slob) option" where
  "kmem_rcu_free env st head =
     (let sz = load32 (mem st) (head + sizeof_rcu_head env);
          b = head - (uint sz - sizeof_slob_rcu env)
      in do_kmem_cache_free env st b sz)"

definition call_rcu :: "front_env \<Rightarrow> kmem \<Rightarrow> int \<Rightarrow> kmem" where
  "call_rcu env k head =
     k\<lparr>heap := (heap k)\<lparr>mem := rcu_head_write env (mem (heap k)) head\<rparr>, rcu := rcu k @ [head]\<rparr>"

definition kmem_cache_free :: "front_env \<Rightarrow> kmem \<Rightarrow> kmem_cache \<Rightarrow> int \<Rightarrow> (kernel_bug + kmem) option" where
  "kmem_cache_free env k c b =
     (if c_flags c AND SLAB_DESTROY_BY_RCU env \<noteq> 0
      then (let slob_rcu = b + (uint (c_size c) - sizeof_slob_rcu env);
                st = heap k;
                st1 = st\<lparr>mem := store32 (mem st) (slob_rcu + sizeof_rcu_head env) (c_size c)\<rparr>
            in Some (Inr (call_rcu env (k\<lparr>heap := st1\<rparr>) slob_rcu)))
      else map_option (map_sum id (\<lambda>st. k\<lparr>heap := st\<rparr>)) (do_kmem_cache_free env (heap k) b (c_size c)))"

text \<open>The RCU machinery calls the oldest registered callback.\<close>

definition rcu_callback :: "front_env \<Rightarrow> kmem \<Rightarrow> (kernel_bug + kmem) option" where
  "rcu_callback env k =
     (case rcu k of
        [] \<Rightarrow> Some (Inr k)
      | head # rest \<Rightarrow>
          map_option (map_sum id (\<lambda>st. k\<lparr>heap := st, rcu := rest\<rparr>)) (kmem_rcu_free env (heap k) head))"

definition kmem_cache_shutdown :: "kmem_cache \<Rightarrow> int" where
  "kmem_cache_shutdown c = 0"

definition kmem_cache_shrink :: "kmem_cache \<Rightarrow> int" where
  "kmem_cache_shrink d = 0"

definition kmem_cache_boot :: "front_env \<Rightarrow> kmem_cache" where
  "kmem_cache_boot env =
     \<lparr>c_size = sizeof_kmem_cache env, c_align = word_of_int (ARCH_KMALLOC_MINALIGN env),
      c_flags = SLAB_PANIC env, c_ctor = None\<rparr>"

definition kmem_cache_init :: "front_env \<Rightarrow> kmem \<Rightarrow> kmem" where
  "kmem_cache_init env k = k\<lparr>kmem_cache_root := Some (kmem_cache_boot env), slab_state := SLAB_UP\<rparr>"

definition kmem_cache_init_late :: "kmem \<Rightarrow> kmem" where
  "kmem_cache_init_late k = k\<lparr>slab_state := SLAB_FULL\<rparr>"

subsection \<open>Objects of kmalloc\<close>

text \<open>What the front end relies on: the header fits in front of an aligned object.\<close>

definition front_ok :: "front_env \<Rightarrow> bool" where
  "front_ok env \<longleftrightarrow>
     good_align (kmalloc_align env) \<and> 4 \<le> kmalloc_align env \<and> kmalloc_align env < PAGE_SIZE"

definition kmalloc_object :: "front_env \<Rightarrow> objects \<Rightarrow> slob \<Rightarrow> int \<Rightarrow> int \<Rightarrow> bool" where
  "kmalloc_object env live st p sz \<longleftrightarrow>
     0 < sz \<and> sz + kmalloc_align env < PAGE_SIZE \<and>
     (p - kmalloc_align env, sz + kmalloc_align env) \<in> live \<and>
     load32 (mem st) (p - kmalloc_align env) = word_of_int sz"

lemma kmalloc_small_mod:
  assumes "front_ok env"
  shows "(PAGE_SIZE - kmalloc_align env) mod 2 ^ 32 = PAGE_SIZE - kmalloc_align env"
  using assms by (simp add: front_ok_def PAGE_SIZE_def)

lemma kmalloc_object_page:
  assumes inv: "slob_inv live st" and ok: "front_ok env" and obj: "kmalloc_object env live st p sz"
  shows "page_base p = page_base (p - kmalloc_align env)"
    "PageSlab (page_of st (page_base p))" "\<not> ZERO_OR_NULL_PTR p"
proof -
  let ?m = "p - kmalloc_align env" and ?n = "sz + kmalloc_align env"
  have live: "(?m, ?n) \<in> live" and pos: "0 < sz" using obj by (auto simp: kmalloc_object_def)
  have slab: "PageSlab (page_of st (page_base ?m))"
    and fit: "?m + 2 * SLOB_UNITS ?n \<le> page_base ?m + PAGE_SIZE"
    using inv live by (auto simp: slob_inv_def live_inv_def)
  have "p < page_base ?m + PAGE_SIZE" using SLOB_UNITS_bytes(1) [of ?n] fit pos by simp
  moreover have le: "page_base ?m \<le> p"
    using page_base_le [of ?m] ok unfolding front_ok_def by linarith
  ultimately show base: "page_base p = page_base ?m"
    by (intro page_base_eq) (auto simp: page_base_dvd)
  show "PageSlab (page_of st (page_base p))" using slab base by simp
  have "page_inv live st (page_base ?m)" using inv slab by (auto simp: slob_inv_def)
  then have "PAGE_SIZE \<le> page_base ?m" by (auto simp: page_inv_def page_state_def)
  then show "\<not> ZERO_OR_NULL_PTR p"
    using le by (simp add: ZERO_OR_NULL_PTR_def ZERO_SIZE_PTR_def PAGE_SIZE_def)
qed

lemma sint_u32: "- (2 ^ 31) \<le> x \<Longrightarrow> x < 2 ^ 31 \<Longrightarrow> sint (word_of_int x :: u32) = x"
  by (simp add: int_word_sint)

lemma uint_u32: "0 \<le> x \<Longrightarrow> x < 2 ^ 32 \<Longrightarrow> uint (word_of_int x :: u32) = x"
  by (simp add: uint_word_of_int)

lemma kmalloc_header_word:
  assumes "0 < sz" "sz + a < PAGE_SIZE" "0 \<le> a"
  shows "sint (word_of_int sz + word_of_int a :: u32) = sz + a"
    "uint ((word_of_int sz + 1 :: u32) div 2 * 2) = 2 * SLOB_UNITS sz"
proof -
  have "sint (word_of_int (sz + a) :: u32) = sz + a"
    using assms by (intro sint_u32) (simp_all add: PAGE_SIZE_def)
  then show "sint (word_of_int sz + word_of_int a :: u32) = sz + a" by simp
  have "uint (word_of_int (sz + 1) :: u32) = sz + 1"
    using assms by (intro uint_u32) (simp_all add: PAGE_SIZE_def)
  then have "uint (word_of_int sz + 1 :: u32) = sz + 1" by simp
  then have "uint ((word_of_int sz + 1 :: u32) div 2 * 2) = (sz + 1) div 2 * 2 mod 2 ^ 32"
    by (simp add: uint_word_ariths uint_div_distrib)
  also have "\<dots> = (sz + 1) div 2 * 2"
    using assms by (intro mod_pos_pos_trivial) (simp_all add: PAGE_SIZE_def)
  finally show "uint ((word_of_int sz + 1 :: u32) div 2 * 2) = 2 * SLOB_UNITS sz"
    by (simp add: SLOB_UNITS_eq)
qed

lemma virt_to_page_base: "virt_to_page b = page_base b"
  by (simp add: virt_to_page_def addr_simps)

lemma kfree_object:
  assumes inv: "slob_inv live st" and ok: "front_ok env" and obj: "kmalloc_object env live st p sz"
  shows "kfree env st p = slob_free st (p - kmalloc_align env) (sz + kmalloc_align env)"
proof -
  have "sint (word_of_int sz + word_of_int (kmalloc_align env) :: u32) = sz + kmalloc_align env"
    using obj ok by (intro kmalloc_header_word(1)) (simp_all add: kmalloc_object_def front_ok_def)
  moreover have "load32 (mem st) (p - kmalloc_align env) = word_of_int sz"
    using obj by (simp add: kmalloc_object_def)
  ultimately show ?thesis
    using kmalloc_object_page [OF assms] unfolding kfree_def Let_def virt_to_page_base by simp
qed

lemma ksize_object:
  assumes inv: "slob_inv live st" and ok: "front_ok env" and obj: "kmalloc_object env live st p sz"
  shows "ksize env st p = Inr (2 * SLOB_UNITS sz)"
proof -
  have "uint ((word_of_int sz + 1 :: u32) div 2 * 2) = 2 * SLOB_UNITS sz"
    using obj ok by (intro kmalloc_header_word(2) [of sz "kmalloc_align env"])
      (simp_all add: kmalloc_object_def front_ok_def)
  moreover have "load32 (mem st) (p - kmalloc_align env) = word_of_int sz"
    using obj by (simp add: kmalloc_object_def)
  moreover have "p \<noteq> 0" "p \<noteq> ZERO_SIZE_PTR"
    using kmalloc_object_page(3) [OF assms] by (auto simp: ZERO_OR_NULL_PTR_def ZERO_SIZE_PTR_def)
  ultimately show ?thesis
    using kmalloc_object_page(2) [OF assms] unfolding ksize_def Let_def virt_to_page_base by simp
qed

text \<open>The bytes of an object of \<^verbatim>\<open>kmalloc\<close> that belong to the caller.\<close>

definition kmalloc_post ::
  "front_env \<Rightarrow> objects \<Rightarrow> slob \<Rightarrow> int \<Rightarrow> slob \<Rightarrow> int \<Rightarrow> bool" where
  "kmalloc_post env live st sz st' p \<longleftrightarrow>
     (let x = (p - kmalloc_align env, sz + kmalloc_align env)
      in x \<notin> live \<and> slob_inv (insert x live) st' \<and> kmalloc_object env (insert x live) st' p sz \<and>
         kmalloc_align env dvd p \<and> {p ..< p + sz} \<inter> live_bytes live = {} \<and>
         (\<forall>y\<in>live_bytes live. mem st' y = mem st y))"

lemma kmalloc_store:
  assumes post: "alloc_post live st (sz + kmalloc_align env) (kmalloc_align env) st1 m"
    and ok: "front_ok env" and sz: "0 < sz" "sz + kmalloc_align env < PAGE_SIZE"
  shows "kmalloc_post env live st sz (st1\<lparr>mem := store32 (mem st1) m (word_of_int sz)\<rparr>)
           (m + kmalloc_align env)"
proof -
  let ?a = "kmalloc_align env" and ?n = "sz + kmalloc_align env"
  let ?live = "insert (m, ?n) live" and ?st = "st1\<lparr>mem := store32 (mem st1) m (word_of_int sz)\<rparr>"
  have a: "4 \<le> ?a" "?a \<noteq> 0" using ok by (auto simp: front_ok_def)
  have inv1: "slob_inv ?live st1" and new: "live_range (m, ?n) \<inter> live_bytes live = {}"
    and dvd: "?a dvd m" and keep: "\<And>y. y \<in> live_bytes live \<Longrightarrow> mem st1 y = mem st y"
    using post a(2) by (auto simp: alloc_post_def)
  have hdr: "{m ..< m + 4} \<subseteq> live_range (m, ?n)" and data: "{m + ?a ..< m + ?a + sz} \<subseteq> live_range (m, ?n)"
    using a sz object_in_range [of m ?n] by auto
  have "slob_inv ?live ?st"
  proof (rule slob_inv_write [OF inv1])
    fix x assume "x \<notin> live_bytes ?live"
    then have "x \<notin> {m ..< m + 4}" using hdr by (auto simp: live_bytes_def)
    then show "store32 (mem st1) m (word_of_int sz) x = mem st1 x" by (auto intro: store32_other)
  qed
  moreover have "mem ?st y = mem st y" if "y \<in> live_bytes live" for y
  proof -
    have "y \<notin> {m ..< m + 4}" using that hdr new by blast
    then have "mem ?st y = mem st1 y" by (auto intro: store32_other)
    then show ?thesis using keep [OF that] by simp
  qed
  moreover have "(m, ?n) \<notin> live" using post sz a(1) by (auto dest: alloc_post_new(1))
  ultimately show ?thesis
    using dvd data new sz unfolding kmalloc_post_def Let_def kmalloc_object_def
    by (auto simp: mem_simps)
qed

lemma do_kmalloc_small:
  assumes inv: "slob_inv live st" and ok: "front_ok env" and fresh: "fresh_pages (kernel env) st"
    and sz: "0 < sz" "sz + kmalloc_align env < PAGE_SIZE"
  obtains (null) st' where "do_kmalloc_node env None st sz gfpf node = Some (Inr (st', None))"
      "slob_inv live st'" "mem st' = mem st"
    | (object) st' p where "do_kmalloc_node env None st sz gfpf node = Some (Inr (st', Some p))"
      "kmalloc_post env live st sz st' p"
proof -
  let ?a = "kmalloc_align env" and ?g = "gfpf AND gfp_allowed_mask env"
  have pre: "0 < sz + ?a" "sz + ?a \<le> PAGE_SIZE" "good_align ?a" "?a \<le> PAGE_SIZE"
    using ok sz by (auto simp: front_ok_def)
  have small: "sz < (PAGE_SIZE - ?a) mod 2 ^ 32" "sz \<noteq> 0"
    using sz unfolding kmalloc_small_mod [OF ok] by simp_all
  show thesis
  proof (cases rule: slob_alloc_cases [OF inv fresh pre, of ?g node, case_names none old new])
    case (none st')
    then show ?thesis
      using small free_update_mem [OF none(3)] by (intro null [of st']) (simp_all add: do_kmalloc_node_def)
  next
    case (old st1 m)
    then show ?thesis
      using small kmalloc_store [OF old(2) ok sz] by (intro object) (simp_all add: do_kmalloc_node_def)
  next
    case (new st1 m)
    then show ?thesis
      using small kmalloc_store [OF new(3) ok sz] by (intro object) (simp_all add: do_kmalloc_node_def)
  qed
qed

lemma kmalloc_object_keep:
  assumes "kmalloc_object env live st p sz" "front_ok env"
    "(p - kmalloc_align env, sz + kmalloc_align env) \<in> live'"
    "\<And>x. p - kmalloc_align env \<le> x \<Longrightarrow> x < p \<Longrightarrow> mem st' x = mem st x"
  shows "kmalloc_object env live' st' p sz"
proof -
  have "load32 (mem st') (p - kmalloc_align env) = load32 (mem st) (p - kmalloc_align env)"
    using assms(2,4) by (intro load32_cong) (simp add: front_ok_def)
  then show ?thesis using assms(1,3) by (simp add: kmalloc_object_def)
qed

subsection \<open>Deferred frees\<close>

text \<open>
  The documented behaviour of \<^verbatim>\<open>call_rcu\<close>: it writes only into the \<^verbatim>\<open>rcu_head\<close> it is
  given. \<open>rcu_footer\<close> is what a pending callback needs to find its object.
\<close>

definition rcu_writes_head :: "front_env \<Rightarrow> bool" where
  "rcu_writes_head env \<longleftrightarrow>
     0 \<le> sizeof_rcu_head env \<and>
     (\<forall>m h x. x < h \<or> h + sizeof_rcu_head env \<le> x \<longrightarrow> rcu_head_write env m h x = m x)"

definition rcu_footer :: "front_env \<Rightarrow> objects \<Rightarrow> slob \<Rightarrow> int \<Rightarrow> int \<Rightarrow> int \<Rightarrow> bool" where
  "rcu_footer env live st head b sz \<longleftrightarrow>
     (b, sz) \<in> live \<and> sz < PAGE_SIZE \<and> sizeof_slob_rcu env \<le> sz \<and>
     head = b + (sz - sizeof_slob_rcu env) \<and>
     load32 (mem st) (head + sizeof_rcu_head env) = word_of_int sz"

lemma kmem_cache_free_rcu:
  assumes inv: "slob_inv live (heap k)" and w: "rcu_writes_head env"
    and c: "c_flags c AND SLAB_DESTROY_BY_RCU env \<noteq> 0" "uint (c_size c) < PAGE_SIZE"
      "sizeof_slob_rcu env \<le> uint (c_size c)"
    and b: "(b, uint (c_size c)) \<in> live"
  obtains k' head where "kmem_cache_free env k c b = Some (Inr k')" "rcu k' = rcu k @ [head]"
    "slob_inv live (heap k')" "rcu_footer env live (heap k') head b (uint (c_size c))"
    "\<And>x. x < b \<or> b + uint (c_size c) \<le> x \<Longrightarrow> mem (heap k') x = mem (heap k) x"
proof -
  let ?n = "uint (c_size c)" and ?h = "b + (uint (c_size c) - sizeof_slob_rcu env)"
  let ?s = "sizeof_rcu_head env"
  define m1 where "m1 = store32 (mem (heap k)) (?h + ?s) (c_size c)"
  define m2 where "m2 = rcu_head_write env m1 ?h"
  have s: "0 \<le> ?s" "sizeof_slob_rcu env = ?s + 4"
    using w by (simp_all add: rcu_writes_head_def sizeof_slob_rcu_def)
  have m2: "m2 x = m1 x" if "x < ?h \<or> ?h + ?s \<le> x" for x
    using w that unfolding rcu_writes_head_def m2_def by blast
  have out: "m2 x = mem (heap k) x" if "x < b \<or> b + ?n \<le> x" for x
  proof -
    have "x < ?h + ?s \<or> ?h + ?s + 4 \<le> x" "x < ?h \<or> ?h + ?s \<le> x" using that s c(3) by auto
    then show ?thesis using m2 [of x] unfolding m1_def by (simp add: store32_other)
  qed
  have ftr: "load32 m2 (?h + ?s) = c_size c"
  proof -
    have "load32 m2 (?h + ?s) = load32 m1 (?h + ?s)" by (intro load32_cong m2) simp
    then show ?thesis by (simp add: m1_def mem_simps)
  qed
  let ?k = "k\<lparr>heap := (heap k)\<lparr>mem := m2\<rparr>, rcu := rcu k @ [?h]\<rparr>"
  have "kmem_cache_free env k c b = Some (Inr ?k)"
    using c(1) by (simp add: kmem_cache_free_def call_rcu_def Let_def m1_def m2_def)
  moreover have "slob_inv live (heap ?k)"
  proof -
    have "slob_inv live ((heap k)\<lparr>mem := m2\<rparr>)"
    proof (rule slob_inv_write [OF inv])
      fix x assume "x \<notin> live_bytes live"
      then have "\<not> (b \<le> x \<and> x < b + ?n)" using object_in_live [OF b] by blast
      then show "m2 x = mem (heap k) x" by (intro out) auto
    qed
    then show ?thesis by simp
  qed
  moreover have "rcu_footer env live (heap ?k) ?h b ?n"
    using b c(2,3) ftr unfolding rcu_footer_def by simp
  ultimately show thesis using out by (intro that [of ?k ?h]) simp_all
qed

lemma kmem_rcu_free_footer:
  assumes "rcu_footer env live st head b sz" "0 \<le> sizeof_rcu_head env"
  shows "kmem_rcu_free env st head = slob_free st b sz"
proof -
  have b: "0 \<le> sz" "sz < PAGE_SIZE" "head = b + (sz - sizeof_slob_rcu env)"
    "load32 (mem st) (head + sizeof_rcu_head env) = word_of_int sz"
    using assms by (auto simp: rcu_footer_def sizeof_slob_rcu_def)
  have u: "uint (word_of_int sz :: u32) = sz" and i: "sint (word_of_int sz :: u32) = sz"
    using b(1,2) by (auto intro!: uint_u32 sint_u32 simp: PAGE_SIZE_def)
  show ?thesis
    using b(2,3) unfolding kmem_rcu_free_def Let_def do_kmem_cache_free_def b(4) u i by simp
qed

end
