(* ===== verification/Slob_Props.thy ===== *)
theory Slob_Props
  imports Slob_Front
begin

text \<open>
  The properties of the SLOB allocator and of its front end, each with a witness on
  a concrete heap: one slab page at address 4096 with an object of eight bytes at its
  start and the rest of the page free, and a page allocator whose next page is at 8192.
\<close>

subsection \<open>A concrete heap\<close>

definition demo_env :: kernel_env where
  "demo_env =
     \<lparr>CONFIG_NUMA = False, NUMA_NO_NODE = - 1, page_to_nid = (\<lambda>_. 0), GFP_ZERO = 32768,
      alloc_pages = (\<lambda>_ _. Some 8192), alloc_pages_exact_node = (\<lambda>_ _ _. None)\<rparr>"

definition demo_slob :: slob where
  "demo_slob =
     \<lparr>mem = set_slob (\<lambda>_. 0) 4104 (word_of_int 2044) 8192,
      page_of = (\<lambda>a. if a = 4096
                      then \<lparr>sp_units = 2044, sp_freelist = 4104, PageSlobFree = True, PageSlab = True\<rparr>
                      else \<lparr>sp_units = 0, sp_freelist = 0, PageSlobFree = False, PageSlab = False\<rparr>),
      partial = (\<lambda>l. if l = free_slob_small then [4096] else []),
      pcount = 1, free = 0, used_m = 8, claimed_m = 4096, reclaimed_slab = None, released = []\<rparr>"

definition demo_front :: front_env where
  "demo_front =
     \<lparr>kernel = demo_env, ARCH_KMALLOC_MINALIGN = 8, ARCH_SLAB_MINALIGN = 4, gfp_allowed_mask = - 1,
      GFP_COMP = 16384, get_order = (\<lambda>_. 0), compound_order = (\<lambda>_. 0), SLAB_DESTROY_BY_RCU = 524288,
      SLAB_PANIC = 262144, sizeof_rcu_head = 8, sizeof_kmem_cache = 64, rcu_head_write = (\<lambda>m h. m(h := 1))\<rparr>"

definition demo_cache :: kmem_cache where
  "demo_cache = \<lparr>c_size = 8 + 12, c_align = 0, c_flags = 524288, c_ctor = None\<rparr>"

definition demo_full :: slob where
  "demo_full =
     \<lparr>mem = (\<lambda>_. 0),
      page_of = (\<lambda>a. \<lparr>sp_units = 0, sp_freelist = 0, PageSlobFree = False, PageSlab = a = 4096\<rparr>),
      partial = (\<lambda>_. []), pcount = 1, free = 0, used_m = 4096, claimed_m = 4096,
      reclaimed_slab = None, released = []\<rparr>"

definition demo_kmem :: kmem where
  "demo_kmem = \<lparr>heap = demo_full, rcu = [], kmem_cache_root = None, slab_state = SLAB_UP\<rparr>"

lemma demo_base: "page_base 4096 = 4096" "page_base 4104 = 4096"
  by (rule page_base_eq; simp add: PAGE_SIZE_def)+

lemma demo_chain: "chain (mem demo_slob) 4104 [(4104, 2044)] 8192"
proof -
  have "block_at (mem demo_slob) 4104 2044 8192"
    unfolding demo_slob_def slob.select_convs
    by (rule block_at_set_slob) (simp_all add: demo_base PAGE_SIZE_def)
  then show ?thesis by (simp add: block_at_next)
qed

lemma demo_repr: "page_repr demo_slob 4096 [(4104, 2044)]"
  using demo_chain
  by (simp add: page_repr_def demo_slob_def PAGE_SIZE_def block_units_def del: chain.simps)

lemma demo_inv: "slob_inv {(4096, 8)} demo_slob"
proof -
  have "page_state demo_slob 4096 [(4104, 2044)]"
    using demo_repr by (simp add: page_state_def demo_slob_def PAGE_SIZE_def)
  then have "page_inv {(4096, 8)} demo_slob 4096"
    unfolding page_inv_def
    by (intro exI [of _ "[(4104, 2044)]"])
      (auto simp: live_bytes_def live_range_def SLOB_UNITS_eq PAGE_SIZE_def block_bytes_def)
  then show ?thesis
    unfolding slob_inv_def lists_inv_def live_inv_def
    by (auto simp: demo_slob_def demo_base PAGE_SIZE_def SLOB_UNITS_eq split: if_splits)
qed

lemma demo_fresh: "fresh_pages demo_env demo_slob"
  by (simp add: fresh_pages_def slob_new_pages_def demo_env_def demo_slob_def PAGE_SIZE_def)

subsection \<open>Allocation and release\<close>

text \<open>
  C1 (\<^verbatim>\<open>slob_alloc\<close>): from a heap that satisfies the invariant, with a page allocator
  that hands out only aligned pages not in use, and with the uninitialised \<^verbatim>\<open>sp_alt\<close> holding
  NULL or a page with free blocks, a request of 1 to 4096 bytes always
  returns and never reaches \<^verbatim>\<open>BUG_ON\<close>. NULL is returned only when the page allocator
  fails, and then memory is untouched. Otherwise the object overlaps no live object,
  has the requested alignment, is zeroed under \<^verbatim>\<open>__GFP_ZERO\<close>, all bytes of the live
  objects are unchanged, and the new heap satisfies the invariant with the object live.
\<close>

theorem slob_alloc_correct:
  assumes "slob_inv live st" "fresh_pages env st" "0 < sz" "sz \<le> PAGE_SIZE"
    "good_align align" "align \<le> PAGE_SIZE" "pred_option (slob_page_free st) sp_alt"
  shows "\<exists>st' r. slob_alloc env sp_alt st sz gfpf align node = Some (Inr (st', r)) \<and>
    (case r of
       None \<Rightarrow> slob_new_pages env (gfpf AND NOT (GFP_ZERO env)) 0 node = None \<and>
         slob_inv live st' \<and> mem st' = mem st
     | Some b \<Rightarrow> slob_inv (insert (b, sz) live) st' \<and> (b, sz) \<notin> live \<and>
         {b ..< b + sz} \<inter> live_bytes live = {} \<and> (align \<noteq> 0 \<longrightarrow> align dvd b) \<and>
         (\<forall>x\<in>live_bytes live. mem st' x = mem st x) \<and>
         (gfpf AND GFP_ZERO env \<noteq> 0 \<longrightarrow> (\<forall>x\<in>{b ..< b + sz}. mem st' x = 0)))"
proof -
  have post: "slob_inv (insert (b, sz) live) st' \<and> (b, sz) \<notin> live \<and>
      {b ..< b + sz} \<inter> live_bytes live = {} \<and> (align \<noteq> 0 \<longrightarrow> align dvd b) \<and>
      (\<forall>x\<in>live_bytes live. mem st' x = mem st x)" if "alloc_post live st sz align st' b" for st' b
    using that alloc_post_new [OF that assms(3)] object_in_range [of b sz]
    by (auto simp: alloc_post_def)
  show ?thesis
  proof (cases rule: slob_alloc_alt_cases [OF assms, of gfpf node, case_names null old new])
    case (null st')
    then show ?thesis using free_update_mem [OF null(3)] by (intro exI [of _ st'] exI [of _ None]) simp
  next
    case (old st' b)
    then show ?thesis using post [OF old(2)] by (intro exI [of _ st'] exI [of _ "Some b"]) simp
  next
    case (new st' b)
    then show ?thesis using post [OF new(3)] by (intro exI [of _ st'] exI [of _ "Some b"]) simp
  qed
qed

theorem slob_alloc_correct_witness:
  "\<exists>st' r. slob_alloc demo_env (Some 4096) demo_slob 100 32768 8 0 = Some (Inr (st', r)) \<and>
    (case r of
       None \<Rightarrow> slob_new_pages demo_env (32768 AND NOT (GFP_ZERO demo_env)) 0 0 = None \<and>
         slob_inv {(4096, 8)} st' \<and> mem st' = mem demo_slob
     | Some b \<Rightarrow> slob_inv {(b, 100), (4096, 8)} st' \<and> (b, 100 :: int) \<notin> {(4096, 8)} \<and>
         {b ..< b + 100} \<inter> live_bytes {(4096, 8)} = {} \<and> ((8 :: int) \<noteq> 0 \<longrightarrow> 8 dvd b) \<and>
         (\<forall>x\<in>live_bytes {(4096, 8)}. mem st' x = mem demo_slob x) \<and>
         (32768 AND GFP_ZERO demo_env \<noteq> 0 \<longrightarrow> (\<forall>x\<in>{b ..< b + 100}. mem st' x = 0)))"
proof (rule slob_alloc_correct [OF demo_inv demo_fresh])
  show "good_align 8" unfolding good_align_def by (rule disjI2, rule exI [of _ 3]) simp
qed (simp_all add: PAGE_SIZE_def slob_page_free_def demo_slob_def)

text \<open>Taking the first block of the free list changes no page flag \<^verbatim>\<open>PageSlab\<close> and no counter.\<close>

lemma page_take_slab:
  "PageSlab (page_of (fst (slob_page_take st sp u None b n b 0)) q) = PageSlab (page_of st q)"
  "pcount (fst (slob_page_take st sp u None b n b 0)) = pcount st"
  "snd (slob_page_take st sp u None b n b 0) = Some b"
  by (simp_all add: slob_page_take_def slob_unlink_def slob_set_prev_def clear_slob_page_free_def put_page_def Let_def)

lemma page_alloc_head:
  assumes "SLOB_UNITS sz \<le> sint (slob_units (mem st) (sp_freelist (page_of st q)))"
  obtains st' where "slob_page_alloc st q sz 0 = Some (st', Some (sp_freelist (page_of st q)))"
    "\<And>p. PageSlab (page_of st' p) = PageSlab (page_of st p)" "pcount st' = pcount st"
proof -
  let ?b = "sp_freelist (page_of st q)"
  let ?r = "slob_page_take st q (SLOB_UNITS sz) None ?b (slob_units (mem st) ?b) ?b 0"
  have "slob_page_alloc st q sz 0 = Some (fst ?r, Some ?b)"
    using assms page_take_slab(3) [of st q "SLOB_UNITS sz" ?b "slob_units (mem st) ?b"]
    by (subst prod.collapse [symmetric]) (simp add: slob_page_alloc_def slob_page_scan.simps Let_def prod_eq_iff)
  then show thesis by (rule that) (rule page_take_slab)+
qed

text \<open>
  C21 (the uninitialised \<^verbatim>\<open>sp_alt\<close>): if the variable happens to hold a page that is not one of the allocator, with a
  free-list pointer into that page to what reads as a large enough block, and no page of the list has fewer
  free units, then \<^verbatim>\<open>slob_alloc\<close> returns that pointer: an object in a page that the allocator does not own. No page is
  counted, and the heap with the object live does not satisfy the invariant.
\<close>

theorem slob_alloc_stray_page:
  assumes "slob_inv live st" "\<not> PageSlab (page_of st q)"
    "virt_to_page (sp_freelist (page_of st q)) = q"
    "SLOB_UNITS sz \<le> sint (slob_units (mem st) (sp_freelist (page_of st q)))"
    "\<forall>sp\<in>set (partial st (slob_list_of sz)). sp_units (page_of st q) \<le> sp_units (page_of st sp)"
  shows "\<exists>st'. slob_alloc env (Some q) st sz gfpf 0 node = Some (Inr (st', Some (sp_freelist (page_of st q)))) \<and>
    \<not> PageSlab (page_of st' q) \<and> pcount st' = pcount st \<and>
    \<not> slob_inv (insert (sp_freelist (page_of st q), sz) live) st'"
proof -
  let ?st0 = "st\<lparr>free := 0\<rparr>" and ?b = "sp_freelist (page_of st q)"
  have best: "slob_best_page env ?st0 sz node (partial ?st0 (slob_list_of sz)) (Some q) = Some q"
    using assms(5) by (auto simp: best_page_Some)
  obtain st1 where st1: "slob_page_alloc ?st0 q sz 0 = Some (st1, Some ?b)"
      "\<And>p. PageSlab (page_of st1 p) = PageSlab (page_of st p)" "pcount st1 = pcount st"
    using page_alloc_head [of sz ?st0 q] assms(4) by auto
  let ?st' = "slob_alloc_finish env (slob_count_free st1) sz gfpf ?b"
  have run: "slob_alloc env (Some q) st sz gfpf 0 node = Some (Inr (?st', Some ?b))"
    using best st1(1) by (simp add: slob_alloc_def Let_def)
  have slab: "\<not> PageSlab (page_of ?st' q)" "pcount ?st' = pcount st"
    using st1(2,3) assms(2) by (simp_all add: slob_alloc_finish_def slob_count_free_def Let_def)
  have "page_base ?b = q" using assms(3) by (simp add: virt_to_page_def addr_simps)
  then have "\<not> slob_inv (insert (?b, sz) live) ?st'"
    using slab(1) by (auto simp: slob_inv_def live_inv_def)
  with run slab show ?thesis by blast
qed

theorem slob_alloc_stray_page_witness:
  "\<exists>m pg st'. slob_alloc demo_env (Some 12288) (slob_boot m pg) 100 0 0 0 = Some (Inr (st', Some 12288)) \<and>
    \<not> slob_inv {(12288, 100)} st'"
proof -
  let ?m = "set_slob (\<lambda>_. 0) 12288 (word_of_int 2048) 16384"
  let ?st = "slob_boot ?m (\<lambda>_. \<lparr>sp_units = 2048, sp_freelist = 12288, PageSlobFree = False, PageSlab = False\<rparr>)"
  have base: "page_base 12288 = 12288" by (rule page_base_eq) (simp_all add: PAGE_SIZE_def)
  have "block_at ?m 12288 2048 16384" by (rule block_at_set_slob) (simp_all add: base PAGE_SIZE_def)
  then have "slob_units ?m 12288 = word_of_int 2048" by (rule slob_units_word)
  then have "\<exists>st'. slob_alloc demo_env (Some 12288) ?st 100 0 0 0 = Some (Inr (st', Some (sp_freelist (page_of ?st 12288)))) \<and>
      \<not> PageSlab (page_of st' 12288) \<and> pcount st' = pcount ?st \<and> \<not> slob_inv {(sp_freelist (page_of ?st 12288), 100)} st'"
    by (intro slob_alloc_stray_page slob_boot_inv)
      (simp_all add: slob_boot_def SLOB_UNITS_eq virt_to_page_def addr_simps base)
  moreover have "sp_freelist (page_of ?st 12288) = 12288" by (simp add: slob_boot_def)
  ultimately show ?thesis by metis
qed

text \<open>
  C2 (\<^verbatim>\<open>slob_free\<close>): freeing a live object always returns, never reaches \<^verbatim>\<open>BUG_ON\<close>, keeps
  the invariant with the object no longer live and every byte of the other objects
  unchanged. The page goes back to the page allocator exactly when no other object
  lives on it.
\<close>

theorem slob_free_safe:
  assumes "slob_inv live st" "(b, sz) \<in> live"
  shows "\<exists>st'. slob_free st b sz = Some (Inr st') \<and> slob_inv (live - {(b, sz)}) st' \<and>
    (\<forall>x\<in>live_bytes (live - {(b, sz)}). mem st' x = mem st x) \<and>
    (\<forall>q. PageSlab (page_of st' q) \<longleftrightarrow>
       PageSlab (page_of st q) \<and> \<not> (last_on_page live b sz \<and> q = page_base b)) \<and>
    released st' = (if last_on_page live b sz then [(b, 0)] else []) @ released st"
  using slob_free_correct [OF assms] unfolding free_post_def by blast

theorem slob_free_safe_witness:
  "\<exists>st'. slob_free demo_slob 4096 8 = Some (Inr st') \<and> slob_inv ({(4096, 8)} - {(4096, 8)}) st' \<and>
    (\<forall>x\<in>live_bytes ({(4096, 8)} - {(4096, 8)}). mem st' x = mem demo_slob x) \<and>
    (\<forall>q. PageSlab (page_of st' q) \<longleftrightarrow>
       PageSlab (page_of demo_slob q) \<and> \<not> (last_on_page {(4096, 8)} 4096 8 \<and> q = page_base 4096)) \<and>
    released st' = (if last_on_page {(4096, 8)} 4096 8 then [(4096, 0)] else []) @ released demo_slob"
  by (rule slob_free_safe [OF demo_inv]) simp

text \<open>
  C3 (any use of the allocator): after any sequence of allocations, releases of live
  objects and writes of owners into their objects, starting from the boot state, the
  live objects are pairwise disjoint, every admissible allocation returns, and every
  live object can be freed.
\<close>

theorem slob_run_safe:
  assumes "slob_run m pg live st"
  shows "(\<forall>(b, n)\<in>live. \<forall>(c, k)\<in>live. (b, n) \<noteq> (c, k) \<longrightarrow> {b ..< b + n} \<inter> {c ..< c + k} = {}) \<and>
    (\<forall>env gfpf align node sz. slob_req_ok (env, gfpf, align, node) st sz \<longrightarrow>
       (\<exists>st' r. slob_alloc env None st sz gfpf align node = Some (Inr (st', r)))) \<and>
    (\<forall>(b, n)\<in>live. \<exists>st'. slob_free st b n = Some (Inr st'))"
proof (intro conjI)
  note run = assms slob_boot_inv
  show "\<forall>(b, n)\<in>live. \<forall>(c, k)\<in>live. (b, n) \<noteq> (c, k) \<longrightarrow> {b ..< b + n} \<inter> {c ..< c + k} = {}"
    using slob.run_disjoint [OF run] by blast
  show "\<forall>env gfpf align node sz. slob_req_ok (env, gfpf, align, node) st sz \<longrightarrow>
       (\<exists>st' r. slob_alloc env None st sz gfpf align node = Some (Inr (st', r)))"
  proof (intro allI impI)
    fix env gfpf align node sz assume "slob_req_ok (env, gfpf, align, node) st sz"
    then obtain res where "slob_alloc_op (env, gfpf, align, node) st sz = Some res"
      using slob.run_progress(1) [OF run] by blast
    then show "\<exists>st' r. slob_alloc env None st sz gfpf align node = Some (Inr (st', r))"
      by (cases res) (auto split: option.splits sum.splits)
  qed
  show "\<forall>(b, n)\<in>live. \<exists>st'. slob_free st b n = Some (Inr st')"
    using slob_free_correct [OF slob_run_inv [OF assms]] by blast
qed

lemma demo_run:
  obtains st b where "slob_run (\<lambda>_. 0) (page_of demo_slob) {(b, 8)} st"
proof -
  let ?boot = "slob_boot (\<lambda>_. 0) (page_of demo_slob)" and ?r = "(demo_env, 0, 0, 0)"
  have ok: "slob_req_ok ?r ?boot 8"
    by (simp add: good_align_def fresh_pages_def slob_new_pages_def demo_env_def slob_boot_def PAGE_SIZE_def)
  have pre: "fresh_pages demo_env ?boot" "(0 :: int) < 8" "8 \<le> PAGE_SIZE" "good_align 0" "0 \<le> PAGE_SIZE"
    using ok by auto
  have page: "slob_new_pages demo_env fl 0 0 = Some 8192" for fl
    by (simp add: slob_new_pages_def demo_env_def)
  obtain st b where "slob_alloc demo_env None ?boot 8 0 0 0 = Some (Inr (st, Some b))"
    using page by (cases rule: slob_alloc_cases [OF slob_boot_inv pre, of 0 0]) auto
  then have op: "slob_alloc_op ?r ?boot 8 = Some (st, Some b)" by simp
  have "slob_run (\<lambda>_. 0) (page_of demo_slob) {} ?boot" by (rule heap_run.boot)
  from heap_run.object [of slob_alloc_op slob_free_op slob_poke slob_req_ok, OF this ok op] show thesis
    by (rule that)
qed

theorem slob_run_safe_witness:
  "\<exists>st b. slob_run (\<lambda>_. 0) (page_of demo_slob) {(b, 8)} st \<and>
     (\<exists>st'. slob_free st b 8 = Some (Inr st'))"
proof -
  obtain st b where run: "slob_run (\<lambda>_. 0) (page_of demo_slob) {(b, 8)} st" by (rule demo_run)
  have "\<exists>st'. slob_free st b 8 = Some (Inr st')" using slob_run_safe [OF run] by auto
  with run show ?thesis by blast
qed

text \<open>
  The counters: after any such sequence \<^verbatim>\<open>used_m\<close> is the sum of the sizes of the
  live objects and \<^verbatim>\<open>pcount\<close> the number of slab pages, modulo the width of the
  counters. \<^verbatim>\<open>claimed_m\<close>, and so the system call \<^verbatim>\<open>sys_slob_used\<close>, counts the bytes of
  all pages ever taken: pages that were given back are never subtracted.
\<close>

theorem slob_run_counters:
  assumes "slob_run m pg live st"
  shows "finite live \<and> used_m st = word_of_int (\<Sum>x\<in>live. snd x) \<and>
    pcount st = of_nat (card {q. PageSlab (page_of st q)}) \<and>
    sys_slob_used st = sint (word_of_int PAGE_SIZE * (pcount st + of_nat (length (released st))) :: u32)"
  using slob_run_accounts [OF assms]
  by (simp add: slob_accounts_def slab_pages_def sys_slob_used_def)

theorem slob_run_counters_witness:
  "\<exists>st b. slob_run (\<lambda>_. 0) (page_of demo_slob) {(b, 8)} st \<and> used_m st = 8"
proof -
  obtain st b where run: "slob_run (\<lambda>_. 0) (page_of demo_slob) {(b, 8)} st" by (rule demo_run)
  have "used_m st = 8" using slob_run_counters [OF run] by simp
  with run show ?thesis by blast
qed

subsection \<open>The search for a block\<close>

text \<open>
  C4 (refinement of \<^verbatim>\<open>slob_page_alloc\<close>): on a page whose memory encodes the free blocks
  \<open>bs\<close>, the pointer-chasing scan returns, and does what first fit with alignment does
  on the list: it finds the same address, leaves memory that encodes the remaining
  blocks, changes no byte outside the free blocks, and takes the page off its list
  exactly when nothing is left.
\<close>

theorem slob_page_alloc_first_fit:
  assumes "page_repr st sp bs" "bs \<noteq> []" "0 < sz" "good_align align"
  shows "case block_alloc (SLOB_UNITS sz) align bs of
      None \<Rightarrow> slob_page_alloc st sp sz align = Some (st, None)
    | Some (r, bs') \<Rightarrow> \<exists>st'. slob_page_alloc st sp sz align = Some (st', Some r) \<and>
        page_repr st' sp bs' \<and> (\<forall>x. x \<notin> block_bytes bs \<longrightarrow> mem st' x = mem st x) \<and>
        partial st' = (if bs' = [] then (\<lambda>l. remove1 sp (partial st l)) else partial st)"
proof (cases "block_alloc (SLOB_UNITS sz) align bs")
  case None
  then show ?thesis
    using page_alloc_refines [OF assms(1,2) SLOB_UNITS_pos [OF assms(3)] assms(4)] by (simp add: scan_result_def)
next
  case (Some p)
  then obtain r bs' where p: "block_alloc (SLOB_UNITS sz) align bs = Some (r, bs')" by (cases p) simp
  have sp: "PAGE_SIZE dvd sp" and wf: "wf_blocks 2 sp (sp + PAGE_SIZE) bs"
    using assms(1) by (auto simp: page_repr_def)
  have wf': "wf_blocks 2 sp (sp + PAGE_SIZE) bs'"
    by (rule block_alloc_wf [OF SLOB_UNITS_pos [OF assms(3)] assms(4) wf p])
  obtain m f where m: "slob_page_alloc st sp sz align = Some (page_after st sp m f bs', Some r)"
      "chain m f bs' (sp + PAGE_SIZE)" "\<forall>x. x \<notin> block_bytes bs \<longrightarrow> m x = mem st x"
    using page_alloc_refines [OF assms(1,2) SLOB_UNITS_pos [OF assms(3)] assms(4)] p
    by (auto simp: scan_result_def)
  have "partial (page_after st sp m f bs') =
      (if bs' = [] then (\<lambda>l. remove1 sp (partial st l)) else partial st)"
    using block_units_zero [OF wf'] by (auto simp: page_after_def Let_def put_page_def clear_slob_page_free_def list_del_def)
  then show ?thesis using p m sp wf' by (simp add: page_repr_def)
qed

theorem slob_page_alloc_first_fit_witness:
  "\<exists>st'. slob_page_alloc demo_slob 4096 100 8 = Some (st', Some 4104) \<and>
     page_repr st' 4096 [(4204, 1994)] \<and>
     (\<forall>x. x \<notin> block_bytes [(4104, 2044)] \<longrightarrow> mem st' x = mem demo_slob x) \<and>
     partial st' = partial demo_slob"
proof -
  have "good_align 8" unfolding good_align_def by (rule disjI2, rule exI [of _ 3]) simp
  moreover have "block_alloc (SLOB_UNITS 100) 8 [(4104, 2044)] = Some (4104, [(4204, 1994)])"
    by (simp add: SLOB_UNITS_eq align_delta_def ALIGN_def taken_def)
  ultimately show ?thesis using slob_page_alloc_first_fit [OF demo_repr, of 100 8] by simp
qed

text \<open>
  C5 (refinement of the tail of \<^verbatim>\<open>slob_free\<close>): putting a block back into a page whose
  memory encodes \<open>bs\<close> returns, and does what sorted insertion with coalescing of both
  neighbours does on the list. The result is again in address order with no two
  adjacent blocks, covers exactly the old free bytes and the new block, and no other
  byte of memory changes.
\<close>

theorem slob_reinsert_coalesces:
  assumes "page_repr st sp bs" "bs \<noteq> []" "freeable sp (sp + PAGE_SIZE) b u bs"
  shows "\<exists>st'. slob_reinsert st sp b (word_of_int u) = Some st' \<and>
    page_repr st' sp (block_insert b u bs) \<and>
    block_bytes (block_insert b u bs) = {b ..< b + 2 * u} \<union> block_bytes bs \<and>
    (\<forall>x. x \<notin> {b ..< b + 2 * u} \<union> block_bytes bs \<longrightarrow> mem st' x = mem st x)"
proof -
  obtain m f where m: "slob_reinsert st sp b (word_of_int u) =
       Some (put_page sp (\<lambda>p. p\<lparr>sp_units := sp_units p + u, sp_freelist := f\<rparr>) (st\<lparr>mem := m\<rparr>))"
    "chain m f (block_insert b u bs) (sp + PAGE_SIZE)"
    "\<And>x. x \<notin> {b ..< b + 2 * u} \<union> block_bytes bs \<Longrightarrow> m x = mem st x"
    by (rule reinsert_refines [OF assms]) (rule that)
  have "PAGE_SIZE dvd sp" and wf: "wf_blocks 2 sp (sp + PAGE_SIZE) bs"
    and "sp_units (page_of st sp) = block_units bs"
    using assms(1) by (auto simp: page_repr_def)
  moreover have "wf_blocks 2 sp (sp + PAGE_SIZE) (block_insert b u bs)"
    by (rule block_insert_wf [OF assms(3) wf])
  ultimately show ?thesis
    using m block_insert_bytes [OF assms(3) wf]
    by (simp add: page_repr_def put_page_def block_insert_units add.commute)
qed

theorem slob_reinsert_coalesces_witness:
  "\<exists>st'. slob_reinsert demo_slob 4096 4096 (word_of_int 4) = Some st' \<and>
    page_repr st' 4096 [(4096, 2048)] \<and>
    (\<forall>x. x \<notin> {4096 ..< 4096 + 2 * 4} \<union> block_bytes [(4104, 2044)] \<longrightarrow> mem st' x = mem demo_slob x)"
proof -
  have "freeable 4096 (4096 + PAGE_SIZE) 4096 4 [(4104, 2044)]"
    by (auto simp: freeable_def PAGE_SIZE_def block_bytes_def)
  from slob_reinsert_coalesces [OF demo_repr _ this] show ?thesis by auto
qed

text \<open>
  Freeing undoes allocating: on a page that still has free blocks after the
  allocation, giving the block back at once restores the very list of free blocks the
  page had, with its splits and alignment fragments merged again.
\<close>

theorem slob_page_alloc_reinsert:
  assumes "page_repr st sp bs" "bs \<noteq> []" "0 < sz" "good_align align"
    "block_alloc (SLOB_UNITS sz) align bs = Some (r, bs')" "bs' \<noteq> []"
  shows "\<exists>st' st''. slob_page_alloc st sp sz align = Some (st', Some r) \<and>
    slob_reinsert st' sp r (word_of_int (SLOB_UNITS sz)) = Some st'' \<and> page_repr st'' sp bs"
proof -
  let ?u = "SLOB_UNITS sz"
  have u: "1 \<le> ?u" by (rule SLOB_UNITS_pos [OF assms(3)])
  have wf: "wf_blocks 2 sp (sp + PAGE_SIZE) bs" and sp: "PAGE_SIZE dvd sp"
    using assms(1) by (auto simp: page_repr_def)
  have wf': "wf_blocks 2 sp (sp + PAGE_SIZE) bs'" by (rule block_alloc_wf [OF u assms(4) wf assms(5)])
  obtain m f where m: "slob_page_alloc st sp sz align = Some (page_after st sp m f bs', Some r)"
      "chain m f bs' (sp + PAGE_SIZE)"
    using page_alloc_refines [OF assms(1,2) u assms(4)] assms(5) by (auto simp: scan_result_def)
  have rep: "page_repr (page_after st sp m f bs') sp bs'" using m(2) sp wf' by (simp add: page_repr_def)
  have bytes: "block_bytes bs = {r ..< r + 2 * ?u} \<union> block_bytes bs'"
      "{r ..< r + 2 * ?u} \<inter> block_bytes bs' = {}"
    using block_alloc_bytes [OF u assms(4) wf assms(5)] by auto
  have "sp \<le> x \<and> x < sp + PAGE_SIZE" if "x \<in> {r ..< r + 2 * ?u}" for x
    using wf_block_bytes [OF wf, of x] that bytes(1) by auto
  from this [of r] this [of "r + 2 * ?u - 1"] have "sp \<le> r" "r + 2 * ?u \<le> sp + PAGE_SIZE" using u by auto
  then have fr: "freeable sp (sp + PAGE_SIZE) r ?u bs'"
    using u bytes(2) block_alloc_aligned [OF assms(4) wf assms(5)] by (simp add: freeable_def)
  obtain m2 f2 where "slob_reinsert (page_after st sp m f bs') sp r (word_of_int ?u) =
       Some (put_page sp (\<lambda>p. p\<lparr>sp_units := sp_units p + ?u, sp_freelist := f2\<rparr>)
         ((page_after st sp m f bs')\<lparr>mem := m2\<rparr>))"
    "chain m2 f2 (block_insert r ?u bs') (sp + PAGE_SIZE)"
    by (rule reinsert_refines [OF rep assms(6) fr]) (rule that)
  then show ?thesis
    using m(1) sp wf block_insert_alloc [OF assms(4) u wf assms(5)] block_alloc_units [OF assms(5)]
    by (auto simp: page_repr_def put_page_def)
qed

theorem slob_page_alloc_reinsert_witness:
  "\<exists>st' st''. slob_page_alloc demo_slob 4096 100 16 = Some (st', Some 4112) \<and>
    slob_reinsert st' 4096 4112 (word_of_int (SLOB_UNITS 100)) = Some st'' \<and>
    page_repr st'' 4096 [(4104, 2044)]"
proof (rule slob_page_alloc_reinsert [OF demo_repr])
  show "good_align 16" unfolding good_align_def by (rule disjI2, rule exI [of _ 4]) simp
  show "block_alloc (SLOB_UNITS 100) 16 [(4104, 2044)] = Some (4112, [(4104, 4), (4212, 1990)])"
    by (simp add: SLOB_UNITS_eq align_delta_def ALIGN_def taken_def)
qed simp_all

text \<open>
  C23 (the best-fit choice): with \<^verbatim>\<open>sp_alt\<close> starting as NULL, the loop over the list ends
  with NULL exactly when no page of the right node has enough free units, and
  otherwise with the first page in list order among those with the fewest free units
  that suffice.
\<close>

theorem slob_best_page_minimal:
  "case slob_best_page env st sz node xs None of
     None \<Rightarrow> \<forall>q\<in>set xs. \<not> eligible env st sz node q
   | Some sp \<Rightarrow> \<exists>ys zs. xs = ys @ sp # zs \<and> eligible env st sz node sp \<and>
       (\<forall>q\<in>set ys. eligible env st sz node q \<longrightarrow> sp_units (page_of st sp) < sp_units (page_of st q)) \<and>
       (\<forall>q\<in>set zs. eligible env st sz node q \<longrightarrow> sp_units (page_of st sp) \<le> sp_units (page_of st q))"
  using best_page_spec [of xs env st sz node] by (simp add: best_in_def split: option.splits)

theorem slob_best_page_minimal_witness:
  "eligible demo_env demo_slob 100 0 4096 \<and> \<not> eligible demo_env demo_slob 100 0 12288 \<and>
   slob_best_page demo_env demo_slob 100 0 [12288, 4096] None = Some 4096"
proof -
  have e: "eligible demo_env demo_slob 100 0 4096" "\<not> eligible demo_env demo_slob 100 0 12288"
    by (simp_all add: eligible_def demo_env_def demo_slob_def SLOB_UNITS_eq)
  have "slob_best_page demo_env demo_slob 100 0 [12288, 4096] None = Some 4096"
    using slob_best_page_minimal [of "[12288, 4096]" demo_env demo_slob 100 0] e
    by (auto simp: Cons_eq_append_conv split: option.splits)
  with e show ?thesis by simp
qed

text \<open>
  Block encoding: writing a free block with \<^verbatim>\<open>set_slob\<close> and reading it back with
  \<^verbatim>\<open>slob_units\<close>, \<^verbatim>\<open>slob_next\<close> and \<^verbatim>\<open>slob_last\<close> gives the size and the next pointer that
  were written, for blocks of one unit too, whose size is not stored.
\<close>

theorem set_slob_roundtrip:
  assumes "1 \<le> n" "n \<le> 2048" "even s" "even q" "s < q" "q \<le> page_base s + PAGE_SIZE"
  shows "slob_units (set_slob m s (word_of_int n) q) s = word_of_int n \<and>
    slob_next (set_slob m s (word_of_int n) q) s = q \<and>
    slob_last (set_slob m s (word_of_int n) q) s = (PAGE_SIZE dvd q)"
proof -
  let ?m = "set_slob m s (word_of_int n) q"
  note b = block_at_set_slob [OF assms, of m]
  have "slob_next ?m s = q" by (rule block_at_next [OF b])
  moreover have "slob_last ?m s = (PAGE_SIZE dvd q)"
    using calculation by (simp add: slob_last_def addr_simps dvd_eq_mod_eq_0)
  moreover have "slob_units ?m s = word_of_int n" by (rule slob_units_word [OF b])
  ultimately show ?thesis by blast
qed

theorem set_slob_roundtrip_witness:
  "slob_units (set_slob (\<lambda>_. 0) 4104 (word_of_int 1) 8192) 4104 = word_of_int 1 \<and>
   slob_next (set_slob (\<lambda>_. 0) 4104 (word_of_int 1) 8192) 4104 = 8192 \<and>
   slob_last (set_slob (\<lambda>_. 0) 4104 (word_of_int 1) 8192) 4104 = (PAGE_SIZE dvd 8192)"
  by (rule set_slob_roundtrip) (simp_all add: demo_base PAGE_SIZE_def)

text \<open>
  Error paths of \<^verbatim>\<open>slob_free\<close>: NULL and \<^verbatim>\<open>ZERO_SIZE_PTR\<close> are ignored whatever the size,
  and a real block with size 0 is a \<^verbatim>\<open>BUG_ON\<close>.
\<close>

theorem slob_free_errors:
  "slob_free st b 0 = (if b \<le> 16 then Some (Inr st) else Some (Inl BUG_ON)) \<and>
   slob_free st 0 sz = Some (Inr st) \<and> slob_free st ZERO_SIZE_PTR sz = Some (Inr st)"
  by (simp add: slob_free_def ZERO_OR_NULL_PTR_def ZERO_SIZE_PTR_def)

subsection \<open>The front end\<close>

text \<open>
  C6 (\<^verbatim>\<open>kmalloc\<close>): a small request returns NULL and leaves memory alone, or returns an
  aligned pointer to \<open>sz\<close> bytes that overlap no live object, with the header that
  \<^verbatim>\<open>kfree\<close> and \<^verbatim>\<open>ksize\<close> need in front of it. \<^verbatim>\<open>ksize\<close> of the pointer is at least \<open>sz\<close> and at most one
  byte more, and \<^verbatim>\<open>kfree\<close> of it returns with exactly the old objects live.
\<close>

theorem kmalloc_kfree_roundtrip:
  assumes "slob_inv live st" "front_ok env" "fresh_pages (kernel env) st"
    "0 < sz" "sz + kmalloc_align env < PAGE_SIZE"
  shows "\<exists>st' r. kmalloc env None st sz gfpf = Some (Inr (st', r)) \<and>
    (case r of
       None \<Rightarrow> slob_inv live st' \<and> mem st' = mem st
     | Some p \<Rightarrow> kmalloc_align env dvd p \<and> {p ..< p + sz} \<inter> live_bytes live = {} \<and>
         (\<forall>x\<in>live_bytes live. mem st' x = mem st x) \<and>
         (\<exists>n. ksize env st' p = Inr n \<and> sz \<le> n \<and> n \<le> sz + 1) \<and>
         (\<exists>st''. kfree env st' p = Some (Inr st'') \<and> slob_inv live st''))"
proof (cases rule: do_kmalloc_small [OF assms, of gfpf "NUMA_NO_NODE (kernel env)", case_names null object])
  case (null st')
  then show ?thesis by (intro exI [of _ st'] exI [of _ None]) (simp add: kmalloc_def)
next
  case (object st' p)
  let ?x = "(p - kmalloc_align env, sz + kmalloc_align env)"
  have new: "?x \<notin> live" and inv: "slob_inv (insert ?x live) st'"
    and obj: "kmalloc_object env (insert ?x live) st' p sz"
    using object(2) by (simp_all add: kmalloc_post_def Let_def)
  obtain st'' where "kfree env st' p = Some (Inr st'')" "slob_inv (insert ?x live - {?x}) st''"
    using slob_free_correct [OF inv, of "fst ?x" "snd ?x"] kfree_object [OF inv assms(2) obj]
    by (auto simp: free_post_def)
  moreover have "insert ?x live - {?x} = live" using new by simp
  ultimately show ?thesis
    using object ksize_object [OF inv assms(2) obj] SLOB_UNITS_bytes [of sz]
    by (intro exI [of _ st'] exI [of _ "Some p"]) (auto simp: kmalloc_post_def Let_def kmalloc_def)
qed

lemma demo_front_ok: "front_ok demo_front"
proof -
  have "good_align 8" unfolding good_align_def by (rule disjI2, rule exI [of _ 3]) simp
  then show ?thesis by (simp add: front_ok_def kmalloc_align_def demo_front_def PAGE_SIZE_def)
qed

theorem kmalloc_kfree_roundtrip_witness:
  "\<exists>st' r. kmalloc demo_front None demo_slob 100 0 = Some (Inr (st', r)) \<and>
    (case r of
       None \<Rightarrow> slob_inv {(4096, 8)} st' \<and> mem st' = mem demo_slob
     | Some p \<Rightarrow> kmalloc_align demo_front dvd p \<and> {p ..< p + 100} \<inter> live_bytes {(4096, 8)} = {} \<and>
         (\<forall>x\<in>live_bytes {(4096, 8)}. mem st' x = mem demo_slob x) \<and>
         (\<exists>n. ksize demo_front st' p = Inr n \<and> 100 \<le> n \<and> n \<le> 100 + 1) \<and>
         (\<exists>st''. kfree demo_front st' p = Some (Inr st'') \<and> slob_inv {(4096, 8)} st''))"
  by (rule kmalloc_kfree_roundtrip [OF demo_inv demo_front_ok])
    (simp_all add: demo_front_def demo_fresh kmalloc_align_def PAGE_SIZE_def)

text \<open>
  C24 (the header is stable): an object of \<^verbatim>\<open>kmalloc\<close> stays one, so that a later \<^verbatim>\<open>kfree\<close>
  frees exactly it, whatever is allocated in between, whichever other object is freed,
  and whatever its owner writes to the bytes it was given.
\<close>

theorem kmalloc_object_stable:
  assumes "slob_inv live st" "front_ok env" "kmalloc_object env live st p sz"
  shows "(slob_req_ok r st n \<longrightarrow>
       (\<exists>st' q. slob_alloc_op r st n = Some (st', q) \<and> kmalloc_object env live st' p sz)) \<and>
    ((b, k) \<in> live - {(p - kmalloc_align env, sz + kmalloc_align env)} \<longrightarrow>
       (\<exists>st'. slob_free_op st b k = Some st' \<and> kmalloc_object env (live - {(b, k)}) st' p sz)) \<and>
    (p \<le> x \<longrightarrow> kmalloc_object env live (slob_poke st x v) p sz) \<and>
    (\<exists>st'. kfree env st p = Some (Inr st') \<and>
       slob_inv (live - {(p - kmalloc_align env, sz + kmalloc_align env)}) st')"
proof (intro conjI impI)
  let ?y = "(p - kmalloc_align env, sz + kmalloc_align env)"
  have y: "?y \<in> live" "0 < sz" using assms(3) by (auto simp: kmalloc_object_def)
  show "\<exists>st' q. slob_alloc_op r st n = Some (st', q) \<and> kmalloc_object env live st' p sz"
    if ok: "slob_req_ok r st n"
  proof -
    obtain st' q where op: "slob_alloc_op r st n = Some (st', q)"
      using slob.alloc_returns [OF assms(1) ok] by auto
    have "kmalloc_object env live st' p sz"
      using y by (intro kmalloc_object_keep [OF assms(3,2)] slob.alloc_keeps [OF assms(1) ok op]) auto
    with op show ?thesis by blast
  qed
  show "\<exists>st'. slob_free_op st b k = Some st' \<and> kmalloc_object env (live - {(b, k)}) st' p sz"
    if b: "(b, k) \<in> live - {?y}"
  proof -
    have bl: "(b, k) \<in> live" using b by simp
    obtain st' where op: "slob_free_op st b k = Some st'" using slob.free_ok [OF assms(1) bl] by auto
    have "kmalloc_object env (live - {(b, k)}) st' p sz"
      using b y by (intro kmalloc_object_keep [OF assms(3,2)] slob.free_keeps [OF assms(1) bl op, of "fst ?y" "snd ?y"]) auto
    with op show ?thesis by blast
  qed
  show "kmalloc_object env live (slob_poke st x v) p sz" if "p \<le> x"
    using that y by (intro kmalloc_object_keep [OF assms(3,2)]) (auto simp: slob_poke_def)
  show "\<exists>st'. kfree env st p = Some (Inr st') \<and> slob_inv (live - {?y}) st'"
    using slob_free_correct [OF assms(1) y(1)] kfree_object [OF assms] by (auto simp: free_post_def)
qed

lemma demo_full_inv: "slob_inv {(4096, 20), (4116, 4076)} demo_full"
proof -
  have "page_base 4116 = 4096" by (rule page_base_eq) (simp_all add: PAGE_SIZE_def)
  moreover have "page_inv {(4096, 20), (4116, 4076)} demo_full 4096"
    by (auto simp: page_inv_def page_state_def demo_full_def PAGE_SIZE_def live_bytes_def live_range_def
        SLOB_UNITS_eq block_bytes_def)
  ultimately show ?thesis
    unfolding slob_inv_def lists_inv_def live_inv_def
    by (auto simp: demo_full_def demo_base PAGE_SIZE_def live_range_def SLOB_UNITS_eq)
qed

theorem kmalloc_object_stable_witness:
  "(\<exists>st'. slob_free_op (slob_poke demo_full 4096 12) 4116 4076 = Some st' \<and>
      kmalloc_object demo_front ({(4096, 20), (4116, 4076)} - {(4116, 4076)}) st' 4104 12) \<and>
   (\<exists>st'. kfree demo_front (slob_poke demo_full 4096 12) 4104 = Some (Inr st') \<and>
      slob_inv ({(4096, 20), (4116, 4076)} - {(4096, 20)}) st')"
proof -
  have al: "kmalloc_align demo_front = 8" by (simp add: kmalloc_align_def demo_front_def)
  have inv: "slob_inv {(4096, 20), (4116, 4076)} (slob_poke demo_full 4096 12)"
    by (rule slob_poke_inv [OF demo_full_inv, of 4096 20]) simp_all
  have "load32 (mem (slob_poke demo_full 4096 12)) 4096 = 12"
    by (simp add: slob_poke_def demo_full_def load32_def load16_def)
  then have "kmalloc_object demo_front {(4096, 20), (4116, 4076)} (slob_poke demo_full 4096 12) 4104 12"
    by (simp add: kmalloc_object_def al PAGE_SIZE_def)
  from kmalloc_object_stable [OF inv demo_front_ok this, of _ _ 4116 4076] show ?thesis
    unfolding al by simp
qed

text \<open>
  C22 (deferred free): \<^verbatim>\<open>kmem_cache_free\<close> on a cache with \<^verbatim>\<open>SLAB_DESTROY_BY_RCU\<close> keeps the
  object live, registers one callback and writes only inside the object. Whenever the
  callback \<^verbatim>\<open>kmem_rcu_free\<close> runs later, on any heap in which the object is still live with
  its bytes as they were left, it finds the start and the size of the object from the
  footer, returns, and frees exactly that object.
\<close>

theorem kmem_cache_free_deferred:
  assumes "slob_inv live (heap k)" "rcu_writes_head env"
    "c_flags c AND SLAB_DESTROY_BY_RCU env \<noteq> 0" "uint (c_size c) < PAGE_SIZE"
    "sizeof_slob_rcu env \<le> uint (c_size c)" "(b, uint (c_size c)) \<in> live"
  shows "\<exists>k' head. kmem_cache_free env k c b = Some (Inr k') \<and> rcu k' = rcu k @ [head] \<and>
    slob_inv live (heap k') \<and>
    (\<forall>x. x < b \<or> b + uint (c_size c) \<le> x \<longrightarrow> mem (heap k') x = mem (heap k) x) \<and>
    (\<forall>live2 st2. slob_inv live2 st2 \<and> (b, uint (c_size c)) \<in> live2 \<and>
       (\<forall>x\<in>{b ..< b + uint (c_size c)}. mem st2 x = mem (heap k') x) \<longrightarrow>
       (\<exists>st3. kmem_rcu_free env st2 head = Some (Inr st3) \<and>
          slob_inv (live2 - {(b, uint (c_size c))}) st3))"
proof -
  let ?n = "uint (c_size c)"
  obtain k' head where k': "kmem_cache_free env k c b = Some (Inr k')" "rcu k' = rcu k @ [head]"
      "slob_inv live (heap k')" "rcu_footer env live (heap k') head b ?n"
      "\<And>x. x < b \<or> b + ?n \<le> x \<Longrightarrow> mem (heap k') x = mem (heap k) x"
    by (rule kmem_cache_free_rcu [OF assms]) (rule that)
  have s: "0 \<le> sizeof_rcu_head env" using assms(2) by (simp add: rcu_writes_head_def)
  have "\<exists>st3. kmem_rcu_free env st2 head = Some (Inr st3) \<and> slob_inv (live2 - {(b, ?n)}) st3"
    if st2: "slob_inv live2 st2" "(b, ?n) \<in> live2" "\<forall>x\<in>{b ..< b + ?n}. mem st2 x = mem (heap k') x"
    for live2 st2
  proof -
    have h: "head + sizeof_rcu_head env = b + ?n - 4"
      using k'(4) by (simp add: rcu_footer_def sizeof_slob_rcu_def)
    have "load32 (mem st2) (head + sizeof_rcu_head env) = load32 (mem (heap k')) (head + sizeof_rcu_head env)"
      using st2(3) s assms(5) unfolding h sizeof_slob_rcu_def by (intro load32_cong) auto
    then have "rcu_footer env live2 st2 head b ?n" using k'(4) st2(2) unfolding rcu_footer_def by metis
    from kmem_rcu_free_footer [OF this s] slob_free_correct [OF st2(1,2)] show ?thesis
      by (auto simp: free_post_def)
  qed
  with k' show ?thesis by (intro exI [of _ k'] exI [of _ head]) blast
qed

theorem kmem_cache_free_deferred_witness:
  "\<exists>k' head. kmem_cache_free demo_front demo_kmem demo_cache 4096 = Some (Inr k') \<and> rcu k' = [head] \<and>
    (\<exists>st3. kmem_rcu_free demo_front (heap k') head = Some (Inr st3) \<and> slob_inv {(4116, 4076)} st3)"
proof -
  have n: "uint (c_size demo_cache) = 20" by (simp add: demo_cache_def)
  have inv: "slob_inv {(4096, 20), (4116, 4076)} (heap demo_kmem)"
    using demo_full_inv by (simp add: demo_kmem_def)
  have pre: "rcu_writes_head demo_front" "c_flags demo_cache AND SLAB_DESTROY_BY_RCU demo_front \<noteq> 0"
      "uint (c_size demo_cache) < PAGE_SIZE" "sizeof_slob_rcu demo_front \<le> uint (c_size demo_cache)"
      "(4096, uint (c_size demo_cache)) \<in> {(4096, 20), (4116, 4076)}"
    unfolding n by (auto simp: rcu_writes_head_def demo_front_def demo_cache_def sizeof_slob_rcu_def PAGE_SIZE_def)
  have diff: "{(4096, 20), (4116, 4076)} - {(4096, 20)} = {(4116 :: int, 4076 :: int)}" by auto
  have rcu: "rcu demo_kmem @ [head] = [head]" for head by (simp add: demo_kmem_def)
  obtain k' head where "kmem_cache_free demo_front demo_kmem demo_cache 4096 = Some (Inr k')"
      "rcu k' = [head]" and later: "\<And>live2 st2. slob_inv live2 st2 \<and> (4096, 20) \<in> live2 \<and>
       (\<forall>x\<in>{4096 ..< 4096 + 20}. mem st2 x = mem (heap k') x) \<Longrightarrow>
       \<exists>st3. kmem_rcu_free demo_front st2 head = Some (Inr st3) \<and> slob_inv (live2 - {(4096, 20)}) st3"
    and "slob_inv {(4096, 20), (4116, 4076)} (heap k')"
    using kmem_cache_free_deferred [OF inv pre] unfolding n rcu by blast
  then show ?thesis
    using later [of "{(4096, 20), (4116, 4076)}" "heap k'"] unfolding diff by blast
qed

end
