(* ===== verification/Slob_Conc.thy ===== *)
theory Slob_Conc
  imports Slob_Props
begin

text \<open>
  \<^verbatim>\<open>slob_alloc\<close> and \<^verbatim>\<open>slob_free\<close> (\<^verbatim>\<open>src/kernel/project4/code/slob.c\<close>) on any number of processors.
  \<^verbatim>\<open>slob_lock\<close> makes the sections between \<^verbatim>\<open>spin_lock_irqsave\<close> and \<^verbatim>\<open>spin_unlock_irqrestore\<close> single
  steps on the heap; everything the functions do outside them is a step of its own, and
  the counters \<^verbatim>\<open>pcount\<close>, \<^verbatim>\<open>claimed_m\<close> and \<^verbatim>\<open>used_m\<close>, which no lock protects, are loaded in one step and
  stored in a later one. The page allocator hands out a page that is not in use
  or nothing; \<open>taken\<close> are the pages it has handed out. A page that only one processor knows
  has its \<^verbatim>\<open>PageSlab\<close> flag set and cleared in the step of the section next to it.

  \<^verbatim>\<open>free\<close> is reset in a step of its own before the lock is taken; a reset by one processor while
  another counts the lists is not covered. \<^verbatim>\<open>sp_alt\<close> starts as \<^verbatim>\<open>NULL\<close>. The lock itself, preemption
  and the order in which a weak memory makes stores visible are not modelled.

  \<open>objs\<close> and \<open>owned\<close> are ghost state: the objects that are carved out of the heap, and those among
  them that a caller has; a processor in the middle of a call holds the others.
\<close>

subsection \<open>The sections under the lock\<close>

definition alloc_search ::
  "kernel_env \<Rightarrow> slob \<Rightarrow> int \<Rightarrow> int \<Rightarrow> int \<Rightarrow> (slob \<times> int option) option" where
  "alloc_search env st sz align node =
     (case (case slob_best_page env st sz node (partial st (slob_list_of sz)) None of
              None \<Rightarrow> Some (st, None)
            | Some sp \<Rightarrow> slob_page_alloc st sp sz align) of
        None \<Rightarrow> None
      | Some (st1, b) \<Rightarrow> Some (slob_count_free st1, b))"

definition alloc_init :: "slob \<Rightarrow> int \<Rightarrow> int \<Rightarrow> int \<Rightarrow> (slob \<times> int option) option" where
  "alloc_init st b sz align =
     slob_page_alloc (slob_init_page st b (slob_list_of sz)) (virt_to_page b) sz align"

text \<open>The second component says that the page goes back to the page allocator.\<close>

definition free_section :: "slob \<Rightarrow> int \<Rightarrow> int \<Rightarrow> (slob \<times> bool) option" where
  "free_section st b sz =
     (let sp = virt_to_page b;
          units = (word_of_int (SLOB_UNITS sz) :: s16)
      in if sp_units (page_of st sp) + sint units = SLOB_UNITS PAGE_SIZE
         then Some (put_page sp (\<lambda>p. p\<lparr>PageSlab := False\<rparr>)
                      (if slob_page_free st sp then clear_slob_page_free st sp else st), True)
         else if \<not> slob_page_free st sp
         then Some (slob_first_free st sp b sz units, False)
         else map_option (\<lambda>st'. (st', False)) (slob_reinsert st sp b units))"

subsection \<open>Processors\<close>

record alloc_call =
  a_size :: int
  a_gfp :: u32
  a_align :: int
  a_node :: int

datatype cpu_pc =
  Idle
| A_search alloc_call
| A_page alloc_call
| A_init alloc_call int
| A_pcount_ld alloc_call int
| A_pcount_st alloc_call int u32
| A_claimed_ld alloc_call int
| A_claimed_st alloc_call int u32
| A_zero alloc_call int
| A_used_ld alloc_call int
| A_used_st alloc_call int u32
| F_used_ld int int
| F_used_st int int u32
| F_lock int int
| F_pages int
| F_pcount_ld
| F_pcount_st u32

record slob_smp =
  sl :: slob
  cpus :: "nat \<Rightarrow> cpu_pc"
  taken :: "int set"
  objs :: objects
  owned :: objects
  crashed :: bool

definition go :: "nat \<Rightarrow> cpu_pc \<Rightarrow> slob_smp \<Rightarrow> slob_smp" where
  "go k c s = s\<lparr>cpus := (cpus s)(k := c)\<rparr>"

definition call_ok :: "alloc_call \<Rightarrow> bool" where
  "call_ok c \<longleftrightarrow> 0 < a_size c \<and> a_size c \<le> PAGE_SIZE \<and> good_align (a_align c) \<and> a_align c \<le> PAGE_SIZE"

inductive alloc_step :: "kernel_env \<Rightarrow> nat \<Rightarrow> slob_smp \<Rightarrow> slob_smp \<Rightarrow> bool" for env k where
  call: "cpus s k = Idle \<Longrightarrow> call_ok c \<Longrightarrow>
    alloc_step env k s (go k (A_search c) (s\<lparr>sl := (sl s)\<lparr>free := 0\<rparr>\<rparr>))"
| found: "cpus s k = A_search c \<Longrightarrow>
    alloc_search env (sl s) (a_size c) (a_align c) (a_node c) = Some (st, Some r) \<Longrightarrow>
    alloc_step env k s (go k (A_zero c r) (s\<lparr>sl := st, objs := insert (r, a_size c) (objs s)\<rparr>))"
| full: "cpus s k = A_search c \<Longrightarrow>
    alloc_search env (sl s) (a_size c) (a_align c) (a_node c) = Some (st, None) \<Longrightarrow>
    alloc_step env k s (go k (A_page c) (s\<lparr>sl := st\<rparr>))"
| hang: "cpus s k = A_search c \<Longrightarrow>
    alloc_search env (sl s) (a_size c) (a_align c) (a_node c) = None \<Longrightarrow>
    alloc_step env k s (s\<lparr>crashed := True\<rparr>)"
| no_page: "cpus s k = A_page c \<Longrightarrow> alloc_step env k s (go k Idle s)"
| new_page: "cpus s k = A_page c \<Longrightarrow> b \<notin> taken s \<Longrightarrow> PAGE_SIZE dvd b \<Longrightarrow> PAGE_SIZE \<le> b \<Longrightarrow>
    alloc_step env k s (go k (A_init c b) (s\<lparr>taken := insert b (taken s)\<rparr>))"
| carve: "cpus s k = A_init c b \<Longrightarrow>
    alloc_init (sl s) b (a_size c) (a_align c) = Some (st, Some r) \<Longrightarrow>
    alloc_step env k s (go k (A_pcount_ld c r) (s\<lparr>sl := st, objs := insert (r, a_size c) (objs s)\<rparr>))"
| bug: "cpus s k = A_init c b \<Longrightarrow>
    (\<nexists>st r. alloc_init (sl s) b (a_size c) (a_align c) = Some (st, Some r)) \<Longrightarrow>
    alloc_step env k s (s\<lparr>crashed := True\<rparr>)"
| pcount_ld: "cpus s k = A_pcount_ld c r \<Longrightarrow>
    alloc_step env k s (go k (A_pcount_st c r (pcount (sl s))) s)"
| pcount_st: "cpus s k = A_pcount_st c r x \<Longrightarrow>
    alloc_step env k s (go k (A_claimed_ld c r) (s\<lparr>sl := (sl s)\<lparr>pcount := x + 1\<rparr>\<rparr>))"
| claimed_ld: "cpus s k = A_claimed_ld c r \<Longrightarrow>
    alloc_step env k s (go k (A_claimed_st c r (claimed_m (sl s))) s)"
| claimed_st: "cpus s k = A_claimed_st c r x \<Longrightarrow>
    alloc_step env k s (go k (A_zero c r) (s\<lparr>sl := (sl s)\<lparr>claimed_m := x + word_of_int PAGE_SIZE\<rparr>\<rparr>))"
| zero: "cpus s k = A_zero c r \<Longrightarrow>
    alloc_step env k s (go k (A_used_ld c r)
      (s\<lparr>sl := (if a_gfp c AND GFP_ZERO env \<noteq> 0
               then (sl s)\<lparr>mem := memset0 (mem (sl s)) r (a_size c)\<rparr> else sl s)\<rparr>))"
| used_ld: "cpus s k = A_used_ld c r \<Longrightarrow>
    alloc_step env k s (go k (A_used_st c r (used_m (sl s))) s)"
| used_st: "cpus s k = A_used_st c r x \<Longrightarrow>
    alloc_step env k s (go k Idle
      (s\<lparr>sl := (sl s)\<lparr>used_m := x + word_of_int (a_size c)\<rparr>, owned := insert (r, a_size c) (owned s)\<rparr>))"

inductive free_step :: "nat \<Rightarrow> slob_smp \<Rightarrow> slob_smp \<Rightarrow> bool" for k where
  drop: "cpus s k = Idle \<Longrightarrow> (b, sz) \<in> owned s \<Longrightarrow>
    free_step k s (go k (F_used_ld b sz) (s\<lparr>owned := owned s - {(b, sz)}\<rparr>))"
| less_ld: "cpus s k = F_used_ld b sz \<Longrightarrow>
    free_step k s (go k (F_used_st b sz (used_m (sl s))) s)"
| less_st: "cpus s k = F_used_st b sz x \<Longrightarrow>
    free_step k s (go k (F_lock b sz) (s\<lparr>sl := (sl s)\<lparr>used_m := x - word_of_int sz\<rparr>\<rparr>))"
| give_back: "cpus s k = F_lock b sz \<Longrightarrow> free_section (sl s) b sz = Some (st, page) \<Longrightarrow>
    free_step k s (go k (if page then F_pages b else Idle)
      (s\<lparr>sl := st, objs := objs s - {(b, sz)}\<rparr>))"
| stuck: "cpus s k = F_lock b sz \<Longrightarrow> free_section (sl s) b sz = None \<Longrightarrow>
    free_step k s (s\<lparr>crashed := True\<rparr>)"
| pages: "cpus s k = F_pages b \<Longrightarrow>
    free_step k s (go k F_pcount_ld
      (s\<lparr>sl := slob_free_pages (sl s) b 0, taken := taken s - {page_base b}\<rparr>))"
| fewer_ld: "cpus s k = F_pcount_ld \<Longrightarrow>
    free_step k s (go k (F_pcount_st (pcount (sl s))) s)"
| fewer_st: "cpus s k = F_pcount_st x \<Longrightarrow>
    free_step k s (go k Idle (s\<lparr>sl := (sl s)\<lparr>pcount := x - 1\<rparr>\<rparr>))"

definition smp_step :: "kernel_env \<Rightarrow> slob_smp \<Rightarrow> slob_smp \<Rightarrow> bool" where
  "smp_step env s t \<longleftrightarrow> (\<exists>k. alloc_step env k s t \<or> free_step k s t)"

text \<open>The callers write into the objects they have.\<close>

definition owner_write :: "slob_smp \<Rightarrow> slob_smp \<Rightarrow> bool" where
  "owner_write s t \<longleftrightarrow>
     (\<exists>b n x v. (b, n) \<in> owned s \<and> b \<le> x \<and> x < b + n \<and> t = s\<lparr>sl := slob_poke (sl s) x v\<rparr>)"

definition smp_run_step :: "kernel_env \<Rightarrow> slob_smp \<Rightarrow> slob_smp \<Rightarrow> bool" where
  "smp_run_step env s t \<longleftrightarrow> smp_step env s t \<or> owner_write s t"

definition smp_init :: "slob_smp \<Rightarrow> bool" where
  "smp_init s \<longleftrightarrow>
     (\<exists>m pg. s = \<lparr>sl = slob_boot m pg, cpus = (\<lambda>_. Idle), taken = {}, objs = {}, owned = {}, crashed = False\<rparr>)"

text \<open>What the page allocator may hand out.\<close>

definition page_unused :: "slob_smp \<Rightarrow> int \<Rightarrow> bool" where
  "page_unused s b \<longleftrightarrow> b \<notin> taken s \<and> PAGE_SIZE dvd b \<and> PAGE_SIZE \<le> b"

subsection \<open>The invariant\<close>

text \<open>The object and the page that a processor holds in the middle of a call.\<close>

fun holds :: "cpu_pc \<Rightarrow> (int \<times> int) option" where
  "holds (A_pcount_ld c r) = Some (r, a_size c)"
| "holds (A_pcount_st c r x) = Some (r, a_size c)"
| "holds (A_claimed_ld c r) = Some (r, a_size c)"
| "holds (A_claimed_st c r x) = Some (r, a_size c)"
| "holds (A_zero c r) = Some (r, a_size c)"
| "holds (A_used_ld c r) = Some (r, a_size c)"
| "holds (A_used_st c r x) = Some (r, a_size c)"
| "holds (F_used_ld b sz) = Some (b, sz)"
| "holds (F_used_st b sz x) = Some (b, sz)"
| "holds (F_lock b sz) = Some (b, sz)"
| "holds _ = None"

fun has_page :: "cpu_pc \<Rightarrow> int option" where
  "has_page (A_init c b) = Some b"
| "has_page (F_pages b) = Some (page_base b)"
| "has_page _ = None"

fun calls :: "cpu_pc \<Rightarrow> alloc_call option" where
  "calls (A_search c) = Some c"
| "calls (A_page c) = Some c"
| "calls (A_init c b) = Some c"
| "calls _ = None"

definition objects_ok :: "slob_smp \<Rightarrow> bool" where
  "objects_ok s \<longleftrightarrow>
     owned s \<subseteq> objs s \<and>
     (\<forall>k x. holds (cpus s k) = Some x \<longrightarrow> x \<in> objs s \<and> x \<notin> owned s) \<and>
     (\<forall>j k x. holds (cpus s j) = Some x \<longrightarrow> holds (cpus s k) = Some x \<longrightarrow> j = k)"

definition pages_ok :: "slob_smp \<Rightarrow> bool" where
  "pages_ok s \<longleftrightarrow>
     slab_pages (sl s) \<subseteq> taken s \<and>
     (\<forall>k b. has_page (cpus s k) = Some b \<longrightarrow>
        b \<in> taken s \<and> b \<notin> slab_pages (sl s) \<and> PAGE_SIZE dvd b \<and> PAGE_SIZE \<le> b) \<and>
     (\<forall>j k b. has_page (cpus s j) = Some b \<longrightarrow> has_page (cpus s k) = Some b \<longrightarrow> j = k)"

definition calls_ok :: "slob_smp \<Rightarrow> bool" where
  "calls_ok s \<longleftrightarrow> (\<forall>k c. calls (cpus s k) = Some c \<longrightarrow> call_ok c)"

definition smp_inv :: "slob_smp \<Rightarrow> bool" where
  "smp_inv s \<longleftrightarrow>
     slob_inv (objs s) (sl s) \<and> objects_ok s \<and> pages_ok s \<and> calls_ok s \<and> \<not> crashed s"

text \<open>
  What a step of a processor leaves alone: the bytes of every object that a caller
  has, before and after the step.
\<close>

definition keeps_owned :: "slob_smp \<Rightarrow> slob_smp \<Rightarrow> bool" where
  "keeps_owned s t \<longleftrightarrow> (\<forall>y\<in>live_bytes (owned s \<inter> owned t). mem (sl t) y = mem (sl s) y)"

subsection \<open>What the sections do\<close>

lemma slab_pages_eq: "(\<And>q. PageSlab (page_of st' q) = PageSlab (page_of st q)) \<Longrightarrow> slab_pages st' = slab_pages st"
  by (simp add: slab_pages_def)

lemma count_free_simps [simp]:
  "slob_inv l (slob_count_free st) = slob_inv l st" "mem (slob_count_free st) = mem st"
  "slab_pages (slob_count_free st) = slab_pages st"
  by (simp_all add: slob_count_free_def slab_pages_def)

lemma alloc_search_cases:
  assumes inv: "slob_inv l st" and c: "0 < sz" "good_align align"
  obtains (none) "alloc_search env st sz align node = Some (slob_count_free st, None)"
  | (some) st' r where "alloc_search env st sz align node = Some (slob_count_free st', Some r)"
      "alloc_post l st sz align st' r" "slab_pages st' = slab_pages st" "same_counters st st'"
proof (cases "slob_best_page env st sz node (partial st (slob_list_of sz)) None")
  case None
  then show ?thesis by (intro none) (simp add: alloc_search_def)
next
  case (Some sp)
  have flag: "PageSlobFree (page_of st sp)"
    using best_page_in [OF Some] inv by (auto simp: slob_inv_def lists_inv_def)
  show ?thesis
  proof (cases rule: page_alloc_inv [OF inv flag c, case_names null block])
    case null
    with Some show ?thesis by (intro none) (simp add: alloc_search_def)
  next
    case (block st' r)
    with Some show ?thesis
      using slab_pages_eq [OF block(5)] by (intro some [of st' r]) (simp_all add: alloc_search_def)
  qed
qed

lemma alloc_init_ok:
  assumes inv: "slob_inv l st" and b: "PAGE_SIZE dvd b" "PAGE_SIZE \<le> b" "b \<notin> slab_pages st"
    and c: "0 < sz" "sz \<le> PAGE_SIZE" "good_align align" "align \<le> PAGE_SIZE"
  obtains st' where "alloc_init st b sz align = Some (st', Some b)" "alloc_post l st sz align st' b"
    "slab_pages st' = insert b (slab_pages st)" "same_counters st st'"
proof -
  have vp: "virt_to_page b = b"
    using b(1) page_base_eq [of b b] by (simp add: virt_to_page_def addr_simps PAGE_SIZE_def)
  have fresh: "\<not> PageSlab (page_of st b)" using b(3) by (simp add: slab_pages_def)
  obtain st' where "slob_page_alloc (slob_init_page st b (slob_list_of sz)) b sz align = Some (st', Some b)"
    "alloc_post l st sz align st' b" "same_counters st st'"
    "\<And>q. PageSlab (page_of st' q) \<longleftrightarrow> q = b \<or> PageSlab (page_of st q)"
    by (rule fresh_page_alloc [OF inv b(1,2) fresh c]) (rule that)
  then show ?thesis by (intro that [of st']) (auto simp: alloc_init_def vp slab_pages_def)
qed

text \<open>The section of \<^verbatim>\<open>slob_free\<close> is \<^verbatim>\<open>slob_free\<close> without the counters and the page allocator.\<close>

lemma slob_free_section:
  assumes "\<not> ZERO_OR_NULL_PTR b" "sz \<noteq> 0" "st0 = st\<lparr>used_m := used_m st - word_of_int sz\<rparr>"
  shows "slob_free st b sz =
    (case free_section st0 b sz of
       None \<Rightarrow> None
     | Some (st1, page) \<Rightarrow>
         Some (Inr (if page then (slob_free_pages st1 b 0)\<lparr>pcount := pcount (slob_free_pages st1 b 0) - 1\<rparr> else st1)))"
  using assms(1,2) unfolding assms(3) by (simp add: slob_free_def free_section_def slob_release_page_def Let_def option.map_comp comp_def
      split: option.split)

lemma live_nonnull:
  assumes "slob_inv l st" "(b, sz) \<in> l"
  shows "\<not> ZERO_OR_NULL_PTR b" "0 < sz" "page_base b \<in> slab_pages st" "PAGE_SIZE \<le> page_base b"
proof -
  have live: "0 < sz" "PageSlab (page_of st (page_base b))"
    using assms unfolding slob_inv_def live_inv_def by blast+
  then show "0 < sz" "page_base b \<in> slab_pages st" by (simp_all add: slab_pages_def)
  obtain bs where "page_state st (page_base b) bs"
    using assms(1) live(2) unfolding slob_inv_def page_inv_def by blast
  then show "PAGE_SIZE \<le> page_base b" by (simp add: page_state_def)
  then show "\<not> ZERO_OR_NULL_PTR b"
    using page_base_le [of b] by (simp add: ZERO_OR_NULL_PTR_def ZERO_SIZE_PTR_def PAGE_SIZE_def del: page_base_le)
qed

lemma free_section_ok:
  assumes inv: "slob_inv l st" and x: "(b, sz) \<in> l"
  obtains st1 page where "free_section st b sz = Some (st1, page)" "slob_inv (l - {(b, sz)}) st1"
    "\<And>y. y \<in> live_bytes (l - {(b, sz)}) \<Longrightarrow> mem st1 y = mem st y"
    "slab_pages st1 = (if page then slab_pages st - {page_base b} else slab_pages st)"
proof -
  let ?st = "st\<lparr>used_m := used_m st + word_of_int sz\<rparr>"
  have inv': "slob_inv l ?st" using inv by simp
  obtain st' where st': "slob_free ?st b sz = Some (Inr st')"
    "free_post l ?st b sz (last_on_page l b sz) st'"
    using slob_free_correct [OF inv' x] by blast
  have "slob_free ?st b sz =
    (case free_section st b sz of
       None \<Rightarrow> None
     | Some (st1, page) \<Rightarrow>
         Some (Inr (if page then (slob_free_pages st1 b 0)\<lparr>pcount := pcount (slob_free_pages st1 b 0) - 1\<rparr> else st1)))"
    using live_nonnull [OF inv x] by (intro slob_free_section) simp_all
  then obtain st1 page where sec: "free_section st b sz = Some (st1, page)"
    and eq: "st' = (if page then (slob_free_pages st1 b 0)\<lparr>pcount := pcount (slob_free_pages st1 b 0) - 1\<rparr> else st1)"
    using st'(1) by (auto split: option.splits)
  have keep: "released st1 = released st"
  proof (cases "\<not> page \<and> slob_page_free st (page_base b)")
    case True
    then have flag: "PageSlobFree (page_of st (page_base b))" by (simp add: slob_page_free_def)
    obtain st2 where "slob_reinsert st (page_base b) b (word_of_int (SLOB_UNITS sz)) = Some st2"
      "slob_inv (l - {(b, sz)}) st2" "same_counters st st2" "\<And>q. PageSlab (page_of st2 q) = PageSlab (page_of st q)"
      "\<And>y. y \<in> live_bytes (l - {(b, sz)}) \<Longrightarrow> mem st2 y = mem st y"
      by (rule reinsert_inv [OF inv x flag]) (rule that)
    then show ?thesis using sec True
      by (auto simp: free_section_def Let_def virt_to_page_def addr_simps same_counters_def split: if_splits)
  next
    case False
    then show ?thesis using sec
      by (auto simp: free_section_def Let_def slob_first_free_def put_page_def set_slob_page_free_def
          clear_slob_page_free_def virt_to_page_def addr_simps split: if_splits)
  qed
  have rel: "page = last_on_page l b sz"
    using st'(2) keep unfolding eq by (auto simp: free_post_def slob_free_pages_def split: if_splits)
  have same: "slob_inv (l - {(b, sz)}) st' = slob_inv (l - {(b, sz)}) st1" "mem st' = mem st1" "page_of st' = page_of st1"
    unfolding eq by (auto simp: slob_free_pages_def)
  show ?thesis
    using st'(2) rel same by (intro that [OF sec]) (auto simp: free_post_def slab_pages_def)
qed

subsection \<open>Objects and pages change hands\<close>

lemma go_simps [simp]:
  "sl (go k c s) = sl s" "cpus (go k c s) = (cpus s)(k := c)" "taken (go k c s) = taken s"
  "objs (go k c s) = objs s" "owned (go k c s) = owned s" "crashed (go k c s) = crashed s"
  by (simp_all add: go_def)

lemma objects_go:
  "objects_ok s \<Longrightarrow> holds c = holds (cpus s k) \<Longrightarrow> objs t = objs s \<Longrightarrow> owned t = owned s \<Longrightarrow> cpus t = cpus s \<Longrightarrow>
   objects_ok (go k c t)"
  unfolding objects_ok_def by (auto split: if_splits)

lemma objects_new:
  assumes "objects_ok s" "x \<notin> objs s" "holds c = Some x"
    "objs t = insert x (objs s)" "owned t = owned s" "cpus t = cpus s"
  shows "objects_ok (go k c t)"
  using assms unfolding objects_ok_def by (cases x) (auto split: if_splits)

lemma objects_return:
  assumes "objects_ok s" "holds (cpus s k) = Some x" "holds c = None"
    "objs t = objs s" "owned t = insert x (owned s)" "cpus t = cpus s"
  shows "objects_ok (go k c t)"
  using assms unfolding objects_ok_def by (cases x) (auto split: if_splits)

lemma objects_take:
  assumes "objects_ok s" "x \<in> owned s" "holds c = Some x"
    "objs t = objs s" "owned t = owned s - {x}" "cpus t = cpus s"
  shows "objects_ok (go k c t)"
  using assms unfolding objects_ok_def by (cases x) (auto split: if_splits)

lemma objects_gone:
  assumes "objects_ok s" "holds (cpus s k) = Some x" "holds c = None"
    "objs t = objs s - {x}" "owned t = owned s" "cpus t = cpus s"
  shows "objects_ok (go k c t)"
  using assms unfolding objects_ok_def by (cases x) (auto split: if_splits)

lemma pages_go:
  "pages_ok s \<Longrightarrow> has_page c = has_page (cpus s k) \<Longrightarrow> slab_pages (sl t) = slab_pages (sl s) \<Longrightarrow> taken t = taken s \<Longrightarrow>
   cpus t = cpus s \<Longrightarrow> pages_ok (go k c t)"
  unfolding pages_ok_def by (auto split: if_splits)

lemma pages_new:
  assumes "pages_ok s" "b \<notin> taken s" "has_page c = Some b" "PAGE_SIZE dvd b" "PAGE_SIZE \<le> b"
    "slab_pages (sl t) = slab_pages (sl s)" "taken t = insert b (taken s)" "cpus t = cpus s"
  shows "pages_ok (go k c t)"
  using assms unfolding pages_ok_def by (auto split: if_splits)

lemma pages_slab:
  assumes "pages_ok s" "has_page (cpus s k) = Some b" "has_page c = None"
    "slab_pages (sl t) = insert b (slab_pages (sl s))" "taken t = taken s" "cpus t = cpus s"
  shows "pages_ok (go k c t)"
  using assms unfolding pages_ok_def by (auto split: if_splits)

lemma pages_unslab:
  assumes "pages_ok s" "b \<in> slab_pages (sl s)" "has_page c = Some b" "PAGE_SIZE dvd b" "PAGE_SIZE \<le> b"
    "slab_pages (sl t) = slab_pages (sl s) - {b}" "taken t = taken s" "cpus t = cpus s"
  shows "pages_ok (go k c t)"
  using assms unfolding pages_ok_def by (auto split: if_splits)

lemma pages_gone:
  assumes "pages_ok s" "has_page (cpus s k) = Some b" "has_page c = None"
    "slab_pages (sl t) = slab_pages (sl s)" "taken t = taken s - {b}" "cpus t = cpus s"
  shows "pages_ok (go k c t)"
  using assms unfolding pages_ok_def by (auto split: if_splits)

lemma calls_go:
  "calls_ok s \<Longrightarrow> calls c = None \<or> calls c = calls (cpus s k) \<or> (\<exists>d. calls c = Some d \<and> call_ok d) \<Longrightarrow>
   cpus t = cpus s \<Longrightarrow> calls_ok (go k c t)"
  unfolding calls_ok_def by (auto split: if_splits)

lemma slab_pages_simps [simp]:
  "slab_pages (st\<lparr>mem := m\<rparr>) = slab_pages st" "slab_pages (st\<lparr>free := x\<rparr>) = slab_pages st"
  "slab_pages (st\<lparr>pcount := x\<rparr>) = slab_pages st" "slab_pages (st\<lparr>claimed_m := x\<rparr>) = slab_pages st"
  "slab_pages (st\<lparr>used_m := x\<rparr>) = slab_pages st" "slab_pages (slob_free_pages st b n) = slab_pages st"
  by (simp_all add: slab_pages_def slob_free_pages_def)

lemma smp_invD:
  assumes "smp_inv s"
  shows "slob_inv (objs s) (sl s)" "objects_ok s" "pages_ok s" "calls_ok s" "\<not> crashed s"
  using assms unfolding smp_inv_def by blast+

text \<open>A step that only moves the processor on or changes a counter.\<close>

lemma smp_move:
  assumes "smp_inv s" "holds c = holds (cpus s k)" "has_page c = has_page (cpus s k)"
    "calls c = None \<or> calls c = calls (cpus s k) \<or> (\<exists>d. calls c = Some d \<and> call_ok d)"
    "slob_inv (objs s) st" "slab_pages st = slab_pages (sl s)"
  shows "smp_inv (go k c (s\<lparr>sl := st\<rparr>))"
  unfolding smp_inv_def
  using assms(5,6) objects_go [OF smp_invD(2) [OF assms(1)] assms(2), of "s\<lparr>sl := st\<rparr>"]
    pages_go [OF smp_invD(3) [OF assms(1)] assms(3), of "s\<lparr>sl := st\<rparr>"]
    calls_go [OF smp_invD(4) [OF assms(1)] assms(4), of "s\<lparr>sl := st\<rparr>"] smp_invD(5) [OF assms(1)]
  by simp

lemma smp_move0:
  assumes "smp_inv s" "holds c = holds (cpus s k)" "has_page c = has_page (cpus s k)"
    "calls c = None \<or> calls c = calls (cpus s k) \<or> (\<exists>d. calls c = Some d \<and> call_ok d)"
  shows "smp_inv (go k c s)"
  using smp_move [OF assms smp_invD(1) [OF assms(1)]] by simp

lemma keeps_owned_mem: "mem (sl t) = mem (sl s) \<Longrightarrow> keeps_owned s t"
  by (simp add: keeps_owned_def)

lemma live_bytes_mono: "A \<subseteq> B \<Longrightarrow> live_bytes A \<subseteq> live_bytes B"
  by (auto simp: live_bytes_def)

lemma keeps_owned_objs:
  assumes "\<And>y. y \<in> live_bytes X \<Longrightarrow> mem (sl t) y = mem (sl s) y" "owned s \<inter> owned t \<subseteq> X"
  shows "keeps_owned s t"
  using assms live_bytes_mono [OF assms(2)] unfolding keeps_owned_def by blast

lemma live_bytes_disjoint:
  assumes "slob_inv l st" "x \<in> l" "X \<subseteq> l" "x \<notin> X"
  shows "live_range x \<inter> live_bytes X = {}"
proof -
  have dis: "\<forall>x\<in>l. \<forall>y\<in>l. x \<noteq> y \<longrightarrow> live_range x \<inter> live_range y = {}"
    using assms(1) unfolding slob_inv_def live_inv_def by (elim conjE)
  have "live_range x \<inter> live_range y = {}" if "y \<in> X" for y
  proof -
    have "y \<in> l" "x \<noteq> y" using that assms(3,4) by auto
    then show ?thesis using dis assms(2) by blast
  qed
  then show ?thesis by (auto simp: live_bytes_def)
qed

subsection \<open>Steps of an allocation\<close>

lemma smp_new_object:
  assumes "smp_inv s" "holds c = Some (r, sz)" "calls c = None" "0 < sz" "alloc_post (objs s) (sl s) sz al st r"
    and pages: "pages_ok (go k c (s\<lparr>sl := st', objs := insert (r, sz) (objs s)\<rparr>))"
    and st': "slob_inv (insert (r, sz) (objs s)) st' = slob_inv (insert (r, sz) (objs s)) st" "mem st' = mem st"
  shows "smp_inv (go k c (s\<lparr>sl := st', objs := insert (r, sz) (objs s)\<rparr>)) \<and>
    keeps_owned s (go k c (s\<lparr>sl := st', objs := insert (r, sz) (objs s)\<rparr>))"
proof -
  let ?t = "go k c (s\<lparr>sl := st', objs := insert (r, sz) (objs s)\<rparr>)"
  note inv = smp_invD [OF assms(1)] and new = alloc_post_new [OF assms(5,4)]
  have "objects_ok ?t" by (rule objects_new [OF inv(2) new(1) assms(2)]) simp_all
  moreover have "calls_ok ?t" by (rule calls_go [OF inv(4)]) (simp_all add: assms(3))
  ultimately have "smp_inv ?t" using pages new(2) st'(1) inv(5) by (simp add: smp_inv_def)
  moreover have "keeps_owned s ?t"
    using assms(5) inv(2) st'(2) by (intro keeps_owned_objs [of "objs s"]) (auto simp: alloc_post_def objects_ok_def)
  ultimately show ?thesis by blast
qed

lemma smp_search:
  assumes inv: "smp_inv s" and c: "cpus s k = A_search c"
    and step: "alloc_search env (sl s) (a_size c) (a_align c) (a_node c) = Some (st, p)"
  shows "case p of
      None \<Rightarrow> smp_inv (go k (A_page c) (s\<lparr>sl := st\<rparr>)) \<and> keeps_owned s (go k (A_page c) (s\<lparr>sl := st\<rparr>))
    | Some r \<Rightarrow> smp_inv (go k (A_zero c r) (s\<lparr>sl := st, objs := insert (r, a_size c) (objs s)\<rparr>)) \<and>
        keeps_owned s (go k (A_zero c r) (s\<lparr>sl := st, objs := insert (r, a_size c) (objs s)\<rparr>))"
proof -
  have "calls (cpus s k) = Some c" using c by simp
  then have ok: "call_ok c" using smp_invD(4) [OF inv] unfolding calls_ok_def by blast
  then have sz: "0 < a_size c" "good_align (a_align c)" by (simp_all add: call_ok_def)
  show ?thesis
  proof (cases rule: alloc_search_cases [OF smp_invD(1) [OF inv] sz, of env "a_node c", case_names none some])
    case none
    then have st: "st = slob_count_free (sl s)" "p = None" using step by simp_all
    then show ?thesis
      using c smp_move [OF inv, of "A_page c" k st] smp_invD(1) [OF inv] by (auto intro: keeps_owned_mem)
  next
    case (some st1 r)
    then have st: "st = slob_count_free st1" "p = Some r" using step by simp_all
    let ?t = "s\<lparr>sl := slob_count_free st1, objs := insert (r, a_size c) (objs s)\<rparr>"
    have "pages_ok (go k (A_zero c r) ?t)"
      by (rule pages_go [OF smp_invD(3) [OF inv]]) (simp_all add: c some(3))
    then have "smp_inv (go k (A_zero c r) ?t) \<and> keeps_owned s (go k (A_zero c r) ?t)"
      by (intro smp_new_object [OF inv _ _ sz(1) some(2)]) simp_all
    then show ?thesis using st by simp
  qed
qed

lemma smp_carve:
  assumes inv: "smp_inv s" and c: "cpus s k = A_init c b"
  obtains st where "alloc_init (sl s) b (a_size c) (a_align c) = Some (st, Some b)" "same_counters (sl s) st"
    "smp_inv (go k (A_pcount_ld c b) (s\<lparr>sl := st, objs := insert (b, a_size c) (objs s)\<rparr>))"
    "keeps_owned s (go k (A_pcount_ld c b) (s\<lparr>sl := st, objs := insert (b, a_size c) (objs s)\<rparr>))"
proof -
  have "calls (cpus s k) = Some c" using c by simp
  then have ok: "call_ok c" using smp_invD(4) [OF inv] unfolding calls_ok_def by blast
  have page: "has_page (cpus s k) = Some b" using c by simp
  then have b: "PAGE_SIZE dvd b" "PAGE_SIZE \<le> b" "b \<notin> slab_pages (sl s)"
    using smp_invD(3) [OF inv] unfolding pages_ok_def by blast+
  have sz: "0 < a_size c" "a_size c \<le> PAGE_SIZE" "good_align (a_align c)" "a_align c \<le> PAGE_SIZE"
    using ok by (simp_all add: call_ok_def)
  obtain st where st: "alloc_init (sl s) b (a_size c) (a_align c) = Some (st, Some b)"
    "alloc_post (objs s) (sl s) (a_size c) (a_align c) st b" "slab_pages st = insert b (slab_pages (sl s))"
    "same_counters (sl s) st"
    by (rule alloc_init_ok [OF smp_invD(1) [OF inv] b sz])
  let ?t = "s\<lparr>sl := st, objs := insert (b, a_size c) (objs s)\<rparr>"
  have "pages_ok (go k (A_pcount_ld c b) ?t)"
    by (rule pages_slab [OF smp_invD(3) [OF inv] page]) (simp_all add: st(3))
  then have "smp_inv (go k (A_pcount_ld c b) ?t) \<and> keeps_owned s (go k (A_pcount_ld c b) ?t)"
    by (intro smp_new_object [OF inv _ _ sz(1) st(2)]) simp_all
  then show ?thesis using that st(1,4) by blast
qed

lemma smp_zero:
  assumes inv: "smp_inv s" and c: "cpus s k = A_zero c r"
  shows "smp_inv (go k (A_used_ld c r) (s\<lparr>sl := (sl s)\<lparr>mem := memset0 (mem (sl s)) r (a_size c)\<rparr>\<rparr>)) \<and>
    keeps_owned s (go k (A_used_ld c r) (s\<lparr>sl := (sl s)\<lparr>mem := memset0 (mem (sl s)) r (a_size c)\<rparr>\<rparr>))"
proof -
  let ?x = "(r, a_size c)" and ?m = "memset0 (mem (sl s)) r (a_size c)"
  have "holds (cpus s k) = Some ?x" using c by simp
  then have x: "?x \<in> objs s" "?x \<notin> owned s" and sub: "owned s \<subseteq> objs s"
    using smp_invD(2) [OF inv] unfolding objects_ok_def by blast+
  have out: "?m y = mem (sl s) y" if "y \<notin> live_range ?x" for y
    using that object_in_range [of r "a_size c"] by (auto simp: memset0_def)
  have "slob_inv (objs s) ((sl s)\<lparr>mem := ?m\<rparr>)"
    using x(1) by (intro slob_inv_write [OF smp_invD(1) [OF inv]] out) (auto simp: live_bytes_def)
  moreover have "live_range ?x \<inter> live_bytes (owned s) = {}"
    by (rule live_bytes_disjoint [OF smp_invD(1) [OF inv] x(1) sub x(2)])
  then have "keeps_owned s (go k (A_used_ld c r) (s\<lparr>sl := (sl s)\<lparr>mem := ?m\<rparr>\<rparr>))"
    using out by (auto simp: keeps_owned_def)
  ultimately show ?thesis using smp_move [OF inv, of "A_used_ld c r" k] c by simp
qed

lemma alloc_step_inv:
  assumes "alloc_step env k s t" "smp_inv s"
  shows "smp_inv t \<and> keeps_owned s t"
  using assms
proof (cases rule: alloc_step.cases)
  case (call c)
  then show ?thesis using smp_move [OF assms(2), of "A_search c" k] smp_invD(1) [OF assms(2)]
    by (auto intro: keeps_owned_mem)
next
  case (found c st r)
  then show ?thesis using smp_search [OF assms(2) found(2,3)] by simp
next
  case (full c st)
  then show ?thesis using smp_search [OF assms(2) full(2,3)] by simp
next
  case (hang c)
  have "calls (cpus s k) = Some c" using hang by simp
  then have "call_ok c" using smp_invD(4) [OF assms(2)] unfolding calls_ok_def by blast
  then have "0 < a_size c" "good_align (a_align c)" by (simp_all add: call_ok_def)
  then show ?thesis
    using hang by (elim alloc_search_cases [OF smp_invD(1) [OF assms(2)], of "a_size c" "a_align c" env "a_node c"]) auto
next
  case (new_page c b)
  let ?t = "s\<lparr>taken := insert b (taken s)\<rparr>"
  have "objects_ok t" unfolding new_page(1)
    by (rule objects_go [OF smp_invD(2) [OF assms(2)]]) (simp_all add: new_page(2))
  moreover have "pages_ok t" unfolding new_page(1)
    by (rule pages_new [OF smp_invD(3) [OF assms(2)] new_page(3)]) (simp_all add: new_page(4,5))
  moreover have "calls_ok t" unfolding new_page(1)
    by (rule calls_go [OF smp_invD(4) [OF assms(2)]]) (simp_all add: new_page(2))
  ultimately show ?thesis
    using new_page(1) smp_invD(1,5) [OF assms(2)] by (auto simp: smp_inv_def intro: keeps_owned_mem)
next
  case (carve c b st r)
  obtain st1 where "alloc_init (sl s) b (a_size c) (a_align c) = Some (st1, Some b)" "same_counters (sl s) st1"
    "smp_inv (go k (A_pcount_ld c b) (s\<lparr>sl := st1, objs := insert (b, a_size c) (objs s)\<rparr>))"
    "keeps_owned s (go k (A_pcount_ld c b) (s\<lparr>sl := st1, objs := insert (b, a_size c) (objs s)\<rparr>))"
    by (rule smp_carve [OF assms(2) carve(2)])
  then show ?thesis using carve by simp
next
  case (bug c b)
  then show ?thesis using smp_carve [OF assms(2) bug(2)] by metis
next
  case (zero c r)
  then show ?thesis using smp_zero [OF assms(2) zero(2)] smp_move0 [OF assms(2), of "A_used_ld c r" k]
    by (auto intro: keeps_owned_mem)
next
  case (used_st c r x)
  let ?t = "s\<lparr>sl := (sl s)\<lparr>used_m := x + word_of_int (a_size c)\<rparr>, owned := insert (r, a_size c) (owned s)\<rparr>"
  have "holds (cpus s k) = Some (r, a_size c)" using used_st by simp
  then have "objects_ok t" unfolding used_st(1) by (rule objects_return [OF smp_invD(2) [OF assms(2)]]) simp_all
  moreover have "pages_ok t" unfolding used_st(1)
    by (rule pages_go [OF smp_invD(3) [OF assms(2)]]) (simp_all add: used_st(2))
  moreover have "calls_ok t" unfolding used_st(1) by (rule calls_go [OF smp_invD(4) [OF assms(2)]]) simp_all
  ultimately show ?thesis
    using used_st(1) smp_invD(1,5) [OF assms(2)] by (auto simp: smp_inv_def intro: keeps_owned_mem)
qed (use smp_move [OF assms(2)] smp_move0 [OF assms(2)] smp_invD(1) [OF assms(2)] in \<open>auto intro!: keeps_owned_mem\<close>)

subsection \<open>Steps of a release\<close>

lemma smp_give_back:
  assumes inv: "smp_inv s" and c: "cpus s k = F_lock b sz"
  obtains st page where "free_section (sl s) b sz = Some (st, page)"
    "smp_inv (go k (if page then F_pages b else Idle) (s\<lparr>sl := st, objs := objs s - {(b, sz)}\<rparr>))"
    "keeps_owned s (go k (if page then F_pages b else Idle) (s\<lparr>sl := st, objs := objs s - {(b, sz)}\<rparr>))"
proof -
  have h: "holds (cpus s k) = Some (b, sz)" using c by simp
  then have x: "(b, sz) \<in> objs s" "(b, sz) \<notin> owned s" and sub: "owned s \<subseteq> objs s"
    using smp_invD(2) [OF inv] unfolding objects_ok_def by blast+
  obtain st page where st: "free_section (sl s) b sz = Some (st, page)" "slob_inv (objs s - {(b, sz)}) st"
    "\<And>y. y \<in> live_bytes (objs s - {(b, sz)}) \<Longrightarrow> mem st y = mem (sl s) y"
    "slab_pages st = (if page then slab_pages (sl s) - {page_base b} else slab_pages (sl s))"
    by (rule free_section_ok [OF smp_invD(1) [OF inv] x(1)]) (rule that)
  let ?c = "if page then F_pages b else Idle"
  let ?t = "go k ?c (s\<lparr>sl := st, objs := objs s - {(b, sz)}\<rparr>)"
  have "objects_ok ?t" by (rule objects_gone [OF smp_invD(2) [OF inv] h]) simp_all
  moreover have "pages_ok ?t"
  proof (cases page)
    case True
    then show ?thesis using st(4) live_nonnull(3,4) [OF smp_invD(1) [OF inv] x(1)]
      by (intro pages_unslab [OF smp_invD(3) [OF inv], of "page_base b"]) (simp_all add: page_base_dvd)
  next
    case False
    then show ?thesis using st(4) c by (intro pages_go [OF smp_invD(3) [OF inv]]) simp_all
  qed
  moreover have "calls_ok ?t" by (rule calls_go [OF smp_invD(4) [OF inv]]) simp_all
  ultimately have "smp_inv ?t" using st(2) smp_invD(5) [OF inv] by (simp add: smp_inv_def)
  moreover have "keeps_owned s ?t"
    using st(3) x(2) sub by (intro keeps_owned_objs [of "objs s - {(b, sz)}"]) auto
  ultimately show ?thesis using that st(1) by blast
qed

lemma free_step_inv:
  assumes "free_step k s t" "smp_inv s"
  shows "smp_inv t \<and> keeps_owned s t"
  using assms
proof (cases rule: free_step.cases)
  case (drop b sz)
  have "objects_ok t" unfolding drop(1) by (rule objects_take [OF smp_invD(2) [OF assms(2)] drop(3)]) simp_all
  moreover have "pages_ok t" unfolding drop(1)
    by (rule pages_go [OF smp_invD(3) [OF assms(2)]]) (simp_all add: drop(2))
  moreover have "calls_ok t" unfolding drop(1) by (rule calls_go [OF smp_invD(4) [OF assms(2)]]) simp_all
  ultimately show ?thesis
    using drop(1) smp_invD(1,5) [OF assms(2)] by (auto simp: smp_inv_def intro: keeps_owned_mem)
next
  case (give_back b sz st page)
  obtain st1 page1 where "free_section (sl s) b sz = Some (st1, page1)"
    "smp_inv (go k (if page1 then F_pages b else Idle) (s\<lparr>sl := st1, objs := objs s - {(b, sz)}\<rparr>))"
    "keeps_owned s (go k (if page1 then F_pages b else Idle) (s\<lparr>sl := st1, objs := objs s - {(b, sz)}\<rparr>))"
    by (rule smp_give_back [OF assms(2) give_back(2)])
  then show ?thesis using give_back by simp
next
  case (stuck b sz)
  obtain st1 page1 where "free_section (sl s) b sz = Some (st1, page1)"
    "smp_inv (go k (if page1 then F_pages b else Idle) (s\<lparr>sl := st1, objs := objs s - {(b, sz)}\<rparr>))"
    "keeps_owned s (go k (if page1 then F_pages b else Idle) (s\<lparr>sl := st1, objs := objs s - {(b, sz)}\<rparr>))"
    by (rule smp_give_back [OF assms(2) stuck(2)])
  then show ?thesis using stuck by simp
next
  case (pages b)
  have "has_page (cpus s k) = Some (page_base b)" using pages by simp
  then have "pages_ok t" unfolding pages(1) by (rule pages_gone [OF smp_invD(3) [OF assms(2)]]) simp_all
  moreover have "objects_ok t" unfolding pages(1)
    by (rule objects_go [OF smp_invD(2) [OF assms(2)]]) (simp_all add: pages(2))
  moreover have "calls_ok t" unfolding pages(1) by (rule calls_go [OF smp_invD(4) [OF assms(2)]]) simp_all
  moreover have "slob_inv (objs s) (slob_free_pages (sl s) b 0)"
    using smp_invD(1) [OF assms(2)] by (simp add: slob_free_pages_def)
  ultimately show ?thesis using pages(1) smp_invD(5) [OF assms(2)]
    by (auto simp: smp_inv_def slob_free_pages_def intro!: keeps_owned_mem)
qed (use smp_move [OF assms(2)] smp_move0 [OF assms(2)] smp_invD(1) [OF assms(2)] in \<open>auto intro!: keeps_owned_mem\<close>)

lemma smp_step_inv: "smp_step env s t \<Longrightarrow> smp_inv s \<Longrightarrow> smp_inv t \<and> keeps_owned s t"
  unfolding smp_step_def using alloc_step_inv free_step_inv by blast

lemma owner_write_inv:
  assumes "owner_write s t" "smp_inv s"
  shows "smp_inv t"
proof -
  obtain b n x v where w: "(b, n) \<in> owned s" "b \<le> x" "x < b + n" "t = s\<lparr>sl := slob_poke (sl s) x v\<rparr>"
    using assms(1) unfolding owner_write_def by blast
  then have "(b, n) \<in> objs s" using smp_invD(2) [OF assms(2)] unfolding objects_ok_def by blast
  then have "slob_inv (objs s) (slob_poke (sl s) x v)"
    using slob_poke_inv [OF smp_invD(1) [OF assms(2)]] w(2,3) by blast
  then show ?thesis using assms(2) w(4)
    by (auto simp: smp_inv_def objects_ok_def pages_ok_def calls_ok_def slob_poke_def)
qed

interpretation smp: invariant_system smp_init "smp_run_step env" smp_inv for env
proof
  show "smp_inv s" if "smp_init s" for s
    using that slob_boot_inv
    by (auto simp: smp_init_def smp_inv_def objects_ok_def pages_ok_def calls_ok_def slab_pages_def slob_boot_def)
  show "smp_inv t" if "smp_inv s" "smp_run_step env s t" for s t
    using that smp_step_inv owner_write_inv unfolding smp_run_step_def by blast
qed

subsection \<open>One processor by itself\<close>

text \<open>From the object to the return of the call.\<close>

lemma alone_finish:
  assumes "cpus s k = A_zero c r"
  shows "\<exists>t. run (alloc_step env k) s t \<and> sl t = slob_alloc_finish env (sl s) (a_size c) (a_gfp c) r \<and>
    cpus t = (cpus s)(k := Idle) \<and> taken t = taken s \<and> objs t = objs s \<and>
    owned t = insert (r, a_size c) (owned s)"
proof -
  let ?a = "go k (A_used_ld c r)
      (s\<lparr>sl := (if a_gfp c AND GFP_ZERO env \<noteq> 0
               then (sl s)\<lparr>mem := memset0 (mem (sl s)) r (a_size c)\<rparr> else sl s)\<rparr>)"
  let ?b = "go k (A_used_st c r (used_m (sl ?a))) ?a"
  let ?c = "go k Idle (?b\<lparr>sl := (sl ?b)\<lparr>used_m := used_m (sl ?a) + word_of_int (a_size c)\<rparr>,
                         owned := insert (r, a_size c) (owned ?b)\<rparr>)"
  have "alloc_step env k s ?a" by (rule alloc_step.zero [OF assms])
  moreover have "alloc_step env k ?a ?b" by (rule alloc_step.used_ld) simp
  moreover have "alloc_step env k ?b ?c" by (rule alloc_step.used_st) simp
  ultimately have "run (alloc_step env k) s ?c"
    by (meson run.run_more [of "alloc_step env k"] run.run_refl [of "alloc_step env k"])
  moreover have "sl ?c = slob_alloc_finish env (sl s) (a_size c) (a_gfp c) r"
    by (simp add: slob_alloc_finish_def Let_def)
  ultimately show ?thesis by (intro exI [of _ ?c]) simp
qed

text \<open>From the fresh page to the object, with the page counted.\<close>

lemma alone_new:
  assumes "cpus s k = A_page c" "b \<notin> taken s" "PAGE_SIZE dvd b" "PAGE_SIZE \<le> b"
    "alloc_init (sl s) b (a_size c) (a_align c) = Some (st, Some r)"
  shows "\<exists>t. run (alloc_step env k) s t \<and>
    sl t = st\<lparr>pcount := pcount st + 1, claimed_m := claimed_m st + word_of_int PAGE_SIZE\<rparr> \<and>
    cpus t = (cpus s)(k := A_zero c r) \<and> taken t = insert b (taken s) \<and>
    objs t = insert (r, a_size c) (objs s) \<and> owned t = owned s"
proof -
  let ?a = "go k (A_init c b) (s\<lparr>taken := insert b (taken s)\<rparr>)"
  let ?b = "go k (A_pcount_ld c r) (?a\<lparr>sl := st, objs := insert (r, a_size c) (objs ?a)\<rparr>)"
  let ?c = "go k (A_pcount_st c r (pcount (sl ?b))) ?b"
  let ?d = "go k (A_claimed_ld c r) (?c\<lparr>sl := (sl ?c)\<lparr>pcount := pcount (sl ?b) + 1\<rparr>\<rparr>)"
  let ?e = "go k (A_claimed_st c r (claimed_m (sl ?d))) ?d"
  let ?f = "go k (A_zero c r) (?e\<lparr>sl := (sl ?e)\<lparr>claimed_m := claimed_m (sl ?d) + word_of_int PAGE_SIZE\<rparr>\<rparr>)"
  have "alloc_step env k s ?a" by (rule alloc_step.new_page [OF assms(1-4)])
  moreover have "alloc_step env k ?a ?b" by (rule alloc_step.carve [where b = b]) (simp_all add: assms(5))
  moreover have "alloc_step env k ?b ?c" by (rule alloc_step.pcount_ld) simp
  moreover have "alloc_step env k ?c ?d" by (rule alloc_step.pcount_st) simp
  moreover have "alloc_step env k ?d ?e" by (rule alloc_step.claimed_ld) simp
  moreover have "alloc_step env k ?e ?f" by (rule alloc_step.claimed_st) simp
  ultimately have "run (alloc_step env k) s ?f"
    by (meson run.run_more [of "alloc_step env k"] run.run_refl [of "alloc_step env k"])
  then show ?thesis by (intro exI [of _ ?f]) simp
qed

lemma alone_search:
  assumes "cpus s k = Idle" "call_ok c"
    and a: "alloc_search env ((sl s)\<lparr>free := 0\<rparr>) (a_size c) (a_align c) (a_node c) = Some (st, x)"
  shows "\<exists>t. run (alloc_step env k) s t \<and> sl t = st \<and> taken t = taken s \<and> owned t = owned s \<and>
    (case x of None \<Rightarrow> cpus t = (cpus s)(k := A_page c) \<and> objs t = objs s
     | Some r \<Rightarrow> cpus t = (cpus s)(k := A_zero c r) \<and> objs t = insert (r, a_size c) (objs s))"
proof -
  let ?a = "go k (A_search c) (s\<lparr>sl := (sl s)\<lparr>free := 0\<rparr>\<rparr>)"
  let ?b = "case x of None \<Rightarrow> go k (A_page c) (?a\<lparr>sl := st\<rparr>)
            | Some r \<Rightarrow> go k (A_zero c r) (?a\<lparr>sl := st, objs := insert (r, a_size c) (objs ?a)\<rparr>)"
  have "alloc_step env k s ?a" by (rule alloc_step.call [OF assms(1,2)])
  moreover have "alloc_step env k ?a ?b"
    using a alloc_step.full [of ?a k c env st] alloc_step.found [of ?a k c env st]
    by (simp split: option.split)
  ultimately have "run (alloc_step env k) s ?b"
    by (meson run.run_more [of "alloc_step env k"] run.run_refl [of "alloc_step env k"])
  then show ?thesis by (intro exI [of _ ?b]) (simp split: option.split)
qed

lemma slob_alloc_sections:
  "slob_alloc env None st sz g al node =
    (case alloc_search env (st\<lparr>free := 0\<rparr>) sz al node of
       None \<Rightarrow> None
     | Some (st1, Some r) \<Rightarrow> Some (Inr (slob_alloc_finish env st1 sz g r, Some r))
     | Some (st1, None) \<Rightarrow>
         (case slob_new_pages env (g AND NOT (GFP_ZERO env)) 0 node of
            None \<Rightarrow> Some (Inr (st1, None))
          | Some b \<Rightarrow>
              (case alloc_init st1 b sz al of
                 None \<Rightarrow> None
               | Some (st2, None) \<Rightarrow> Some (Inl BUG_ON)
               | Some (st2, Some r) \<Rightarrow>
                   Some (Inr (slob_alloc_finish env (st2\<lparr>pcount := pcount st2 + 1,
                     claimed_m := claimed_m st2 + word_of_int PAGE_SIZE\<rparr>) sz g r, Some r)))))"
  by (simp add: slob_alloc_def alloc_search_def alloc_init_def slob_alloc_new_def Let_def split: option.split)

lemma alone_alloc:
  assumes k: "cpus s k = Idle" "call_ok c"
    and res: "slob_alloc env None (sl s) (a_size c) (a_gfp c) (a_align c) (a_node c) = Some (Inr (st, x))"
    and new: "pred_option (page_unused s) (slob_new_pages env (a_gfp c AND NOT (GFP_ZERO env)) 0 (a_node c))"
  shows "\<exists>t. run (alloc_step env k) s t \<and> sl t = st \<and> cpus t = cpus s \<and>
    owned t = (case x of None \<Rightarrow> owned s | Some r \<Rightarrow> insert (r, a_size c) (owned s))"
proof -
  note tr = run_trans [of "alloc_step env k"]
  obtain st1 y where a: "alloc_search env ((sl s)\<lparr>free := 0\<rparr>) (a_size c) (a_align c) (a_node c) = Some (st1, y)"
    using res unfolding slob_alloc_sections by (auto split: option.splits)
  obtain s1 where s1: "run (alloc_step env k) s s1" "sl s1 = st1" "taken s1 = taken s" "owned s1 = owned s"
    "case y of None \<Rightarrow> cpus s1 = (cpus s)(k := A_page c) \<and> objs s1 = objs s
     | Some r \<Rightarrow> cpus s1 = (cpus s)(k := A_zero c r) \<and> objs s1 = insert (r, a_size c) (objs s)"
    using alone_search [OF k a] by blast
  have idle: "(cpus s)(k := Idle) = cpus s" using k(1) by auto
  show ?thesis
  proof (cases y)
    case (Some r)
    obtain t where "run (alloc_step env k) s1 t" "sl t = slob_alloc_finish env (sl s1) (a_size c) (a_gfp c) r"
      "cpus t = (cpus s1)(k := Idle)" "owned t = insert (r, a_size c) (owned s1)"
      using alone_finish [of s1 k c r env] s1(5) Some by auto
    then show ?thesis using tr [OF s1(1)] s1 Some idle res a
      by (intro exI [of _ t]) (auto simp: slob_alloc_sections)
  next
    case None
    show ?thesis
    proof (cases "slob_new_pages env (a_gfp c AND NOT (GFP_ZERO env)) 0 (a_node c)")
      case no: None
      have "run (alloc_step env k) s1 (go k Idle s1)"
        by (rule run_one, rule alloc_step.no_page [where c = c]) (use s1(5) None in simp)
      then show ?thesis using tr [OF s1(1)] s1 None no idle res a
        by (intro exI [of _ "go k Idle s1"]) (auto simp: slob_alloc_sections)
    next
      case (Some b)
      have b: "b \<notin> taken s1" "PAGE_SIZE dvd b" "PAGE_SIZE \<le> b" using new Some s1(3) by (simp_all add: page_unused_def)
      obtain st2 r where i: "alloc_init st1 b (a_size c) (a_align c) = Some (st2, Some r)"
        using res a None Some by (auto simp: slob_alloc_sections split: option.splits)
      obtain s2 where s2: "run (alloc_step env k) s1 s2"
        "sl s2 = st2\<lparr>pcount := pcount st2 + 1, claimed_m := claimed_m st2 + word_of_int PAGE_SIZE\<rparr>"
        "cpus s2 = (cpus s1)(k := A_zero c r)" "owned s2 = owned s1"
        using alone_new [of s1 k c b st2 r env] s1(2,5) None b i by auto
      obtain t where "run (alloc_step env k) s2 t" "sl t = slob_alloc_finish env (sl s2) (a_size c) (a_gfp c) r"
        "cpus t = (cpus s2)(k := Idle)" "owned t = insert (r, a_size c) (owned s2)"
        using alone_finish [of s2 k c r env] s2(3) by auto
      then show ?thesis using tr [OF s1(1)] tr [OF s2(1)] s1 s2 None Some idle res a i
        by (intro exI [of _ t]) (auto simp: slob_alloc_sections)
    qed
  qed
qed

lemma alone_free:
  assumes k: "cpus s k = Idle" "(b, sz) \<in> owned s" and inv: "smp_inv s"
    and res: "slob_free (sl s) b sz = Some (Inr st)"
  shows "\<exists>t. run (free_step k) s t \<and> sl t = st \<and> cpus t = cpus s \<and> owned t = owned s - {(b, sz)}"
proof -
  let ?a = "go k (F_used_ld b sz) (s\<lparr>owned := owned s - {(b, sz)}\<rparr>)"
  let ?b = "go k (F_used_st b sz (used_m (sl ?a))) ?a"
  let ?c = "go k (F_lock b sz) (?b\<lparr>sl := (sl ?b)\<lparr>used_m := used_m (sl ?a) - word_of_int sz\<rparr>\<rparr>)"
  have "(b, sz) \<in> objs s" using smp_invD(2) [OF inv] k(2) unfolding objects_ok_def by blast
  note nz = live_nonnull [OF smp_invD(1) [OF inv] this]
  obtain st1 page where sec: "free_section (sl ?c) b sz = Some (st1, page)"
    and st: "st = (if page then (slob_free_pages st1 b 0)\<lparr>pcount := pcount (slob_free_pages st1 b 0) - 1\<rparr> else st1)"
    using res slob_free_section [OF nz(1) _ refl, of sz "sl s"] nz(2) by (auto split: option.splits)
  let ?d = "go k (if page then F_pages b else Idle) (?c\<lparr>sl := st1, objs := objs ?c - {(b, sz)}\<rparr>)"
  let ?e = "go k F_pcount_ld (?d\<lparr>sl := slob_free_pages (sl ?d) b 0, taken := taken ?d - {page_base b}\<rparr>)"
  let ?f = "go k (F_pcount_st (pcount (sl ?e))) ?e"
  let ?g = "go k Idle (?f\<lparr>sl := (sl ?f)\<lparr>pcount := pcount (sl ?e) - 1\<rparr>\<rparr>)"
  have s1: "free_step k s ?a" by (rule free_step.drop [OF k])
  have s2: "free_step k ?a ?b" by (rule free_step.less_ld) simp
  have s3: "free_step k ?b ?c" by (rule free_step.less_st) simp
  have s4: "free_step k ?c ?d" by (rule free_step.give_back [OF _ sec]) simp
  have s5: "free_step k ?d ?e" if page by (rule free_step.pages) (use that in simp)
  have s6: "free_step k ?e ?f" by (rule free_step.fewer_ld) simp
  have s7: "free_step k ?f ?g" by (rule free_step.fewer_st) simp
  note r = run.run_more [of "free_step k"] and r0 = run.run_refl [of "free_step k"]
  have idle: "(cpus s)(k := Idle) = cpus s" using k(1) by auto
  show ?thesis
  proof (cases page)
    case True
    have "run (free_step k) s ?g"
      by (rule r [OF s1 r [OF s2 r [OF s3 r [OF s4 r [OF s5 [OF True] r [OF s6 r [OF s7 r0]]]]]]])
    then show ?thesis using st True idle by (intro exI [of _ ?g]) simp
  next
    case False
    have "run (free_step k) s ?d" by (rule r [OF s1 r [OF s2 r [OF s3 r [OF s4 r0]]]])
    then show ?thesis using st False idle by (intro exI [of _ ?d]) simp
  qed
qed

subsection \<open>Two processors in the counters\<close>

lemma smp_run_alloc: "run (alloc_step env k) s t \<Longrightarrow> run (smp_run_step env) s t"
proof (induction rule: run.induct)
  case (run_more s t u)
  then have "smp_run_step env s t" unfolding smp_run_step_def smp_step_def by blast
  then show ?case using run_more(3) by (rule run.run_more)
qed (rule run.run_refl)

lemma zero_run:
  assumes "cpus s k = A_zero c r"
  obtains t where "run (smp_run_step env) s t" "cpus t = (cpus s)(k := A_used_ld c r)"
    "used_m (sl t) = used_m (sl s)" "owned t = owned s" "taken t = taken s" "partial (sl t) = partial (sl s)"
  by (rule that [OF smp_run_alloc [OF run_one [of "alloc_step env k", OF alloc_step.zero [OF assms]]]]) simp_all

lemma fresh_run:
  assumes inv: "smp_inv s" and c: "cpus s k = A_page c" and b: "page_unused s b"
  obtains t where "run (smp_run_step env) s t" "cpus t = (cpus s)(k := A_used_ld c b)"
    "used_m (sl t) = used_m (sl s)" "owned t = owned s" "taken t = insert b (taken s)"
proof -
  have b': "b \<notin> taken s" "PAGE_SIZE dvd b" "PAGE_SIZE \<le> b" using b by (simp_all add: page_unused_def)
  have "call_ok c" using smp_invD(4) [OF inv] c unfolding calls_ok_def by (metis calls.simps(2))
  then have c': "0 < a_size c" "a_size c \<le> PAGE_SIZE" "good_align (a_align c)" "a_align c \<le> PAGE_SIZE"
    by (simp_all add: call_ok_def)
  have "b \<notin> slab_pages (sl s)" using smp_invD(3) [OF inv] b'(1) unfolding pages_ok_def by blast
  then obtain st where st: "alloc_init (sl s) b (a_size c) (a_align c) = Some (st, Some b)"
    "same_counters (sl s) st"
    using alloc_init_ok [OF smp_invD(1) [OF inv] b'(2,3) _ c'] by metis
  obtain u where u: "run (alloc_step env k) s u"
    "sl u = st\<lparr>pcount := pcount st + 1, claimed_m := claimed_m st + word_of_int PAGE_SIZE\<rparr>"
    "cpus u = (cpus s)(k := A_zero c b)" "taken u = insert b (taken s)" "owned u = owned s"
    using alone_new [OF c b' st(1), of env] by blast
  have z: "cpus u k = A_zero c b" by (simp add: u(3))
  show ?thesis
    by (rule zero_run [OF z, of env], rule that [OF run_trans [OF smp_run_alloc [OF u(1)]]])
      (use u st(2) in \<open>simp_all add: same_counters_def\<close>)
qed

lemma lost_update_run:
  assumes "cpus s j = A_used_ld c r" "cpus s k = A_used_ld d q" "j \<noteq> k"
  obtains t where "run (smp_run_step env) s t" "cpus t = (cpus s)(j := Idle, k := Idle)"
    "used_m (sl t) = used_m (sl s) + word_of_int (a_size d)"
    "owned t = insert (q, a_size d) (insert (r, a_size c) (owned s))"
proof -
  let ?u = "used_m (sl s)"
  let ?a = "go j (A_used_st c r ?u) s"
  let ?b = "go k (A_used_st d q ?u) ?a"
  let ?c = "go j Idle (?b\<lparr>sl := (sl ?b)\<lparr>used_m := ?u + word_of_int (a_size c)\<rparr>,
                         owned := insert (r, a_size c) (owned ?b)\<rparr>)"
  let ?d = "go k Idle (?c\<lparr>sl := (sl ?c)\<lparr>used_m := ?u + word_of_int (a_size d)\<rparr>,
                         owned := insert (q, a_size d) (owned ?c)\<rparr>)"
  have "alloc_step env j s ?a" by (rule alloc_step.used_ld [OF assms(1)])
  moreover have "alloc_step env k ?a ?b"
    using alloc_step.used_ld [of ?a k d q env] assms(2,3) by simp
  moreover have "alloc_step env j ?b ?c" by (rule alloc_step.used_st) (simp add: assms(3))
  moreover have "alloc_step env k ?c ?d" by (rule alloc_step.used_st) (simp add: assms(3) [symmetric])
  ultimately have "run (smp_run_step env) s ?d"
    by (meson run_trans [of "smp_run_step env"] smp_run_alloc run_one [of "alloc_step env j"]
        run_one [of "alloc_step env k"])
  then show ?thesis by (rule that) (simp_all add: assms(3) fun_upd_twist)
qed

text \<open>Both processors find the lists empty before either of them has a page.\<close>

lemma both_search:
  assumes "smp_init s" "call_ok c" "j \<noteq> k"
  obtains t where "run (smp_run_step env) s t" "cpus t = (\<lambda>_. Idle)(j := A_page c, k := A_page c)"
    "used_m (sl t) = 0" "owned t = {}" "taken t = {}"
proof -
  have empty: "alloc_search env ((sl u)\<lparr>free := 0\<rparr>) (a_size c) (a_align c) (a_node c) =
      Some (slob_count_free ((sl u)\<lparr>free := 0\<rparr>), None)" if "partial (sl u) = (\<lambda>_. [])" for u :: slob_smp
    using that by (simp add: alloc_search_def)
  have s: "cpus s = (\<lambda>_. Idle)" "partial (sl s) = (\<lambda>_. [])" "used_m (sl s) = 0" "owned s = {}" "taken s = {}"
    using assms(1) by (auto simp: smp_init_def slob_boot_def)
  obtain u where u: "run (alloc_step env j) s u" "sl u = slob_count_free ((sl s)\<lparr>free := 0\<rparr>)"
    "cpus u = (cpus s)(j := A_page c)" "owned u = owned s" "taken u = taken s"
    using alone_search [OF _ assms(2) empty [OF s(2)], of j] s(1) by auto
  have p: "partial (sl u) = (\<lambda>_. [])" "used_m (sl u) = 0" using s u(2) by (simp_all add: slob_count_free_def)
  obtain t where t: "run (alloc_step env k) u t" "sl t = slob_count_free ((sl u)\<lparr>free := 0\<rparr>)"
    "cpus t = (cpus u)(k := A_page c)" "owned t = owned u" "taken t = taken u"
    using alone_search [OF _ assms(2) empty [OF p(1)], of k] s(1) u(3) assms(3) by auto
  show ?thesis
    by (rule that [OF run_trans [OF smp_run_alloc [OF u(1)] smp_run_alloc [OF t(1)]]])
      (use s u t p in \<open>simp_all add: slob_count_free_def\<close>)
qed

definition smp_start :: slob_smp where
  "smp_start =
     \<lparr>sl = slob_boot (\<lambda>_. 0) (page_of demo_slob), cpus = (\<lambda>_. Idle), taken = {}, objs = {}, owned = {},
      crashed = False\<rparr>"

text \<open>A run of two calls in which both processors read the counter before either writes it.\<close>

lemma two_calls:
  obtains s where "reach smp_init (smp_run_step env) s" "cpus s = (\<lambda>_. Idle)"
    "owned s = {(4096, 8), (8192, 8)}" "used_m (sl s) = 8"
proof -
  let ?c = "\<lparr>a_size = 8, a_gfp = 0, a_align = 2, a_node = 0\<rparr>"
  have init: "smp_init smp_start" by (auto simp: smp_start_def smp_init_def)
  then have r0: "reach smp_init (smp_run_step env) smp_start" by (rule reach.start)
  have ok: "call_ok ?c" by (auto simp: call_ok_def good_align_def PAGE_SIZE_def intro: exI [of _ 1])
  obtain s1 where s1: "run (smp_run_step env) smp_start s1" "cpus s1 = (\<lambda>_. Idle)(0 := A_page ?c, Suc 0 := A_page ?c)"
    "used_m (sl s1) = 0" "owned s1 = {}" "taken s1 = {}"
    by (rule both_search [OF init ok, of 0 "Suc 0" env]) simp_all
  note r1 = reach_run [OF s1(1) r0]
  have "cpus s1 0 = A_page ?c" "page_unused s1 4096" using s1 by (simp_all add: page_unused_def PAGE_SIZE_def)
  then obtain s2 where s2: "run (smp_run_step env) s1 s2" "cpus s2 = (cpus s1)(0 := A_used_ld ?c 4096)"
    "used_m (sl s2) = used_m (sl s1)" "owned s2 = owned s1" "taken s2 = insert 4096 (taken s1)"
    by (rule fresh_run [OF smp.reach_inv [OF r1]])
  note r2 = reach_run [OF s2(1) r1]
  have "cpus s2 (Suc 0) = A_page ?c" "page_unused s2 8192" using s1 s2 by (simp_all add: page_unused_def PAGE_SIZE_def)
  then obtain s3 where s3: "run (smp_run_step env) s2 s3" "cpus s3 = (cpus s2)(Suc 0 := A_used_ld ?c 8192)"
    "used_m (sl s3) = used_m (sl s2)" "owned s3 = owned s2" "taken s3 = insert 8192 (taken s2)"
    by (rule fresh_run [OF smp.reach_inv [OF r2]])
  have "cpus s3 0 = A_used_ld ?c 4096" "cpus s3 (Suc 0) = A_used_ld ?c 8192" "0 \<noteq> Suc 0"
    using s2 s3 by simp_all
  then obtain s4 where s4: "run (smp_run_step env) s3 s4" "cpus s4 = (cpus s3)(0 := Idle, Suc 0 := Idle)"
    "used_m (sl s4) = used_m (sl s3) + word_of_int (a_size ?c)"
    "owned s4 = insert (8192, a_size ?c) (insert (4096, a_size ?c) (owned s3))"
    by (rule lost_update_run)
  note r4 = reach_run [OF s4(1) reach_run [OF s3(1) r2]]
  show ?thesis using s1(2-) s2(2-) s3(2-) s4(2-) by (intro that [OF r4]) auto
qed

lemma alone_alloc_returns:
  assumes "smp_inv s" "call_ok c"
    and new: "pred_option (page_unused s) (slob_new_pages env (a_gfp c AND NOT (GFP_ZERO env)) 0 (a_node c))"
  shows "\<exists>st x. slob_alloc env None (sl s) (a_size c) (a_gfp c) (a_align c) (a_node c) = Some (Inr (st, x))"
proof -
  have inv: "slob_inv (objs s) ((sl s)\<lparr>free := 0\<rparr>)" using smp_invD(1) [OF assms(1)] by simp
  have c: "0 < a_size c" "a_size c \<le> PAGE_SIZE" "good_align (a_align c)" "a_align c \<le> PAGE_SIZE"
    using assms(2) by (simp_all add: call_ok_def)
  show ?thesis
  proof (cases rule: alloc_search_cases [OF inv c(1,3), of env "a_node c", case_names none some])
    case none
    show ?thesis
    proof (cases "slob_new_pages env (a_gfp c AND NOT (GFP_ZERO env)) 0 (a_node c)")
      case None
      then show ?thesis using none by (simp add: slob_alloc_sections)
    next
      case (Some b)
      have b: "PAGE_SIZE dvd b" "PAGE_SIZE \<le> b" "b \<notin> slab_pages (sl s)"
        using new Some smp_invD(3) [OF assms(1)] unfolding page_unused_def pages_ok_def by auto
      obtain st where "alloc_init (slob_count_free ((sl s)\<lparr>free := 0\<rparr>)) b (a_size c) (a_align c) = Some (st, Some b)"
        by (rule alloc_init_ok [OF _ b(1,2) _ c, of "objs s" "slob_count_free ((sl s)\<lparr>free := 0\<rparr>)"])
          (use inv b(3) in \<open>simp_all add: slab_pages_simps\<close>)
      then show ?thesis using none Some by (simp add: slob_alloc_sections)
    qed
  next
    case (some st r)
    then show ?thesis by (simp add: slob_alloc_sections)
  qed
qed

subsection \<open>Properties\<close>

text \<open>
  C15 (SLOB on several processors): however the steps of the processors and the writes of the
  callers interleave, no call meets \<^verbatim>\<open>BUG_ON\<close> or a walk without end, the heap is well
  formed, the objects the callers have are disjoint, and no step of the allocator changes
  a byte of an object that a caller has before and after it.
\<close>

theorem slob_smp_safe:
  assumes "reach smp_init (smp_run_step env) s"
  shows "\<not> crashed s \<and> slob_inv (objs s) (sl s) \<and> owned s \<subseteq> objs s \<and>
    (\<forall>x\<in>owned s. \<forall>y\<in>owned s. x \<noteq> y \<longrightarrow> live_range x \<inter> live_range y = {}) \<and>
    (\<forall>t. smp_step env s t \<longrightarrow> \<not> crashed t \<and> keeps_owned s t)"
proof -
  have inv: "smp_inv s" by (rule smp.reach_inv [OF assms])
  have sub: "owned s \<subseteq> objs s" using smp_invD(2) [OF inv] unfolding objects_ok_def by (elim conjE)
  have "\<forall>x\<in>objs s. \<forall>y\<in>objs s. x \<noteq> y \<longrightarrow> live_range x \<inter> live_range y = {}"
    using smp_invD(1) [OF inv] unfolding slob_inv_def live_inv_def by (elim conjE)
  then have "\<forall>x\<in>owned s. \<forall>y\<in>owned s. x \<noteq> y \<longrightarrow> live_range x \<inter> live_range y = {}"
    using sub by (meson subsetD)
  moreover have "\<not> crashed t \<and> keeps_owned s t" if "smp_step env s t" for t
    using smp_step_inv [OF that inv] smp_invD(5) by blast
  ultimately show ?thesis using sub smp_invD(1,5) [OF inv] by blast
qed

theorem slob_smp_safe_witness:
  "\<exists>s. reach smp_init (smp_run_step demo_env) s \<and> owned s = {(4096, 8), (8192, 8)} \<and>
     \<not> crashed s \<and> live_range (4096, 8) \<inter> live_range (8192, 8) = {}"
proof -
  obtain s where s: "reach smp_init (smp_run_step demo_env) s" "owned s = {(4096, 8), (8192, 8)}"
    by (rule two_calls)
  have "\<not> crashed s" "live_range (4096, 8) \<inter> live_range (8192, 8) = {}"
    using slob_smp_safe [OF s(1)] s(2) by auto
  with s show ?thesis by blast
qed

text \<open>
  C40 (updates are lost): \<^verbatim>\<open>used_m\<close> is updated outside \<^verbatim>\<open>slob_lock\<close>. Two processors that
  each allocate eight bytes can leave it different from the sum of the sizes of the objects
  handed out, with no call in progress.
\<close>

theorem slob_smp_lost_update:
  "\<exists>s. reach smp_init (smp_run_step env) s \<and> (\<forall>k. cpus s k = Idle) \<and>
     owned s = {(4096, 8), (8192, 8)} \<and> used_m (sl s) \<noteq> word_of_int (\<Sum>x\<in>owned s. snd x)"
proof -
  obtain s where s: "reach smp_init (smp_run_step env) s" "cpus s = (\<lambda>_. Idle)"
    "owned s = {(4096, 8), (8192, 8)}" "used_m (sl s) = 8"
    by (rule two_calls)
  then show ?thesis by (intro exI [of _ s]) simp
qed

text \<open>
  C39 (one processor at a time): from every state that the processors can reach, an idle
  processor that runs a call with no other processor in between does to the heap and to the
  counters what the functions \<open>slob_alloc\<close> and \<open>slob_free\<close> compute, and both return.
\<close>

theorem slob_smp_alone:
  assumes "reach smp_init (smp_run_step env) s" "cpus s k = Idle"
  shows "(call_ok c \<longrightarrow>
      pred_option (page_unused s) (slob_new_pages env (a_gfp c AND NOT (GFP_ZERO env)) 0 (a_node c)) \<longrightarrow>
      (\<exists>t x. run (alloc_step env k) s t \<and>
         slob_alloc env None (sl s) (a_size c) (a_gfp c) (a_align c) (a_node c) = Some (Inr (sl t, x)) \<and>
         cpus t = cpus s \<and>
         owned t = (case x of None \<Rightarrow> owned s | Some r \<Rightarrow> insert (r, a_size c) (owned s)))) \<and>
    ((b, sz) \<in> owned s \<longrightarrow>
      (\<exists>t. run (free_step k) s t \<and> slob_free (sl s) b sz = Some (Inr (sl t)) \<and>
         cpus t = cpus s \<and> owned t = owned s - {(b, sz)}))"
proof (intro conjI impI)
  have inv: "smp_inv s" by (rule smp.reach_inv [OF assms(1)])
  {
    assume c: "call_ok c"
      "pred_option (page_unused s) (slob_new_pages env (a_gfp c AND NOT (GFP_ZERO env)) 0 (a_node c))"
    obtain st x where "slob_alloc env None (sl s) (a_size c) (a_gfp c) (a_align c) (a_node c) = Some (Inr (st, x))"
      using alone_alloc_returns [OF inv c] by blast
    then show "\<exists>t x. run (alloc_step env k) s t \<and>
         slob_alloc env None (sl s) (a_size c) (a_gfp c) (a_align c) (a_node c) = Some (Inr (sl t, x)) \<and>
         cpus t = cpus s \<and> owned t = (case x of None \<Rightarrow> owned s | Some r \<Rightarrow> insert (r, a_size c) (owned s))"
      using alone_alloc [OF assms(2) c(1) _ c(2)] by blast
  }
  assume x: "(b, sz) \<in> owned s"
  then have "(b, sz) \<in> objs s" using smp_invD(2) [OF inv] unfolding objects_ok_def by blast
  then obtain st where "slob_free (sl s) b sz = Some (Inr st)"
    using slob_free_correct [OF smp_invD(1) [OF inv]] by blast
  then show "\<exists>t. run (free_step k) s t \<and> slob_free (sl s) b sz = Some (Inr (sl t)) \<and>
      cpus t = cpus s \<and> owned t = owned s - {(b, sz)}"
    using alone_free [OF assms(2) x inv] by blast
qed

theorem slob_smp_alone_witness:
  "(\<exists>t x. run (alloc_step demo_env 0) smp_start t \<and> slob_alloc demo_env None (sl smp_start) 8 0 2 0 = Some (Inr (sl t, x))) \<and>
   (\<exists>s t. reach smp_init (smp_run_step demo_env) s \<and> owned s = {(4096, 8), (8192, 8)} \<and>
     run (free_step 0) s t \<and> slob_free (sl s) 4096 8 = Some (Inr (sl t)) \<and> owned t = {(8192, 8)})"
proof
  have r: "reach smp_init (smp_run_step demo_env) smp_start"
    by (rule reach.start) (auto simp: smp_init_def smp_start_def)
  show "\<exists>t x. run (alloc_step demo_env 0) smp_start t \<and> slob_alloc demo_env None (sl smp_start) 8 0 2 0 = Some (Inr (sl t, x))"
    using slob_smp_alone [OF r, of 0 "\<lparr>a_size = 8, a_gfp = 0, a_align = 2, a_node = 0\<rparr>"]
    by (auto simp: smp_start_def call_ok_def good_align_def PAGE_SIZE_def page_unused_def slob_new_pages_def demo_env_def
        intro: exI [of _ 1])
  obtain s where s: "reach smp_init (smp_run_step demo_env) s" "cpus s = (\<lambda>_. Idle)"
    "owned s = {(4096, 8), (8192, 8)}" "used_m (sl s) = 8"
    by (rule two_calls)
  have "cpus s 0 = Idle" using s(2) by simp
  then obtain t where "run (free_step 0) s t" "slob_free (sl s) 4096 8 = Some (Inr (sl t))"
    "owned t = owned s - {(4096, 8)}"
    using slob_smp_alone [OF s(1), of 0 undefined 4096 8] s(3) by auto
  with s show "\<exists>s t. reach smp_init (smp_run_step demo_env) s \<and> owned s = {(4096, 8), (8192, 8)} \<and>
     run (free_step 0) s t \<and> slob_free (sl s) 4096 8 = Some (Inr (sl t)) \<and> owned t = {(8192, 8)}"
    by (intro exI [of _ s] exI [of _ t]) auto
qed

end
