(* ===== verification/Sstf.thy ===== *)
theory Sstf
  imports Prelude "HOL-Library.Multiset"
begin

text \<open>
  The I/O scheduler of \<^verbatim>\<open>src/kernel/project2/code/sstf-iosched.c\<close> (the copy under
  \<^verbatim>\<open>src/kernel/project2/submission\<close> is the same file). The request queue is the kernel's
  circular doubly linked list, modelled with its \<^verbatim>\<open>next\<close> and \<^verbatim>\<open>prev\<close> pointers: a request is
  identified with the address of its \<^verbatim>\<open>queuelist\<close>, and the list head in \<^verbatim>\<open>sstf_data\<close> is one
  more node of the ring. \<open>pos\<close> is \<^verbatim>\<open>blk_rq_pos\<close>; its value at the list head is whatever
  \<^verbatim>\<open>list_entry\<close> reads there, since the loops of \<^verbatim>\<open>add_req\<close> do not stop at the head. Loops
  that may not end are partial: \<^term>\<open>None\<close> is a call that never returns.
\<close>

subsection \<open>Kernel lists\<close>

record list_heap =
  nxt :: "int \<Rightarrow> int"
  prv :: "int \<Rightarrow> int"

definition INIT_LIST_HEAD :: "int \<Rightarrow> list_heap \<Rightarrow> list_heap" where
  "INIT_LIST_HEAD q h = h\<lparr>nxt := (nxt h)(q := q), prv := (prv h)(q := q)\<rparr>"

definition list_empty :: "int \<Rightarrow> list_heap \<Rightarrow> bool" where
  "list_empty q h \<longleftrightarrow> nxt h q = q"

definition list_insert :: "int \<Rightarrow> int \<Rightarrow> list_heap \<Rightarrow> list_heap" where
  "list_insert new p h =
     (let n = nxt h p
      in h\<lparr>nxt := (nxt h)(new := n, p := new), prv := (prv h)(n := new, new := p)\<rparr>)"

definition list_del_init :: "int \<Rightarrow> list_heap \<Rightarrow> list_heap" where
  "list_del_init x h =
     (let n = nxt h x; p = prv h x
      in INIT_LIST_HEAD x (h\<lparr>nxt := (nxt h)(p := n), prv := (prv h)(n := p)\<rparr>))"

subsection \<open>State\<close>

type_synonym sector = u64

record sstf_data =
  sd_queue :: int
  sd_dir :: int
  sd_head :: nat

record request_queue =
  lists :: list_heap
  elevator :: "sstf_data option"
  dispatched :: "int list"
  kobject_puts :: nat
  kfreed :: nat

definition ENOMEM :: int where
  "ENOMEM = 12"

subsection \<open>Operations\<close>

text \<open>
  \<open>elevque\<close> is the result of \<^verbatim>\<open>elevator_alloc\<close>, \<open>data\<close> that of \<^verbatim>\<open>kmalloc_node\<close>: the address of the
  list head in it and the indeterminate first value of \<^verbatim>\<open>dir\<close>.
\<close>

definition init_sstf :: "bool \<Rightarrow> (int \<times> int) option \<Rightarrow> request_queue \<Rightarrow> int \<times> request_queue" where
  "init_sstf elevque data rq =
     (if \<not> elevque then (- ENOMEM, rq)
      else (case data of
              None \<Rightarrow> (- ENOMEM, rq\<lparr>kobject_puts := kobject_puts rq + 1\<rparr>)
            | Some (q, junk) \<Rightarrow>
                (0, rq\<lparr>lists := INIT_LIST_HEAD q (lists rq),
                       elevator := Some \<lparr>sd_queue = q, sd_dir = junk, sd_head = 0\<rparr>\<rparr>)))"

partial_function (option) find_up ::
  "(int \<Rightarrow> sector) \<Rightarrow> list_heap \<Rightarrow> int \<Rightarrow> int \<Rightarrow> int \<Rightarrow> int option" where
  "find_up pos h req n p = (if pos req > pos n then find_up pos h req (nxt h n) n else Some p)"

partial_function (option) find_down ::
  "(int \<Rightarrow> sector) \<Rightarrow> list_heap \<Rightarrow> int \<Rightarrow> int \<Rightarrow> int \<Rightarrow> int option" where
  "find_down pos h req n p = (if pos req > pos p then find_down pos h req p (prv h p) else Some n)"

definition add_req_at :: "(int \<Rightarrow> sector) \<Rightarrow> int \<Rightarrow> list_heap \<Rightarrow> int \<Rightarrow> list_heap option" where
  "add_req_at pos q h req =
     (if list_empty q h then Some (list_insert req q h)
      else (let n = nxt h q; p = prv h q
            in map_option (\<lambda>a. list_insert req a h)
                 (if pos req > pos n then find_up pos h req n p else find_down pos h req n p)))"

text \<open>The functions below read \<^verbatim>\<open>elevator_data\<close>, which \<^verbatim>\<open>init_sstf\<close> has set before they can be called.\<close>

definition sstf_queue :: "request_queue \<Rightarrow> int" where
  "sstf_queue rq = (case elevator rq of Some d \<Rightarrow> sd_queue d | None \<Rightarrow> 0)"

definition add_req :: "(int \<Rightarrow> sector) \<Rightarrow> request_queue \<Rightarrow> int \<Rightarrow> request_queue option" where
  "add_req pos rq req =
     map_option (\<lambda>h. rq\<lparr>lists := h\<rparr>) (add_req_at pos (sstf_queue rq) (lists rq) req)"

definition former_req :: "request_queue \<Rightarrow> int \<Rightarrow> int option" where
  "former_req rq req =
     (if prv (lists rq) req = sstf_queue rq then None else Some (prv (lists rq) req))"

definition latter_req :: "request_queue \<Rightarrow> int \<Rightarrow> int option" where
  "latter_req rq req =
     (if nxt (lists rq) req = sstf_queue rq then None else Some (nxt (lists rq) req))"

definition merge_req :: "request_queue \<Rightarrow> int \<Rightarrow> int \<Rightarrow> request_queue" where
  "merge_req rq req n = rq\<lparr>lists := list_del_init n (lists rq)\<rparr>"

definition dispatch_req :: "request_queue \<Rightarrow> int \<times> request_queue" where
  "dispatch_req rq =
     (if \<not> list_empty (sstf_queue rq) (lists rq)
      then (let req = nxt (lists rq) (sstf_queue rq)
            in (1, rq\<lparr>lists := list_del_init req (lists rq), dispatched := dispatched rq @ [req]\<rparr>))
      else (0, rq))"

definition exit_sstf :: "request_queue \<Rightarrow> kernel_bug + request_queue" where
  "exit_sstf rq =
     (if \<not> list_empty (sstf_queue rq) (lists rq) then Inl BUG_ON
      else Inr (rq\<lparr>kfreed := kfreed rq + 1\<rparr>))"

text \<open>
  What the module hands to the block layer, and the calls of the block layer's registry
  when the module is loaded and unloaded; the registry is a parameter.
\<close>

record elevator_type =
  elevator_init_fn :: "bool \<Rightarrow> (int \<times> int) option \<Rightarrow> request_queue \<Rightarrow> int \<times> request_queue"
  elevator_add_req_fn :: "(int \<Rightarrow> sector) \<Rightarrow> request_queue \<Rightarrow> int \<Rightarrow> request_queue option"
  elevator_former_req_fn :: "request_queue \<Rightarrow> int \<Rightarrow> int option"
  elevator_latter_req_fn :: "request_queue \<Rightarrow> int \<Rightarrow> int option"
  elevator_merge_req_fn :: "request_queue \<Rightarrow> int \<Rightarrow> int \<Rightarrow> request_queue"
  elevator_dispatch_fn :: "request_queue \<Rightarrow> int \<times> request_queue"
  elevator_exit_fn :: "request_queue \<Rightarrow> kernel_bug + request_queue"
  elevator_name :: string

definition elevator_sstf :: elevator_type where
  "elevator_sstf =
     \<lparr>elevator_init_fn = init_sstf,
      elevator_add_req_fn = add_req,
      elevator_former_req_fn = former_req,
      elevator_latter_req_fn = latter_req,
      elevator_merge_req_fn = merge_req,
      elevator_dispatch_fn = dispatch_req,
      elevator_exit_fn = exit_sstf,
      elevator_name = ''LOOK''\<rparr>"

definition elev_init :: "(elevator_type \<Rightarrow> 'k \<Rightarrow> int \<times> 'k) \<Rightarrow> 'k \<Rightarrow> int \<times> 'k" where
  "elev_init elv_register k = elv_register elevator_sstf k"

definition elev_exit :: "(elevator_type \<Rightarrow> 'k \<Rightarrow> 'k) \<Rightarrow> 'k \<Rightarrow> 'k" where
  "elev_exit elv_unregister k = elv_unregister elevator_sstf k"

subsection \<open>Rings\<close>

text \<open>
  \<open>dpath h p xs q\<close>: the pointers lead from \<open>p\<close> through \<open>xs\<close> to \<open>q\<close> and back.
  \<open>ring h q xs\<close>: \<open>xs\<close> is the queue behind the list head \<open>q\<close>.
\<close>

fun dpath :: "list_heap \<Rightarrow> int \<Rightarrow> int list \<Rightarrow> int \<Rightarrow> bool" where
  "dpath h p [] q \<longleftrightarrow> nxt h p = q \<and> prv h q = p"
| "dpath h p (x # xs) q \<longleftrightarrow> nxt h p = x \<and> prv h x = p \<and> dpath h x xs q"

definition ring :: "list_heap \<Rightarrow> int \<Rightarrow> int list \<Rightarrow> bool" where
  "ring h q xs \<longleftrightarrow> dpath h q xs q \<and> distinct (q # xs)"

text \<open>Where \<^verbatim>\<open>add_req\<close> puts a request, on the list of requests.\<close>

definition place_up :: "(int \<Rightarrow> sector) \<Rightarrow> int \<Rightarrow> int list \<Rightarrow> int list" where
  "place_up pos r xs = takeWhile (\<lambda>a. pos a < pos r) xs @ r # dropWhile (\<lambda>a. pos a < pos r) xs"

fun after_first :: "int \<Rightarrow> int list \<Rightarrow> int list" where
  "after_first r [] = [r]"
| "after_first r (x # xs) = x # r # xs"

definition place_down :: "(int \<Rightarrow> sector) \<Rightarrow> int \<Rightarrow> int list \<Rightarrow> int list" where
  "place_down pos r xs =
     (let zs = rev (takeWhile (\<lambda>a. pos a < pos r) (rev xs));
          ys = take (length xs - length zs) xs
      in if zs = [] then after_first r xs else ys @ after_first r zs)"

definition place :: "(int \<Rightarrow> sector) \<Rightarrow> int \<Rightarrow> int list \<Rightarrow> int \<Rightarrow> int list option" where
  "place pos q xs r =
     (case xs of
        [] \<Rightarrow> Some [r]
      | x # _ \<Rightarrow>
          if pos x < pos r
          then (if \<forall>a\<in>set (q # xs). pos a < pos r then None else Some (place_up pos r xs))
          else Some (place_down pos r xs))"

subsection \<open>Operations on rings\<close>

lemma dpath_append: "dpath h p (xs @ y # ys) q \<longleftrightarrow> dpath h p xs y \<and> dpath h y ys q"
  by (induction xs arbitrary: p) auto

lemma dpath_frame:
  "dpath h p xs q \<Longrightarrow> (\<And>a. a \<in> set (p # xs) \<Longrightarrow> nxt h' a = nxt h a) \<Longrightarrow>
   (\<And>a. a \<in> set (q # xs) \<Longrightarrow> prv h' a = prv h a) \<Longrightarrow> dpath h' p xs q"
  by (induction xs arbitrary: p) auto

lemma dpath_hd: "dpath h p xs q \<Longrightarrow> nxt h p = hd (xs @ [q])"
  by (cases xs) auto

lemma dpath_last: "dpath h p xs q \<Longrightarrow> prv h q = last (p # xs)"
  by (induction xs arbitrary: p) auto

lemma list_insert_first:
  assumes "dpath h p ys q" "p \<notin> set ys" "new \<notin> set (p # q # ys)" "distinct ys" "q \<notin> set ys"
  shows "dpath (list_insert new p h) p (new # ys) q"
proof (cases ys)
  case Nil
  then show ?thesis using assms by (auto simp: list_insert_def Let_def)
next
  case (Cons y zs)
  then have "dpath h y zs q" "nxt h p = y" using assms(1) by auto
  then have "dpath (list_insert new p h) y zs q"
    using assms Cons by (elim dpath_frame) (auto simp: list_insert_def Let_def)
  then show ?thesis using assms Cons \<open>nxt h p = y\<close> by (auto simp: list_insert_def Let_def)
qed

text \<open>Inserting behind the node that ends the prefix \<open>xs\<close>, which is the head when \<open>xs\<close> is empty.\<close>

lemma list_insert_ring:
  assumes "ring h q (xs @ ys)" "new \<notin> set (q # xs @ ys)"
  shows "ring (list_insert new (last (q # xs)) h) q (xs @ new # ys)"
proof (cases xs rule: rev_cases)
  case Nil
  then show ?thesis
    using assms list_insert_first [of h q ys q new] by (auto simp: ring_def)
next
  case (snoc ws x)
  have d: "distinct (q # ws @ x # ys)" and pre: "dpath h q ws x" and post: "dpath h x ys q"
    using assms(1) snoc by (auto simp: ring_def dpath_append)
  have n: "nxt h x = hd (ys @ [q])" by (rule dpath_hd [OF post])
  have "dpath (list_insert new x h) x (new # ys) q"
    using post d assms(2) snoc by (intro list_insert_first) auto
  moreover have "dpath (list_insert new x h) q ws x"
    using pre
  proof (rule dpath_frame)
    fix a
    show "nxt (list_insert new x h) a = nxt h a" if "a \<in> set (q # ws)"
      using that d assms(2) snoc by (auto simp: list_insert_def Let_def)
    have "hd (ys @ [q]) \<in> set ys \<union> {q}" by (cases ys) auto
    then show "prv (list_insert new x h) a = prv h a" if "a \<in> set (x # ws)"
      using that d assms(2) snoc n by (auto simp: list_insert_def Let_def)
  qed
  ultimately show ?thesis
    using d assms(2) snoc by (auto simp: ring_def dpath_append)
qed

lemma list_del_init_ring:
  assumes "ring h q (xs @ x # ys)"
  shows "ring (list_del_init x h) q (xs @ ys)"
proof -
  have d: "distinct (q # xs @ x # ys)" and pre: "dpath h q xs x" and post: "dpath h x ys q"
    using assms by (auto simp: ring_def dpath_append)
  have p: "prv h x = last (q # xs)" and n: "nxt h x = hd (ys @ [q])"
    using dpath_last [OF pre] dpath_hd [OF post] by auto
  have lp: "last (q # xs) \<in> set (q # xs)" and hn: "hd (ys @ [q]) \<in> set ys \<union> {q}"
    using last_in_set [of "q # xs"] by (auto simp: hd_append)
  let ?h = "list_del_init x h"
  have nx: "nxt ?h a = (if a = last (q # xs) then hd (ys @ [q]) else nxt h a)" if "a \<noteq> x" for a
    using that p n by (simp add: list_del_init_def INIT_LIST_HEAD_def Let_def)
  have pv: "prv ?h a = (if a = hd (ys @ [q]) then last (q # xs) else prv h a)" if "a \<noteq> x" for a
    using that p n by (simp add: list_del_init_def INIT_LIST_HEAD_def Let_def)
  have behind: "dpath ?h (last (q # xs)) ys q"
  proof (cases ys)
    case Nil
    have "last (q # xs) \<noteq> x" "q \<noteq> x" using lp d by auto
    then show ?thesis using Nil nx [of "last (q # xs)"] pv [of q] by simp
  next
    case (Cons y zs)
    have "dpath ?h y zs q"
    proof (rule dpath_frame [of h y zs q])
      show "dpath h y zs q" using post Cons by simp
      show "nxt ?h a = nxt h a" if "a \<in> set (y # zs)" for a using that lp d Cons by (subst nx) auto
      show "prv ?h a = prv h a" if "a \<in> set (q # zs)" for a using that d Cons by (subst pv) auto
    qed
    moreover have "last (q # xs) \<noteq> x" "y \<noteq> x" using lp d Cons by auto
    ultimately show ?thesis using Cons nx [of "last (q # xs)"] pv [of y] by simp
  qed
  have "dpath ?h q (xs @ ys) q"
  proof (cases xs rule: rev_cases)
    case (snoc ws w)
    have "dpath ?h q ws w"
    proof (rule dpath_frame [of h q ws w])
      show "dpath h q ws w" using pre snoc by (simp add: dpath_append)
      show "nxt ?h a = nxt h a" if "a \<in> set (q # ws)" for a using that d snoc by (subst nx) auto
      show "prv ?h a = prv h a" if "a \<in> set (w # ws)" for a using that hn d snoc by (subst pv) auto
    qed
    then show ?thesis using behind snoc by (simp add: dpath_append)
  qed (use behind in simp)
  then show ?thesis using d by (auto simp: ring_def)
qed

lemma ring_empty: "ring h q xs \<Longrightarrow> list_empty q h \<longleftrightarrow> xs = []"
  by (cases xs) (auto simp: ring_def list_empty_def)

lemma ring_init: "ring (INIT_LIST_HEAD q h) q []"
  by (simp add: ring_def INIT_LIST_HEAD_def)

subsection \<open>The search loops\<close>

lemma find_up_stop: "\<not> pos n < pos r \<Longrightarrow> find_up pos h r n p = Some p"
  by (subst find_up.simps) simp

lemma find_up_step: "pos n < pos r \<Longrightarrow> find_up pos h r n p = find_up pos h r (nxt h n) n"
  by (subst find_up.simps) simp

lemma find_up_spec:
  "dpath h p ys q \<Longrightarrow> \<exists>a\<in>set (q # ys). \<not> pos a < pos r \<Longrightarrow>
   find_up pos h r (hd (ys @ [q])) p = Some (last (p # takeWhile (\<lambda>a. pos a < pos r) ys))"
proof (induction ys arbitrary: p)
  case Nil
  then show ?case by (simp add: find_up_stop)
next
  case (Cons y ys)
  then show ?case using dpath_hd [of h y ys q] by (auto simp: find_up_step find_up_stop)
qed

lemma find_up_leaves:
  assumes "find_up pos h r n p = Some y" "\<forall>a\<in>S. pos a < pos r \<and> nxt h a \<in> S"
  shows "n \<notin> S"
proof -
  have "(\<forall>a\<in>S. pos a < pos r \<and> nxt h a \<in> S) \<longrightarrow> n \<notin> S"
    by (rule find_up.raw_induct [where P = "\<lambda>pos h r n p y. (\<forall>a\<in>S. pos a < pos r \<and> nxt h a \<in> S) \<longrightarrow> n \<notin> S",
          OF _ assms(1)]) (fastforce split: if_splits)
  with assms(2) show ?thesis by blast
qed

lemma find_up_diverges:
  assumes "\<forall>a\<in>S. pos a < pos r \<and> nxt h a \<in> S" "n \<in> S"
  shows "find_up pos h r n p = None"
  using find_up_leaves [OF _ assms(1)] assms(2) by (cases "find_up pos h r n p") auto

lemma find_down_stop: "\<not> pos p < pos r \<Longrightarrow> find_down pos h r n p = Some n"
  by (subst find_down.simps) simp

lemma find_down_step: "pos p < pos r \<Longrightarrow> find_down pos h r n p = find_down pos h r p (prv h p)"
  by (subst find_down.simps) simp

lemma find_down_spec:
  "dpath h q ws n \<Longrightarrow> \<exists>a\<in>set ws. \<not> pos a < pos r \<Longrightarrow>
   find_down pos h r n (prv h n) = Some (hd (rev (takeWhile (\<lambda>a. pos a < pos r) (rev ws)) @ [n]))"
proof (induction ws arbitrary: n rule: rev_induct)
  case (snoc w ws)
  then have w: "dpath h q ws w" "prv h n = w" by (auto simp: dpath_append)
  show ?case
  proof (cases "pos w < pos r")
    case True
    then have "find_down pos h r w (prv h w) = Some (hd (rev (takeWhile (\<lambda>a. pos a < pos r) (rev ws)) @ [w]))"
      using snoc.IH [OF w(1)] snoc.prems(2) by auto
    then show ?thesis using True w(2) by (simp add: find_down_step hd_append)
  next
    case False
    then show ?thesis using w(2) by (simp add: find_down_stop)
  qed
qed simp

subsection \<open>Adding a request\<close>

lemma add_up:
  assumes ring: "ring h q xs" and ne: "xs = x # xs'" and x: "pos x < pos r"
    and r: "r \<notin> set (q # xs)" and stop: "\<exists>a\<in>set (q # xs). \<not> pos a < pos r"
  shows "\<exists>h'. add_req_at pos q h r = Some h' \<and> ring h' q (place_up pos r xs)"
proof -
  let ?tw = "takeWhile (\<lambda>a. pos a < pos r) xs" and ?dw = "dropWhile (\<lambda>a. pos a < pos r) xs"
  have path: "dpath h q xs q" using ring by (simp add: ring_def)
  have n: "nxt h q = x" using dpath_hd [OF path] ne by simp
  have "find_up pos h r x (prv h q) = find_up pos h r x q" using x by (simp add: find_up_step)
  also have "\<dots> = Some (last (q # ?tw))" using find_up_spec [OF path stop] ne by simp
  finally have "add_req_at pos q h r = Some (list_insert r (last (q # ?tw)) h)"
    using n x ring_empty [OF ring] ne by (simp add: add_req_at_def)
  moreover have "ring (list_insert r (last (q # ?tw)) h) q (?tw @ r # ?dw)"
    using ring r by (intro list_insert_ring) simp_all
  ultimately show ?thesis by (simp add: place_up_def)
qed

lemma add_diverges:
  assumes ring: "ring h q xs" and ne: "xs \<noteq> []" and all: "\<forall>a\<in>set (q # xs). pos a < pos r"
  shows "add_req_at pos q h r = None"
proof -
  have path: "dpath h q xs q" using ring by (simp add: ring_def)
  have n: "nxt h q = hd xs" using dpath_hd [OF path] ne by simp
  have closed: "nxt h a \<in> set (q # xs)" if "a \<in> set (q # xs)" for a
  proof (cases "a = q")
    case True
    then show ?thesis using n ne by (cases xs) auto
  next
    case False
    then have "a \<in> set xs" using that by simp
    then obtain ys zs where "xs = ys @ a # zs" by (meson split_list)
    then have "nxt h a = hd (zs @ [q])" using path by (auto simp: dpath_append dest: dpath_hd)
    then show ?thesis using \<open>xs = ys @ a # zs\<close> by (cases zs) auto
  qed
  have "find_up pos h r (hd xs) (prv h q) = None"
    using all closed ne by (intro find_up_diverges [of "set (q # xs)"]) (auto simp: hd_in_set)
  then show ?thesis using n ring_empty [OF ring] ne all by (simp add: add_req_at_def)
qed

lemma place_down_split:
  obtains ys zs where "xs = ys @ zs" "zs = rev (takeWhile (\<lambda>a. pos a < pos r) (rev xs))"
    "place_down pos r xs = (if zs = [] then after_first r xs else ys @ after_first r zs)"
proof -
  let ?P = "\<lambda>a. pos a < pos r"
  define zs where "zs = rev (takeWhile ?P (rev xs))"
  define ys where "ys = take (length xs - length zs) xs"
  have "xs = rev (dropWhile ?P (rev xs)) @ zs"
    unfolding zs_def by (metis rev_append rev_rev_ident takeWhile_dropWhile_id)
  then have "xs = ys @ zs"
    unfolding ys_def by (metis add_diff_cancel_right' append_eq_conv_conj length_append)
  moreover have "place_down pos r xs = (if zs = [] then after_first r xs else ys @ after_first r zs)"
    unfolding place_down_def zs_def ys_def Let_def by (rule refl)
  ultimately show thesis using that zs_def by blast
qed

lemma add_down:
  assumes ring: "ring h q xs" and ne: "xs = x # xs'" and x: "\<not> pos x < pos r"
    and r: "r \<notin> set (q # xs)"
  shows "\<exists>h'. add_req_at pos q h r = Some h' \<and> ring h' q (place_down pos r xs)"
proof -
  obtain ys zs where xs: "xs = ys @ zs" and zs_def: "zs = rev (takeWhile (\<lambda>a. pos a < pos r) (rev xs))"
    and place: "place_down pos r xs = (if zs = [] then after_first r xs else ys @ after_first r zs)"
    by (rule place_down_split)
  have path: "dpath h q xs q" using ring by (simp add: ring_def)
  have n: "nxt h q = x" using dpath_hd [OF path] ne by simp
  obtain ws w where w: "xs = ws @ [w]" using ne by (metis append_butlast_last_id list.distinct(1))
  have "find_down pos h r x (prv h q) = Some (if zs = [] then x else hd zs)"
  proof (cases "pos (prv h q) < pos r")
    case True
    have "find_down pos h r x (prv h q) = find_down pos h r q (prv h q)" using True by (simp add: find_down_step)
    also have "\<dots> = Some (hd (zs @ [q]))"
      unfolding zs_def using x ne by (intro find_down_spec [OF path]) auto
    finally have found: "find_down pos h r x (prv h q) = Some (hd (zs @ [q]))" .
    have "zs \<noteq> []" using w True dpath_last [OF path] by (simp add: zs_def)
    then show ?thesis using found by simp
  next
    case False
    then have "zs = []" using w dpath_last [OF path] by (simp add: zs_def)
    then show ?thesis using False by (simp add: find_down_stop)
  qed
  then have add: "add_req_at pos q h r = Some (list_insert r (if zs = [] then x else hd zs) h)"
    using n x ring_empty [OF ring] ne by (simp add: add_req_at_def)
  show ?thesis
  proof (cases zs)
    case Nil
    have "ring (list_insert r (last (q # [x])) h) q ([x] @ r # xs')"
      using ring r ne by (intro list_insert_ring) simp_all
    then show ?thesis using add Nil ne place by simp
  next
    case (Cons z zt)
    have "ring (list_insert r (last (q # ys @ [z])) h) q ((ys @ [z]) @ r # zt)"
      using ring r xs Cons by (intro list_insert_ring) simp_all
    then show ?thesis using add Cons place by simp
  qed
qed

lemma after_first_mset: "mset (after_first r xs) = add_mset r (mset xs)"
  by (cases xs) auto

lemma place_mset:
  assumes "place pos q xs r = Some ys"
  shows "mset ys = add_mset r (mset xs)"
proof -
  let ?P = "\<lambda>a. pos a < pos r"
  have up: "mset (place_up pos r xs) = add_mset r (mset xs)"
    unfolding place_up_def by (metis mset_append mset.simps(2) takeWhile_dropWhile_id union_mset_add_mset_right)
  have down: "mset (place_down pos r xs) = add_mset r (mset xs)"
  proof -
    obtain ys zs where xs: "xs = ys @ zs"
      and d: "place_down pos r xs = (if zs = [] then after_first r xs else ys @ after_first r zs)"
      by (rule place_down_split)
    show ?thesis unfolding d using xs by (simp add: after_first_mset)
  qed
  show ?thesis using assms up down by (auto simp: place_def split: list.splits if_splits)
qed

lemma add_refines:
  assumes ring: "ring h q xs" and r: "r \<notin> set (q # xs)"
  shows "case place pos q xs r of
      None \<Rightarrow> add_req_at pos q h r = None
    | Some ys \<Rightarrow> \<exists>h'. add_req_at pos q h r = Some h' \<and> ring h' q ys"
proof (cases xs)
  case Nil
  have "ring (list_insert r (last [q]) h) q ([] @ r # [])" using ring r Nil by (intro list_insert_ring) simp_all
  then show ?thesis using Nil ring_empty [OF ring] by (simp add: place_def add_req_at_def)
next
  case (Cons x xs')
  show ?thesis
  proof (cases "pos x < pos r")
    case False
    then show ?thesis using add_down [OF ring Cons _ r] Cons by (simp add: place_def)
  next
    case True
    show ?thesis
    proof (cases "\<forall>a\<in>set (q # xs). pos a < pos r")
      case True
      then show ?thesis using add_diverges [OF ring] \<open>pos x < pos r\<close> Cons by (simp add: place_def)
    next
      case False
      then have "place pos q xs r = Some (place_up pos r xs)" using True Cons by (simp add: place_def)
      then show ?thesis using add_up [OF ring Cons True r] False by simp
    qed
  qed
qed

subsection \<open>The contract of a scheduler\<close>

text \<open>
  What the block layer needs of a scheduler: an added request is pending until it is
  dispatched, dispatching sends one pending request, and nothing is lost or sent twice.
\<close>

inductive sched_run ::
  "('s \<Rightarrow> int \<Rightarrow> 's option) \<Rightarrow> ('s \<Rightarrow> int \<times> 's) \<Rightarrow> ('s \<Rightarrow> int) \<Rightarrow> 's \<Rightarrow> int list \<Rightarrow> 's \<Rightarrow> bool"
  for add dispatch node s0 where
  sched_start: "sched_run add dispatch node s0 [] s0"
| sched_add: "sched_run add dispatch node s0 rs s \<Longrightarrow> r \<noteq> node s \<Longrightarrow> r \<notin> set rs \<Longrightarrow> add s r = Some s' \<Longrightarrow>
    sched_run add dispatch node s0 (rs @ [r]) s'"
| sched_dispatch: "sched_run add dispatch node s0 rs s \<Longrightarrow> dispatch s = (n, s') \<Longrightarrow>
    sched_run add dispatch node s0 rs s'"

locale io_scheduler =
  fixes rep :: "'s \<Rightarrow> int list \<Rightarrow> bool"
    and add :: "'s \<Rightarrow> int \<Rightarrow> 's option"
    and dispatch :: "'s \<Rightarrow> int \<times> 's"
    and node :: "'s \<Rightarrow> int"
    and sent :: "'s \<Rightarrow> int list"
  assumes add_pending: "rep s xs \<Longrightarrow> r \<notin> set (node s # xs) \<Longrightarrow> add s r = Some s' \<Longrightarrow>
      \<exists>ys. rep s' ys \<and> mset ys = add_mset r (mset xs) \<and> sent s' = sent s"
    and dispatch_sends: "rep s (x # xs) \<Longrightarrow>
      \<exists>s'. dispatch s = (1, s') \<and> rep s' xs \<and> sent s' = sent s @ [x]"
    and dispatch_empty: "rep s [] \<Longrightarrow> dispatch s = (0, s)"
begin

lemma run_conserves:
  "sched_run add dispatch node s0 rs s \<Longrightarrow> rep s0 [] \<Longrightarrow> sent s0 = [] \<Longrightarrow>
   \<exists>xs. rep s xs \<and> mset rs = mset (sent s) + mset xs"
proof (induction rule: sched_run.induct)
  case sched_start
  then show ?case by auto
next
  case (sched_add rs s r s')
  then obtain xs where xs: "rep s xs" "mset rs = mset (sent s) + mset xs" by blast
  have "r \<notin> set xs" using sched_add(3) xs(2) by (metis UnCI set_mset_mset set_mset_union)
  then obtain ys where "rep s' ys" "mset ys = add_mset r (mset xs)" "sent s' = sent s"
    using add_pending [OF xs(1) _ sched_add(4)] sched_add(2) by auto
  then show ?case using xs(2) by auto
next
  case (sched_dispatch rs s n s')
  then obtain xs where xs: "rep s xs" "mset rs = mset (sent s) + mset xs" by blast
  show ?case
  proof (cases xs)
    case Nil
    then show ?thesis using xs sched_dispatch(2) dispatch_empty [of s] by auto
  next
    case (Cons y ys)
    then show ?thesis using xs sched_dispatch(2) dispatch_sends [of s y ys] by auto
  qed
qed

lemma drain: "rep s xs \<Longrightarrow> \<exists>s'. ((snd \<circ> dispatch) ^^ length xs) s = s' \<and> rep s' [] \<and> sent s' = sent s @ xs"
proof (induction xs arbitrary: s)
  case (Cons x xs)
  obtain s1 where "dispatch s = (1, s1)" "rep s1 xs" "sent s1 = sent s @ [x]"
    using dispatch_sends [OF Cons.prems] by blast
  then show ?case using Cons.IH [of s1] by (simp add: funpow_Suc_right del: funpow.simps(2))
qed simp

end

definition sstf_rep :: "request_queue \<Rightarrow> int list \<Rightarrow> bool" where
  "sstf_rep rq xs \<longleftrightarrow> ring (lists rq) (sstf_queue rq) xs"

lemma sstf_queue_lists [simp]: "sstf_queue (rq\<lparr>lists := h\<rparr>) = sstf_queue rq"
  "sstf_queue (rq\<lparr>lists := h, dispatched := d\<rparr>) = sstf_queue rq"
  by (simp_all add: sstf_queue_def)

lemma add_req_rep:
  assumes "sstf_rep rq xs" "r \<notin> set (sstf_queue rq # xs)"
  shows "case place pos (sstf_queue rq) xs r of
      None \<Rightarrow> add_req pos rq r = None
    | Some ys \<Rightarrow> \<exists>rq'. add_req pos rq r = Some rq' \<and> sstf_rep rq' ys \<and> dispatched rq' = dispatched rq"
  using add_refines [of "lists rq" "sstf_queue rq" xs r pos] assms
  by (auto simp: sstf_rep_def add_req_def split: option.splits)

lemma dispatch_req_rep:
  assumes "sstf_rep rq (x # xs)"
  shows "\<exists>rq'. dispatch_req rq = (1, rq') \<and> sstf_rep rq' xs \<and> dispatched rq' = dispatched rq @ [x]"
proof -
  have ring: "ring (lists rq) (sstf_queue rq) ([] @ x # xs)" using assms by (simp add: sstf_rep_def)
  moreover have "nxt (lists rq) (sstf_queue rq) = x" using ring by (simp add: ring_def)
  ultimately show ?thesis
    using list_del_init_ring [OF ring] ring_empty [OF ring] by (simp add: sstf_rep_def dispatch_req_def)
qed

interpretation sstf: io_scheduler sstf_rep "add_req pos" dispatch_req sstf_queue dispatched for pos
proof unfold_locales
  fix s xs r s'
  assume a: "sstf_rep s xs" "r \<notin> set (sstf_queue s # xs)" "add_req pos s r = Some s'"
  then show "\<exists>ys. sstf_rep s' ys \<and> mset ys = add_mset r (mset xs) \<and> dispatched s' = dispatched s"
    using add_req_rep [OF a(1,2), of pos] place_mset [of pos "sstf_queue s" xs r]
    by (auto split: option.splits)
qed (use dispatch_req_rep ring_empty in \<open>auto simp: sstf_rep_def dispatch_req_def\<close>)

subsection \<open>Properties\<close>

text \<open>
  C10 (refinement of \<^verbatim>\<open>add_req\<close>): on a queue whose pointers form a ring, adding a request that is
  not in it does what \<open>place\<close> does on the list of requests: either the call never
  returns, or the pointers form the ring of the list with the request at its place, and
  the list is the old one with exactly this request more.
\<close>

theorem add_req_refines:
  assumes "sstf_rep rq xs" "r \<notin> set (sstf_queue rq # xs)"
  shows "case place pos (sstf_queue rq) xs r of
      None \<Rightarrow> add_req pos rq r = None
    | Some ys \<Rightarrow> mset ys = add_mset r (mset xs) \<and>
        (\<exists>rq'. add_req pos rq r = Some rq' \<and> sstf_rep rq' ys \<and> dispatched rq' = dispatched rq)"
  using add_req_rep [OF assms, of pos] place_mset [of pos "sstf_queue rq" xs r]
  by (auto split: option.splits)

definition demo_rq :: request_queue where
  "demo_rq =
     \<lparr>lists = \<lparr>nxt = (\<lambda>a. if a = 100 then 1 else if a = 1 then 2 else 100),
               prv = (\<lambda>a. if a = 100 then 2 else if a = 2 then 1 else 100)\<rparr>,
      elevator = Some \<lparr>sd_queue = 100, sd_dir = 7, sd_head = 0\<rparr>, dispatched = [], kobject_puts = 0,
      kfreed = 0\<rparr>"

definition demo_pos :: "int \<Rightarrow> sector" where
  "demo_pos a = (if a = 1 then 10 else if a = 2 then 20 else if a = 3 then 15 else if a = 4 then 5
                 else if a = 5 then 30 else 0)"

lemma demo_rq_rep: "sstf_rep demo_rq [1, 2]" "sstf_queue demo_rq = 100" "dispatched demo_rq = []"
  by (simp_all add: sstf_rep_def demo_rq_def sstf_queue_def ring_def)

theorem add_req_refines_witness:
  "\<exists>rq'. add_req demo_pos demo_rq 3 = Some rq' \<and> sstf_rep rq' [1, 3, 2] \<and> dispatched rq' = []"
proof -
  have "place demo_pos 100 [1, 2] 3 = Some [1, 3, 2]"
    by (simp add: place_def place_up_def demo_pos_def)
  then show ?thesis
    using add_req_refines [OF demo_rq_rep(1), of 3 demo_pos] by (simp add: demo_rq_rep(2,3))
qed

text \<open>
  C9 (no request is lost): after \<^verbatim>\<open>init_sstf\<close> and any sequence of \<^verbatim>\<open>add_req\<close> of distinct requests
  and \<^verbatim>\<open>dispatch_req\<close>, the queue is a well-formed ring, every request added was dispatched or is in the
  queue, exactly once, and as many further dispatches as there are requests left send
  them all in queue order.
\<close>

theorem sstf_conserves:
  assumes "init_sstf True (Some (q, junk)) rq0 = (0, rq1)" "dispatched rq0 = []"
    "sched_run (add_req pos) dispatch_req sstf_queue rq1 rs rq"
  shows "\<exists>xs. sstf_rep rq xs \<and> mset rs = mset (dispatched rq) + mset xs \<and>
    (\<exists>rq'. ((snd \<circ> dispatch_req) ^^ length xs) rq = rq' \<and> sstf_rep rq' [] \<and>
       dispatched rq' = dispatched rq @ xs)"
proof -
  have "sstf_rep rq1 []" "dispatched rq1 = []"
    using assms(1,2) ring_init by (auto simp: init_sstf_def sstf_rep_def sstf_queue_def)
  then obtain xs where "sstf_rep rq xs" "mset rs = mset (dispatched rq) + mset xs"
    using sstf.run_conserves [OF assms(3)] by blast
  with sstf.drain show ?thesis by blast
qed

theorem sstf_conserves_witness:
  "\<exists>rq xs. sched_run (add_req demo_pos) dispatch_req sstf_queue
      (snd (init_sstf True (Some (100, 7)) demo_rq)) [1] rq \<and>
    sstf_rep rq xs \<and> mset [1] = mset (dispatched rq) + mset xs"
proof -
  let ?rq1 = "snd (init_sstf True (Some (100, 7)) demo_rq)"
  have init: "init_sstf True (Some (100, 7)) demo_rq = (0, ?rq1)" "dispatched demo_rq = []"
    by (simp_all add: init_sstf_def demo_rq_def)
  have rep: "sstf_rep ?rq1 []" "sstf_queue ?rq1 = 100"
    using ring_init by (simp_all add: init_sstf_def sstf_rep_def sstf_queue_def)
  obtain rq where rq: "add_req demo_pos ?rq1 1 = Some rq"
    using add_req_rep [OF rep(1), of 1 demo_pos] by (auto simp: rep(2) place_def)
  have run: "sched_run (add_req demo_pos) dispatch_req sstf_queue ?rq1 ([] @ [1]) rq"
    by (rule sched_add [of "add_req demo_pos" dispatch_req sstf_queue, OF sched_start _ _ rq]) (simp_all add: rep(2))
  from sstf_conserves [OF init run] run show ?thesis by auto
qed

text \<open>
  C28 (when \<^verbatim>\<open>add_req\<close> returns): it returns exactly when the queue is empty or some node of the ring
  has a position at least that of the request; the list head, read as if it were a
  request, counts as such a node. Otherwise the upward search goes round forever.
\<close>

theorem add_req_returns_iff:
  assumes "sstf_rep rq xs" "r \<notin> set (sstf_queue rq # xs)"
  shows "(\<exists>rq'. add_req pos rq r = Some rq') \<longleftrightarrow>
    xs = [] \<or> (\<exists>a\<in>set (sstf_queue rq # xs). pos r \<le> pos a)"
proof -
  have "(\<exists>ys. place pos (sstf_queue rq) xs r = Some ys) \<longleftrightarrow>
      xs = [] \<or> (\<exists>a\<in>set (sstf_queue rq # xs). pos r \<le> pos a)"
    by (cases xs) (auto simp: place_def not_less)
  then show ?thesis using add_req_rep [OF assms, of pos] by (auto split: option.splits)
qed

theorem add_req_returns_iff_witness: "add_req demo_pos demo_rq 5 = None"
  using add_req_returns_iff [OF demo_rq_rep(1), of 5 demo_pos]
  by (cases "add_req demo_pos demo_rq 5") (auto simp: demo_rq_rep(2) demo_pos_def)

text \<open>
  Order of the queue: a request above the first one of a sorted queue keeps it
  sorted. A request not above the first one is put right behind it when no request of the
  queue is below it, so a lower request breaks the order.
\<close>

theorem place_order:
  assumes "sorted (map pos xs)" "xs \<noteq> []" "place pos q xs r = Some ys"
  shows "(pos (hd xs) < pos r \<longrightarrow> sorted (map pos ys)) \<and>
    (pos r \<le> pos (hd xs) \<longrightarrow> ys = hd xs # r # tl xs) \<and>
    (pos r < pos (hd xs) \<longrightarrow> \<not> sorted (map pos ys))"
proof -
  obtain x xs' where xs: "xs = x # xs'" using assms(2) by (cases xs) auto
  have above: "\<forall>a\<in>set xs. pos x \<le> pos a" using assms(1) xs by auto
  show ?thesis
  proof (cases "pos x < pos r")
    case True
    then have ys: "ys = place_up pos r xs" using assms(3) xs by (auto simp: place_def split: if_splits)
    let ?tw = "takeWhile (\<lambda>a. pos a < pos r) xs" and ?dw = "dropWhile (\<lambda>a. pos a < pos r) xs"
    have s: "sorted (map pos (?tw @ ?dw))" using assms(1) by simp
    have lo: "\<forall>a\<in>set ?tw. pos a \<le> pos r" by (auto dest: set_takeWhileD)
    have hi: "\<forall>b\<in>set ?dw. pos r \<le> pos b"
    proof (cases ?dw)
      case (Cons b bs)
      then have "pos r \<le> pos b" using hd_dropWhile [of "\<lambda>a. pos a < pos r" xs] by auto
      moreover have "sorted (map pos ?dw)" using s unfolding map_append sorted_append by blast
      ultimately show ?thesis using Cons by auto
    next
      case Nil
      show ?thesis unfolding Nil by simp
    qed
    have parts: "sorted (map pos ?tw)" "sorted (map pos ?dw)"
      using s unfolding map_append sorted_append by blast+
    have "pos a \<le> pos b" if "a \<in> set ?tw" "b \<in> set (r # ?dw)" for a b
      using that lo hi by (auto intro: order_trans)
    then have "sorted (map pos (?tw @ r # ?dw))"
      unfolding map_append sorted_append using parts hi by simp
    then show ?thesis using True xs ys by (auto simp: place_up_def)
  next
    case False
    then have "\<forall>a\<in>set xs. \<not> pos a < pos r" using above by (auto simp: not_less)
    then have "takeWhile (\<lambda>a. pos a < pos r) (rev xs) = []" by (cases xs rule: rev_cases) auto
    then have "ys = after_first r xs"
      using assms(3) xs False by (auto simp: place_def place_down_def)
    then show ?thesis using xs False by auto
  qed
qed

theorem place_order_witness:
  "place demo_pos 100 [1, 2] 4 = Some [1, 4, 2] \<and> \<not> sorted (map demo_pos [1, 4, 2])"
proof -
  have p: "place demo_pos 100 [1, 2] 4 = Some [1, 4, 2]"
    by (simp add: place_def place_down_def demo_pos_def)
  have "sorted (map demo_pos [1, 2])" "demo_pos 4 < demo_pos (hd [1, 2])" by (simp_all add: demo_pos_def)
  with place_order [OF _ _ p] p show ?thesis by simp
qed

lemma ring_neighbours:
  assumes "ring h q (xs @ r # ys)"
  shows "prv h r = last (q # xs)" "nxt h r = hd (ys @ [q])"
  using assms dpath_last [of h q xs r] dpath_hd [of h r ys q] by (auto simp: ring_def dpath_append)

text \<open>
  C29 (the other operations): \<^verbatim>\<open>former_req\<close> and \<^verbatim>\<open>latter_req\<close> return the neighbours in the queue or
  NULL at its ends, \<^verbatim>\<open>merge_req\<close> takes the merged request out, \<^verbatim>\<open>dispatch_req\<close> sends the first
  request, or returns 0 on an empty queue, and \<^verbatim>\<open>exit_sstf\<close> hits \<^verbatim>\<open>BUG_ON\<close> exactly when requests are left.
\<close>

theorem sstf_operations:
  assumes "sstf_rep rq (xs @ r # ys)"
  shows "former_req rq r = (if xs = [] then None else Some (last xs)) \<and>
    latter_req rq r = (if ys = [] then None else Some (hd ys)) \<and>
    sstf_rep (merge_req rq t r) (xs @ ys) \<and>
    fst (dispatch_req rq) = 1 \<and> dispatched (snd (dispatch_req rq)) = dispatched rq @ [hd (xs @ [r])] \<and>
    exit_sstf rq = Inl BUG_ON \<and>
    (sstf_rep rq' [] \<longrightarrow> dispatch_req rq' = (0, rq') \<and> exit_sstf rq' = Inr (rq'\<lparr>kfreed := kfreed rq' + 1\<rparr>))"
proof -
  let ?q = "sstf_queue rq" and ?h = "lists rq"
  have ring: "ring ?h ?q (xs @ r # ys)" using assms by (simp add: sstf_rep_def)
  note nb = ring_neighbours [OF ring]
  have d: "distinct (?q # xs @ r # ys)" using ring by (simp add: ring_def)
  have "former_req rq r = (if xs = [] then None else Some (last xs))"
  proof (cases "xs = []")
    case False
    then have "last xs \<in> set xs" by (rule last_in_set)
    moreover have "?q \<notin> set xs" using d by simp
    ultimately have "last xs \<noteq> ?q" by metis
    then show ?thesis using nb(1) False by (simp add: former_req_def)
  qed (use nb(1) in \<open>simp add: former_req_def\<close>)
  moreover have "latter_req rq r = (if ys = [] then None else Some (hd ys))"
    using nb(2) d by (cases ys) (auto simp: latter_req_def)
  moreover have "sstf_rep (merge_req rq t r) (xs @ ys)"
    using list_del_init_ring [OF ring] by (simp add: sstf_rep_def merge_req_def)
  moreover have "fst (dispatch_req rq) = 1" "dispatched (snd (dispatch_req rq)) = dispatched rq @ [hd (xs @ [r])]"
    using dispatch_req_rep [of rq] assms by (cases xs; force)+
  moreover have "exit_sstf rq = Inl BUG_ON" using ring_empty [OF ring] by (simp add: exit_sstf_def)
  moreover have "dispatch_req rq' = (0, rq') \<and> exit_sstf rq' = Inr (rq'\<lparr>kfreed := kfreed rq' + 1\<rparr>)" if "sstf_rep rq' []"
    using that ring_empty [of "lists rq'" "sstf_queue rq'" "[]"]
    by (simp add: sstf_rep_def dispatch_req_def exit_sstf_def)
  ultimately show ?thesis by blast
qed

theorem sstf_operations_witness:
  "former_req demo_rq 2 = Some 1 \<and> latter_req demo_rq 2 = None \<and> sstf_rep (merge_req demo_rq 1 2) [1] \<and>
   exit_sstf demo_rq = Inl BUG_ON"
  using sstf_operations [of demo_rq "[1]" 2 "[]" 1] demo_rq_rep(1) by simp

end
