(* ===== verification/Sstf_Slob.thy ===== *)
theory Sstf_Slob
  imports Sstf Slob_Props
begin

text \<open>
  The I/O scheduler on the SLOB heap: the data that \<^verbatim>\<open>init_sstf\<close> takes from \<^verbatim>\<open>kmalloc_node\<close> and \<^verbatim>\<open>exit_sstf\<close> gives
  to \<^verbatim>\<open>kfree\<close>. Between the two the block layer calls the scheduler, and the rest of the kernel
  allocates, frees its own objects and writes to the bytes it owns.
\<close>

subsection \<open>The calls across the two components\<close>






subsection \<open>The invariant\<close>














subsection \<open>Properties\<close>



end
