(* ===== verification/Syscalls.thy ===== *)
theory Syscalls
  imports Prelude
begin

text \<open>
  The macros of \<^verbatim>\<open>src/kernel/project4/code/syscalls.h\<close> that define a system call (lines 79--206).

  A parameter of a call is a pair of a type and a name, as the macros take them. \<^verbatim>\<open>__MAP\<close> applies
  a macro to each pair; with a count that is not the number of pairs, or greater
  than six, there is no expansion, which is \<^const>\<open>None\<close>. \<^verbatim>\<open>SYSCALL_DEFINEx\<close> gives the entry point
  \<^verbatim>\<open>SyS_name\<close>, to which \<^verbatim>\<open>sys_name\<close> is an alias: it takes each argument as a \<^verbatim>\<open>long\<close>
  (or a \<^verbatim>\<open>long long\<close>), casts it to its type, and calls the body \<^verbatim>\<open>SYSC_name\<close>. \<^const>\<open>None\<close> there is a
  definition that does not compile. The type names of the kernel and the width
  of \<^verbatim>\<open>long\<close> are a parameter, \<open>arch\<close>. \<^verbatim>\<open>asmlinkage_protect\<close> only constrains the compiler and does nothing.
\<close>

subsection \<open>Types\<close>

text \<open>\<open>User t\<close> is \<^verbatim>\<open>t __user *\<close>, \<open>Ptr t\<close> is \<^verbatim>\<open>t *\<close>, and \<open>Named\<close> is a name that a \<^verbatim>\<open>typedef\<close> declares.\<close>

datatype ctype =
  Void | Char | UChar | Short | UShort | SInt | UInt | Long | ULong | LLong | ULLong
| Struct string | Union string | Named string | Const ctype | User ctype | Ptr ctype

type_synonym param = "ctype \<times> string"

record arch =
  long_bits :: nat
  typedefs :: "string \<Rightarrow> ctype"

fun unqual :: "ctype \<Rightarrow> ctype" where
  "unqual (Const t) = unqual t"
| "unqual t = t"

definition resolve :: "arch \<Rightarrow> ctype \<Rightarrow> ctype" where
  "resolve a t = (case unqual t of Named n \<Rightarrow> unqual (typedefs a n) | u \<Rightarrow> u)"

fun bits_of :: "arch \<Rightarrow> ctype \<Rightarrow> nat" where
  "bits_of a Char = 8"
| "bits_of a UChar = 8"
| "bits_of a Short = 16"
| "bits_of a UShort = 16"
| "bits_of a SInt = 32"
| "bits_of a UInt = 32"
| "bits_of a Long = long_bits a"
| "bits_of a ULong = long_bits a"
| "bits_of a LLong = 64"
| "bits_of a ULLong = 64"
| "bits_of a (User t) = long_bits a"
| "bits_of a (Ptr t) = long_bits a"
| "bits_of a _ = 0"

definition width :: "arch \<Rightarrow> ctype \<Rightarrow> nat" where
  "width a t = bits_of a (resolve a t)"

definition signed_type :: "arch \<Rightarrow> ctype \<Rightarrow> bool" where
  "signed_type a t \<longleftrightarrow> resolve a t \<in> {Char, Short, SInt, Long, LLong}"

text \<open>The conversion of an integer to an integer or pointer type.\<close>

definition cast :: "arch \<Rightarrow> ctype \<Rightarrow> int \<Rightarrow> int" where
  "cast a t v = (if signed_type a t then signed_take_bit (width a t - 1) v else take_bit (width a t) v)"

definition in_type :: "arch \<Rightarrow> ctype \<Rightarrow> int \<Rightarrow> bool" where
  "in_type a t v \<longleftrightarrow>
     (if signed_type a t then - (2 ^ (width a t - 1)) \<le> v \<and> v < 2 ^ (width a t - 1)
      else 0 \<le> v \<and> v < 2 ^ width a t)"

subsection \<open>The macros over the parameters\<close>

fun MAP :: "nat \<Rightarrow> (param \<Rightarrow> 'a) \<Rightarrow> param list \<Rightarrow> 'a list option" where
  "MAP 0 m ps = Some []"
| "MAP (Suc 0) m [p] = Some [m p]"
| "MAP (Suc (Suc n)) m (p # ps) = (if n \<le> 4 then map_option ((#) (m p)) (MAP (Suc n) m ps) else None)"
| "MAP n m ps = None"

definition TYPE_IS_L :: "arch \<Rightarrow> ctype \<Rightarrow> bool" where
  "TYPE_IS_L a t \<longleftrightarrow> resolve a t = Long"

definition TYPE_IS_UL :: "arch \<Rightarrow> ctype \<Rightarrow> bool" where
  "TYPE_IS_UL a t \<longleftrightarrow> resolve a t = ULong"

definition TYPE_IS_LL :: "arch \<Rightarrow> ctype \<Rightarrow> bool" where
  "TYPE_IS_LL a t \<longleftrightarrow> resolve a t = LLong \<or> resolve a t = ULLong"

definition SC_DECL :: "param \<Rightarrow> param" where
  "SC_DECL p = p"

definition SC_LONG :: "arch \<Rightarrow> param \<Rightarrow> param" where
  "SC_LONG a p = (if TYPE_IS_LL a (fst p) then LLong else Long, snd p)"

text \<open>The value of \<^verbatim>\<open>(t) a\<close> where the parameters have the values \<open>env\<close>.\<close>

definition SC_CAST :: "arch \<Rightarrow> (string \<rightharpoonup> int) \<Rightarrow> param \<Rightarrow> int" where
  "SC_CAST a env p = cast a (fst p) (case env (snd p) of Some v \<Rightarrow> v | None \<Rightarrow> 0)"

definition SC_ARGS :: "param \<Rightarrow> string" where
  "SC_ARGS p = snd p"

definition SC_TEST :: "arch \<Rightarrow> param \<Rightarrow> bool" where
  "SC_TEST a p \<longleftrightarrow> \<not> (\<not> TYPE_IS_LL a (fst p) \<and> width a (fst p) > long_bits a)"

subsection \<open>The trace data of a call\<close>

text \<open>\<^verbatim>\<open>#t\<close>, the spelling of a type.\<close>

fun spell :: "ctype \<Rightarrow> string" where
  "spell Void = ''void''"
| "spell Char = ''char''"
| "spell UChar = ''unsigned char''"
| "spell Short = ''short''"
| "spell UShort = ''unsigned short''"
| "spell SInt = ''int''"
| "spell UInt = ''unsigned int''"
| "spell Long = ''long''"
| "spell ULong = ''unsigned long''"
| "spell LLong = ''long long''"
| "spell ULLong = ''unsigned long long''"
| "spell (Struct s) = ''struct '' @ s"
| "spell (Union s) = ''union '' @ s"
| "spell (Named s) = s"
| "spell (Const (User t)) = spell (User t) @ ''const''"
| "spell (Const (Ptr t)) = spell (Ptr t) @ ''const''"
| "spell (Const t) = ''const '' @ spell t"
| "spell (User t) = spell t @ '' __user *''"
| "spell (Ptr t) = spell t @ '' *''"

definition SC_STR_TDECL :: "param \<Rightarrow> string" where
  "SC_STR_TDECL p = spell (fst p)"

definition SC_STR_ADECL :: "param \<Rightarrow> string" where
  "SC_STR_ADECL p = snd p"

text \<open>References to other objects of the program are their names.\<close>

record ftrace_event_call =
  ev_class :: string
  ev_name :: string
  ev_funcs :: string
  ev_data :: string
  ev_flags :: string

record syscall_metadata =
  sm_name :: string
  syscall_nr :: int
  nb_args :: nat
  types :: "string list option"
  args :: "string list option"
  enter_event :: ftrace_event_call
  exit_event :: ftrace_event_call
  enter_fields :: "string list"

definition SYSCALL_TRACE_ENTER_EVENT :: "string \<Rightarrow> ftrace_event_call" where
  "SYSCALL_TRACE_ENTER_EVENT sname =
     \<lparr>ev_class = ''event_class_syscall_enter'', ev_name = ''sys_enter'' @ sname,
      ev_funcs = ''enter_syscall_print_funcs'', ev_data = ''__syscall_meta_'' @ sname,
      ev_flags = ''TRACE_EVENT_FL_CAP_ANY''\<rparr>"

definition SYSCALL_TRACE_EXIT_EVENT :: "string \<Rightarrow> ftrace_event_call" where
  "SYSCALL_TRACE_EXIT_EVENT sname =
     \<lparr>ev_class = ''event_class_syscall_exit'', ev_name = ''sys_exit'' @ sname,
      ev_funcs = ''exit_syscall_print_funcs'', ev_data = ''__syscall_meta_'' @ sname,
      ev_flags = ''TRACE_EVENT_FL_CAP_ANY''\<rparr>"

text \<open>
  The metadata that the macro puts into the section \<^verbatim>\<open>__syscalls_metadata\<close>: one entry
  with \<^verbatim>\<open>CONFIG_FTRACE_SYSCALLS\<close>, none without it.
\<close>

definition SYSCALL_METADATA :: "bool \<Rightarrow> string \<Rightarrow> nat \<Rightarrow> param list \<Rightarrow> syscall_metadata list option" where
  "SYSCALL_METADATA ftrace sname nb ps =
     (if \<not> ftrace then Some []
      else case (MAP nb SC_STR_TDECL ps, MAP nb SC_STR_ADECL ps) of
             (Some ts, Some as) \<Rightarrow>
               Some [\<lparr>sm_name = ''sys'' @ sname, syscall_nr = - 1, nb_args = nb,
                      types = (if nb \<noteq> 0 then Some ts else None),
                      args = (if nb \<noteq> 0 then Some as else None),
                      enter_event = SYSCALL_TRACE_ENTER_EVENT sname,
                      exit_event = SYSCALL_TRACE_EXIT_EVENT sname,
                      enter_fields = []\<rparr>]
           | _ \<Rightarrow> None)"

subsection \<open>The definition of a call\<close>

text \<open>
  What a definition adds to the program: the symbol and, for a call with parameters, the
  function it is an alias of; the parameters the entry point takes; the entry point; and its trace data.
\<close>

record 'r syscall_def =
  symbol :: string
  alias_of :: "string option"
  entry_params :: "param list"
  entry :: "int list \<Rightarrow> 'r option"
  metadata :: "syscall_metadata list"

definition SYSCALL_DEFINE0 :: "bool \<Rightarrow> string \<Rightarrow> (int list \<Rightarrow> 'r) \<Rightarrow> 'r syscall_def option" where
  "SYSCALL_DEFINE0 ftrace sname body =
     map_option (\<lambda>md. \<lparr>symbol = ''sys_'' @ sname, alias_of = None, entry_params = [],
                       entry = (\<lambda>_. Some (body [])), metadata = md\<rparr>)
       (SYSCALL_METADATA ftrace (''_'' @ sname) 0 [])"

definition SyS ::
  "arch \<Rightarrow> nat \<Rightarrow> param list \<Rightarrow> (int list \<Rightarrow> 'r) \<Rightarrow> int list \<Rightarrow> 'r option" where
  "SyS a x ps SYSC regs =
     (case (MAP x (SC_LONG a) ps, MAP x (SC_TEST a) ps, MAP x SC_ARGS ps) of
        (Some longs, Some tests, Some as) \<Rightarrow>
          if list_all id tests
          then map_option SYSC (MAP x (SC_CAST a (map_of (zip as (map2 (\<lambda>l. cast a (fst l)) longs regs)))) ps)
          else None
      | _ \<Rightarrow> None)"

definition SYSCALL_DEFINEx_body ::
  "arch \<Rightarrow> nat \<Rightarrow> string \<Rightarrow> param list \<Rightarrow> (int list \<Rightarrow> 'r) \<Rightarrow> syscall_metadata list \<Rightarrow>
   'r syscall_def option" where
  "SYSCALL_DEFINEx_body a x sname ps SYSC md =
     (case (MAP x SC_DECL ps, MAP x (SC_LONG a) ps, MAP x (SC_TEST a) ps) of
        (Some decls, Some longs, Some tests) \<Rightarrow>
          if list_all id tests \<and> distinct (map snd longs)
          then Some \<lparr>symbol = ''sys'' @ sname, alias_of = Some (''SyS'' @ sname), entry_params = longs,
                     entry = SyS a x ps SYSC, metadata = md\<rparr>
          else None
      | _ \<Rightarrow> None)"

definition SYSCALL_DEFINEx ::
  "arch \<Rightarrow> bool \<Rightarrow> nat \<Rightarrow> string \<Rightarrow> param list \<Rightarrow> (int list \<Rightarrow> 'r) \<Rightarrow> 'r syscall_def option" where
  "SYSCALL_DEFINEx a ftrace x sname ps SYSC =
     Option.bind (SYSCALL_METADATA ftrace sname x ps) (SYSCALL_DEFINEx_body a x sname ps SYSC)"

text \<open>\<^verbatim>\<open>SYSCALL_DEFINE1\<close> to \<^verbatim>\<open>SYSCALL_DEFINE6\<close>; there are no others.\<close>

definition SYSCALL_DEFINE ::
  "arch \<Rightarrow> bool \<Rightarrow> nat \<Rightarrow> string \<Rightarrow> param list \<Rightarrow> (int list \<Rightarrow> 'r) \<Rightarrow> 'r syscall_def option" where
  "SYSCALL_DEFINE a ftrace n sname ps SYSC =
     (if 1 \<le> n \<and> n \<le> 6 then SYSCALL_DEFINEx a ftrace n (''_'' @ sname) ps SYSC else None)"

subsection \<open>Facts about the macros\<close>

text \<open>The count must be the number of pairs, and at most six.\<close>

lemma MAP_eq:
  "MAP (Suc n) m ps = (if n < 6 \<and> length ps = Suc n then Some (map m ps) else None)"
proof (induction n arbitrary: ps)
  case 0
  then show ?case by (cases ps rule: remdups_adj.cases) auto
next
  case (Suc n)
  then show ?case by (cases ps) auto
qed

lemma cast_low_bits:
  assumes "in_type a t v" "0 < width a t" "take_bit (width a t) r = take_bit (width a t) v"
  shows "cast a t r = v"
proof (cases "signed_type a t")
  case True
  have "signed_take_bit (width a t - 1) r = signed_take_bit (width a t - 1) v"
    using assms(2,3) by (simp add: signed_take_bit_eq_iff_take_bit_eq)
  then show ?thesis
    using True assms(1) by (simp add: cast_def in_type_def signed_take_bit_int_eq_self)
next
  case False
  then show ?thesis using assms(1,3) by (simp add: cast_def in_type_def take_bit_int_eq_self)
qed

lemma param_names [simp]: "map SC_ARGS ps = map snd ps" "map (snd \<circ> SC_LONG a) ps = map snd ps"
  "snd (SC_LONG a p) = snd p"
  by (simp_all add: SC_ARGS_def SC_LONG_def)

lemma SyS_eq:
  assumes "0 < n" "n \<le> 6" "length ps = n" "list_all (SC_TEST a) ps"
  shows "SyS a n ps SYSC regs =
    Some (SYSC (map (SC_CAST a (map_of (zip (map snd ps) (map2 (\<lambda>p. cast a (fst (SC_LONG a p))) ps regs)))) ps))"
proof -
  obtain k where "n = Suc k" using assms(1) by (cases n) auto
  moreover have "map2 (\<lambda>l. cast a (fst l)) (map (SC_LONG a) ps) regs = map2 (\<lambda>p. cast a (fst (SC_LONG a p))) ps regs"
    by (simp add: zip_map1 comp_def case_prod_beta)
  ultimately show ?thesis
    using assms by (simp add: SyS_def MAP_eq list_all_iff)
qed

lemma SYSCALL_DEFINE_Some:
  assumes "SYSCALL_DEFINE a ftrace n sname ps SYSC = Some d"
  shows "0 < n" "n \<le> 6" "length ps = n" "list_all (SC_TEST a) ps" "distinct (map snd ps)"
    "symbol d = ''sys_'' @ sname" "alias_of d = Some (''SyS_'' @ sname)"
    "entry_params d = map (SC_LONG a) ps" "entry d = SyS a n ps SYSC"
    "SYSCALL_METADATA ftrace (''_'' @ sname) n ps = Some (metadata d)"
proof -
  show n: "0 < n" "n \<le> 6" using assms by (auto simp: SYSCALL_DEFINE_def split: if_splits)
  then obtain k where k: "n = Suc k" by (cases n) auto
  obtain md where md: "SYSCALL_METADATA ftrace (''_'' @ sname) n ps = Some md"
    and d: "SYSCALL_DEFINEx_body a n (''_'' @ sname) ps SYSC md = Some d"
    using assms n by (auto simp: SYSCALL_DEFINE_def SYSCALL_DEFINEx_def bind_eq_Some_conv)
  show "length ps = n" "list_all (SC_TEST a) ps" "distinct (map snd ps)"
    "symbol d = ''sys_'' @ sname" "alias_of d = Some (''SyS_'' @ sname)"
    "entry_params d = map (SC_LONG a) ps" "entry d = SyS a n ps SYSC"
    "SYSCALL_METADATA ftrace (''_'' @ sname) n ps = Some (metadata d)"
    using d md unfolding SYSCALL_DEFINEx_body_def k MAP_eq
    by (auto simp: list_all_iff split: if_splits)
qed

lemma entry_wide:
  "SC_TEST a p \<Longrightarrow> width a (fst p) \<le> width a (fst (SC_LONG a p))"
  by (auto simp: SC_TEST_def SC_LONG_def TYPE_IS_LL_def width_def resolve_def)

text \<open>Reading a register at the width of the entry point keeps the bits of the parameter.\<close>

lemma cast_wide:
  assumes "0 < w" "w \<le> width a t"
  shows "take_bit w (cast a t r) = take_bit w r"
proof (cases "signed_type a t")
  case True
  then show ?thesis using assms by (simp add: cast_def take_bit_signed_take_bit min_def)
next
  case False
  then show ?thesis using assms by (simp add: cast_def min_def)
qed

text \<open>
  C17 (a system call receives its arguments): every definition that compiles has at most six parameters
  and an entry point whose registers are wide enough for them. Whatever the registers hold
  above the width of a parameter, the body gets the value the caller passed.
\<close>

theorem syscall_receives_arguments:
  assumes "SYSCALL_DEFINE a ftrace n sname ps SYSC = Some d"
    and "length vs = n" "length regs = n"
    and "\<forall>i<n. 0 < width a (fst (ps ! i)) \<and> in_type a (fst (ps ! i)) (vs ! i) \<and>
      take_bit (width a (fst (ps ! i))) (regs ! i) = take_bit (width a (fst (ps ! i))) (vs ! i)"
  shows "n \<le> 6 \<and> length ps = n \<and>
    (\<forall>i<n. width a (fst (ps ! i)) \<le> width a (fst (entry_params d ! i))) \<and>
    entry d regs = Some (SYSC vs)"
proof -
  note d = SYSCALL_DEFINE_Some [OF assms(1)]
  have "width a (fst (ps ! i)) \<le> width a (fst (entry_params d ! i))" if "i < n" for i
    using that d(3,4,8) entry_wide by (simp add: list_all_length)
  moreover define ws where "ws = map2 (\<lambda>p. cast a (fst (SC_LONG a p))) ps regs"
  have "map (SC_CAST a (map_of (zip (map snd ps) ws))) ps = vs"
  proof (rule nth_equalityI)
    fix i assume "i < length (map (SC_CAST a (map_of (zip (map snd ps) ws))) ps)"
    then have i: "i < n" using d(3) by simp
    let ?t = "fst (ps ! i)"
    have "map_of (zip (map snd ps) ws) (snd (ps ! i)) = Some (ws ! i)"
      using map_of_zip_nth [of "map snd ps" ws i] i d(3,5) assms(3) by (simp add: ws_def)
    moreover have "take_bit (width a ?t) (ws ! i) = take_bit (width a ?t) (vs ! i)"
      using i d(3,4) assms(3,4) entry_wide [of a "ps ! i"] by (simp add: ws_def list_all_length cast_wide)
    ultimately show "map (SC_CAST a (map_of (zip (map snd ps) ws))) ps ! i = vs ! i"
      using i d(3) assms(4) cast_low_bits by (simp add: SC_CAST_def)
  qed (use d(3) assms(2) in simp)
  ultimately show ?thesis using d by (simp add: SyS_eq ws_def)
qed

theorem syscall_receives_arguments_witness:
  "\<exists>d. SYSCALL_DEFINE \<lparr>long_bits = 64, typedefs = (\<lambda>_. SInt)\<rparr> True 2 ''kill''
       [(Named ''pid_t'', ''pid''), (SInt, ''sig'')] (\<lambda>vs. vs) = Some d \<and>
     entry d [2 ^ 63 + 4294967295, 9] = Some [- 1, 9]"
proof -
  let ?a = "\<lparr>long_bits = 64, typedefs = (\<lambda>_. SInt)\<rparr>" and ?ps = "[(Named ''pid_t'', ''pid''), (SInt, ''sig'')]"
  have w: "width ?a (Named ''pid_t'') = 32" "width ?a SInt = 32" "signed_type ?a (Named ''pid_t'')" "signed_type ?a SInt"
    by (simp_all add: width_def resolve_def signed_type_def)
  obtain d where d: "SYSCALL_DEFINE ?a True 2 ''kill'' ?ps (\<lambda>vs. vs) = Some d"
    using w by (auto simp: SYSCALL_DEFINE_def SYSCALL_DEFINEx_def SYSCALL_DEFINEx_body_def SYSCALL_METADATA_def
        numeral_2_eq_2 SC_TEST_def)
  have "entry d [2 ^ 63 + 4294967295, 9] = Some [- 1, 9]"
    using syscall_receives_arguments [OF d, of "[- 1, 9]" "[2 ^ 63 + 4294967295, 9]"] w
    by (simp add: numeral_2_eq_2 less_Suc_eq in_type_def take_bit_eq_mod)
  with d show ?thesis by blast
qed

text \<open>The trace data lists the parameters that the entry point takes.\<close>

lemma syscall_metadata_args:
  assumes "SYSCALL_DEFINE a True n sname ps SYSC = Some d"
  obtains m where "metadata d = [m]" "sm_name m = symbol d" "nb_args m = length (entry_params d)"
    "args m = Some (map snd (entry_params d))" "types m = Some (map (spell \<circ> fst) ps)"
proof -
  note d = SYSCALL_DEFINE_Some [OF assms]
  obtain k where k: "n = Suc k" using d(1) by (cases n) auto
  let ?m = "\<lparr>sm_name = ''sys_'' @ sname, syscall_nr = - 1, nb_args = n,
    types = Some (map SC_STR_TDECL ps), args = Some (map SC_STR_ADECL ps),
    enter_event = SYSCALL_TRACE_ENTER_EVENT (''_'' @ sname),
    exit_event = SYSCALL_TRACE_EXIT_EVENT (''_'' @ sname), enter_fields = []\<rparr>"
  have "metadata d = [?m]"
    using d(2,3,10) k by (simp add: SYSCALL_METADATA_def MAP_eq)
  then show ?thesis
    by (rule that) (use d(3,6,8) in \<open>simp_all add: SC_STR_TDECL_def SC_STR_ADECL_def comp_def\<close>)
qed

end
