(* ===== verification/Syscall_Table.thy ===== *)
theory Syscall_Table
  imports Syscalls
begin

text \<open>
  The declarations of \<^verbatim>\<open>src/kernel/project4/code/syscalls.h\<close> (lines 14--68 and 208--887): the structures
  it names and the prototypes of the system calls, each with the condition under
  which the preprocessor keeps it. The project added the last two prototypes.
\<close>

subsection \<open>Prototypes\<close>

datatype guard =
  Always
| Defined string
| Undefined string
| Bits nat
| Both guard guard
| Either guard guard

datatype prototype = Proto (guard_of: guard) (result: ctype) (name_of: string) (params: "param list")

text \<open>The tags that are declared.\<close>

definition forward_tags :: "ctype list" where
  "forward_tags =
     [Struct ''epoll_event'', Struct ''iattr'', Struct ''inode'', Struct ''iocb'',
      Struct ''io_event'', Struct ''iovec'', Struct ''itimerspec'', Struct ''itimerval'',
      Struct ''kexec_segment'', Struct ''linux_dirent'', Struct ''linux_dirent64'',
      Struct ''list_head'', Struct ''mmap_arg_struct'', Struct ''msgbuf'',
      Struct ''user_msghdr'', Struct ''mmsghdr'', Struct ''msqid_ds'', Struct ''new_utsname'',
      Struct ''nfsctl_arg'', Struct ''__old_kernel_stat'', Struct ''oldold_utsname'',
      Struct ''old_utsname'', Struct ''pollfd'', Struct ''rlimit'', Struct ''rlimit64'',
      Struct ''rusage'', Struct ''sched_param'', Struct ''sched_attr'',
      Struct ''sel_arg_struct'', Struct ''semaphore'', Struct ''sembuf'', Struct ''shmid_ds'',
      Struct ''sockaddr'', Struct ''stat'', Struct ''stat64'', Struct ''statfs'',
      Struct ''statfs64'', Struct ''__sysctl_args'', Struct ''sysinfo'', Struct ''timespec'',
      Struct ''timeval'', Struct ''timex'', Struct ''timezone'', Struct ''tms'',
      Struct ''utimbuf'', Struct ''mq_attr'', Struct ''compat_stat'', Struct ''compat_timeval'',
      Struct ''robust_list_head'', Struct ''getcpu_cache'', Struct ''old_linux_dirent'',
      Struct ''perf_event_attr'', Struct ''file_handle'', Struct ''sigaltstack'',
      Union ''bpf_attr'']"

text \<open>Lines 208--253: time, process, user and group numbers, capabilities.\<close>

definition syscalls_ids :: "prototype list" where
  "syscalls_ids =
    [Proto Always Long ''sys32_quotactl'' [(UInt, ''cmd''), (User (Const Char), ''special''),
         (Named ''qid_t'', ''id''), (User Void, ''addr'')],
     Proto Always Long ''sys_time'' [(User (Named ''time_t''), ''tloc'')],
     Proto Always Long ''sys_stime'' [(User (Named ''time_t''), ''tptr'')],
     Proto Always Long ''sys_gettimeofday'' [(User (Struct ''timeval''), ''tv''),
         (User (Struct ''timezone''), ''tz'')],
     Proto Always Long ''sys_settimeofday'' [(User (Struct ''timeval''), ''tv''),
         (User (Struct ''timezone''), ''tz'')],
     Proto Always Long ''sys_adjtimex'' [(User (Struct ''timex''), ''txc_p'')],
     Proto Always Long ''sys_times'' [(User (Struct ''tms''), ''tbuf'')],
     Proto Always Long ''sys_gettid'' [],
     Proto Always Long ''sys_nanosleep'' [(User (Struct ''timespec''), ''rqtp''),
         (User (Struct ''timespec''), ''rmtp'')],
     Proto Always Long ''sys_alarm'' [(UInt, ''seconds'')],
     Proto Always Long ''sys_getpid'' [],
     Proto Always Long ''sys_getppid'' [],
     Proto Always Long ''sys_getuid'' [],
     Proto Always Long ''sys_geteuid'' [],
     Proto Always Long ''sys_getgid'' [],
     Proto Always Long ''sys_getegid'' [],
     Proto Always Long ''sys_getresuid'' [(User (Named ''uid_t''), ''ruid''),
         (User (Named ''uid_t''), ''euid''), (User (Named ''uid_t''), ''suid'')],
     Proto Always Long ''sys_getresgid'' [(User (Named ''gid_t''), ''rgid''),
         (User (Named ''gid_t''), ''egid''), (User (Named ''gid_t''), ''sgid'')],
     Proto Always Long ''sys_getpgid'' [(Named ''pid_t'', ''pid'')],
     Proto Always Long ''sys_getpgrp'' [],
     Proto Always Long ''sys_getsid'' [(Named ''pid_t'', ''pid'')],
     Proto Always Long ''sys_getgroups'' [(SInt, ''gidsetsize''),
         (User (Named ''gid_t''), ''grouplist'')],
     Proto Always Long ''sys_setregid'' [(Named ''gid_t'', ''rgid''), (Named ''gid_t'', ''egid'')],
     Proto Always Long ''sys_setgid'' [(Named ''gid_t'', ''gid'')],
     Proto Always Long ''sys_setreuid'' [(Named ''uid_t'', ''ruid''), (Named ''uid_t'', ''euid'')],
     Proto Always Long ''sys_setuid'' [(Named ''uid_t'', ''uid'')],
     Proto Always Long ''sys_setresuid'' [(Named ''uid_t'', ''ruid''), (Named ''uid_t'', ''euid''),
         (Named ''uid_t'', ''suid'')],
     Proto Always Long ''sys_setresgid'' [(Named ''gid_t'', ''rgid''), (Named ''gid_t'', ''egid''),
         (Named ''gid_t'', ''sgid'')],
     Proto Always Long ''sys_setfsuid'' [(Named ''uid_t'', ''uid'')],
     Proto Always Long ''sys_setfsgid'' [(Named ''gid_t'', ''gid'')],
     Proto Always Long ''sys_setpgid'' [(Named ''pid_t'', ''pid''), (Named ''pid_t'', ''pgid'')],
     Proto Always Long ''sys_setsid'' [],
     Proto Always Long ''sys_setgroups'' [(SInt, ''gidsetsize''),
         (User (Named ''gid_t''), ''grouplist'')],
     Proto Always Long ''sys_acct'' [(User (Const Char), ''name'')],
     Proto Always Long ''sys_capget'' [(Named ''cap_user_header_t'', ''header''),
         (Named ''cap_user_data_t'', ''dataptr'')],
     Proto Always Long ''sys_capset'' [(Named ''cap_user_header_t'', ''header''),
         (Const (Named ''cap_user_data_t''), ''data'')],
     Proto Always Long ''sys_personality'' [(UInt, ''personality'')]]"

text \<open>Lines 255--312: old signals, timers and scheduling.\<close>

definition syscalls_timers :: "prototype list" where
  "syscalls_timers =
    [Proto Always Long ''sys_sigpending'' [(User (Named ''old_sigset_t''), ''set'')],
     Proto Always Long ''sys_sigprocmask'' [(SInt, ''how''),
         (User (Named ''old_sigset_t''), ''set''), (User (Named ''old_sigset_t''), ''oset'')],
     Proto Always Long ''sys_sigaltstack'' [(User (Const (Struct ''sigaltstack'')), ''uss''),
         (User (Struct ''sigaltstack''), ''uoss'')],
     Proto Always Long ''sys_getitimer'' [(SInt, ''which''),
         (User (Struct ''itimerval''), ''value'')],
     Proto Always Long ''sys_setitimer'' [(SInt, ''which''),
         (User (Struct ''itimerval''), ''value''), (User (Struct ''itimerval''), ''ovalue'')],
     Proto Always Long ''sys_timer_create'' [(Named ''clockid_t'', ''which_clock''),
         (User (Struct ''sigevent''), ''timer_event_spec''),
         (User (Named ''timer_t''), ''created_timer_id'')],
     Proto Always Long ''sys_timer_gettime'' [(Named ''timer_t'', ''timer_id''),
         (User (Struct ''itimerspec''), ''setting'')],
     Proto Always Long ''sys_timer_getoverrun'' [(Named ''timer_t'', ''timer_id'')],
     Proto Always Long ''sys_timer_settime'' [(Named ''timer_t'', ''timer_id''), (SInt, ''flags''),
         (User (Const (Struct ''itimerspec'')), ''new_setting''),
         (User (Struct ''itimerspec''), ''old_setting'')],
     Proto Always Long ''sys_timer_delete'' [(Named ''timer_t'', ''timer_id'')],
     Proto Always Long ''sys_clock_settime'' [(Named ''clockid_t'', ''which_clock''),
         (User (Const (Struct ''timespec'')), ''tp'')],
     Proto Always Long ''sys_clock_gettime'' [(Named ''clockid_t'', ''which_clock''),
         (User (Struct ''timespec''), ''tp'')],
     Proto Always Long ''sys_clock_adjtime'' [(Named ''clockid_t'', ''which_clock''),
         (User (Struct ''timex''), ''tx'')],
     Proto Always Long ''sys_clock_getres'' [(Named ''clockid_t'', ''which_clock''),
         (User (Struct ''timespec''), ''tp'')],
     Proto Always Long ''sys_clock_nanosleep'' [(Named ''clockid_t'', ''which_clock''),
         (SInt, ''flags''), (User (Const (Struct ''timespec'')), ''rqtp''),
         (User (Struct ''timespec''), ''rmtp'')],
     Proto Always Long ''sys_nice'' [(SInt, ''increment'')],
     Proto Always Long ''sys_sched_setscheduler'' [(Named ''pid_t'', ''pid''), (SInt, ''policy''),
         (User (Struct ''sched_param''), ''param'')],
     Proto Always Long ''sys_sched_setparam'' [(Named ''pid_t'', ''pid''),
         (User (Struct ''sched_param''), ''param'')],
     Proto Always Long ''sys_sched_setattr'' [(Named ''pid_t'', ''pid''),
         (User (Struct ''sched_attr''), ''attr''), (UInt, ''flags'')],
     Proto Always Long ''sys_sched_getscheduler'' [(Named ''pid_t'', ''pid'')],
     Proto Always Long ''sys_sched_getparam'' [(Named ''pid_t'', ''pid''),
         (User (Struct ''sched_param''), ''param'')],
     Proto Always Long ''sys_sched_getattr'' [(Named ''pid_t'', ''pid''),
         (User (Struct ''sched_attr''), ''attr''), (UInt, ''size''), (UInt, ''flags'')],
     Proto Always Long ''sys_sched_setaffinity'' [(Named ''pid_t'', ''pid''), (UInt, ''len''),
         (User ULong, ''user_mask_ptr'')],
     Proto Always Long ''sys_sched_getaffinity'' [(Named ''pid_t'', ''pid''), (UInt, ''len''),
         (User ULong, ''user_mask_ptr'')],
     Proto Always Long ''sys_sched_yield'' [],
     Proto Always Long ''sys_sched_get_priority_max'' [(SInt, ''policy'')],
     Proto Always Long ''sys_sched_get_priority_min'' [(SInt, ''policy'')],
     Proto Always Long ''sys_sched_rr_get_interval'' [(Named ''pid_t'', ''pid''),
         (User (Struct ''timespec''), ''interval'')],
     Proto Always Long ''sys_setpriority'' [(SInt, ''which''), (SInt, ''who''), (SInt, ''niceval'')],
     Proto Always Long ''sys_getpriority'' [(SInt, ''which''), (SInt, ''who'')]]"

text \<open>Lines 314--381: exit, wait, modules and signals.\<close>

definition syscalls_process :: "prototype list" where
  "syscalls_process =
    [Proto Always Long ''sys_shutdown'' [(SInt, ''''), (SInt, '''')],
     Proto Always Long ''sys_reboot'' [(SInt, ''magic1''), (SInt, ''magic2''), (UInt, ''cmd''),
         (User Void, ''arg'')],
     Proto Always Long ''sys_restart_syscall'' [],
     Proto Always Long ''sys_kexec_load'' [(ULong, ''entry''), (ULong, ''nr_segments''),
         (User (Struct ''kexec_segment''), ''segments''), (ULong, ''flags'')],
     Proto Always Long ''sys_kexec_file_load'' [(SInt, ''kernel_fd''), (SInt, ''initrd_fd''),
         (ULong, ''cmdline_len''), (User (Const Char), ''cmdline_ptr''), (ULong, ''flags'')],
     Proto Always Long ''sys_exit'' [(SInt, ''error_code'')],
     Proto Always Long ''sys_exit_group'' [(SInt, ''error_code'')],
     Proto Always Long ''sys_wait4'' [(Named ''pid_t'', ''pid''), (User SInt, ''stat_addr''),
         (SInt, ''options''), (User (Struct ''rusage''), ''ru'')],
     Proto Always Long ''sys_waitid'' [(SInt, ''which''), (Named ''pid_t'', ''pid''),
         (User (Struct ''siginfo''), ''infop''), (SInt, ''options''),
         (User (Struct ''rusage''), ''ru'')],
     Proto Always Long ''sys_waitpid'' [(Named ''pid_t'', ''pid''), (User SInt, ''stat_addr''),
         (SInt, ''options'')],
     Proto Always Long ''sys_set_tid_address'' [(User SInt, ''tidptr'')],
     Proto Always Long ''sys_futex'' [(User (Named ''u32''), ''uaddr''), (SInt, ''op''),
         (Named ''u32'', ''val''), (User (Struct ''timespec''), ''utime''),
         (User (Named ''u32''), ''uaddr2''), (Named ''u32'', ''val3'')],
     Proto Always Long ''sys_init_module'' [(User Void, ''umod''), (ULong, ''len''),
         (User (Const Char), ''uargs'')],
     Proto Always Long ''sys_delete_module'' [(User (Const Char), ''name_user''), (UInt, ''flags'')],
     Proto (Defined ''CONFIG_OLD_SIGSUSPEND'') Long ''sys_sigsuspend'' [(Named ''old_sigset_t'', ''mask'')],
     Proto (Defined ''CONFIG_OLD_SIGSUSPEND3'') Long ''sys_sigsuspend'' [(SInt, ''unused1''),
         (SInt, ''unused2''), (Named ''old_sigset_t'', ''mask'')],
     Proto Always Long ''sys_rt_sigsuspend'' [(User (Named ''sigset_t''), ''unewset''),
         (Named ''size_t'', ''sigsetsize'')],
     Proto (Defined ''CONFIG_OLD_SIGACTION'') Long ''sys_sigaction'' [(SInt, ''''),
         (User (Const (Struct ''old_sigaction'')), ''''), (User (Struct ''old_sigaction''), '''')],
     Proto (Undefined ''CONFIG_ODD_RT_SIGACTION'') Long ''sys_rt_sigaction'' [(SInt, ''''),
         (User (Const (Struct ''sigaction'')), ''''), (User (Struct ''sigaction''), ''''),
         (Named ''size_t'', '''')],
     Proto Always Long ''sys_rt_sigprocmask'' [(SInt, ''how''),
         (User (Named ''sigset_t''), ''set''), (User (Named ''sigset_t''), ''oset''),
         (Named ''size_t'', ''sigsetsize'')],
     Proto Always Long ''sys_rt_sigpending'' [(User (Named ''sigset_t''), ''set''),
         (Named ''size_t'', ''sigsetsize'')],
     Proto Always Long ''sys_rt_sigtimedwait'' [(User (Const (Named ''sigset_t'')), ''uthese''),
         (User (Named ''siginfo_t''), ''uinfo''), (User (Const (Struct ''timespec'')), ''uts''),
         (Named ''size_t'', ''sigsetsize'')],
     Proto Always Long ''sys_rt_tgsigqueueinfo'' [(Named ''pid_t'', ''tgid''),
         (Named ''pid_t'', ''pid''), (SInt, ''sig''), (User (Named ''siginfo_t''), ''uinfo'')],
     Proto Always Long ''sys_kill'' [(SInt, ''pid''), (SInt, ''sig'')],
     Proto Always Long ''sys_tgkill'' [(SInt, ''tgid''), (SInt, ''pid''), (SInt, ''sig'')],
     Proto Always Long ''sys_tkill'' [(SInt, ''pid''), (SInt, ''sig'')],
     Proto Always Long ''sys_rt_sigqueueinfo'' [(SInt, ''pid''), (SInt, ''sig''),
         (User (Named ''siginfo_t''), ''uinfo'')],
     Proto Always Long ''sys_sgetmask'' [],
     Proto Always Long ''sys_ssetmask'' [(SInt, ''newmask'')],
     Proto Always Long ''sys_signal'' [(SInt, ''sig''), (Named ''__sighandler_t'', ''handler'')],
     Proto Always Long ''sys_pause'' []]"

text \<open>Lines 383--444: mounts, status and extended attributes.\<close>

definition syscalls_fs :: "prototype list" where
  "syscalls_fs =
    [Proto Always Long ''sys_sync'' [],
     Proto Always Long ''sys_fsync'' [(UInt, ''fd'')],
     Proto Always Long ''sys_fdatasync'' [(UInt, ''fd'')],
     Proto Always Long ''sys_bdflush'' [(SInt, ''func''), (Long, ''data'')],
     Proto Always Long ''sys_mount'' [(User Char, ''dev_name''), (User Char, ''dir_name''),
         (User Char, ''type''), (ULong, ''flags''), (User Void, ''data'')],
     Proto Always Long ''sys_umount'' [(User Char, ''name''), (SInt, ''flags'')],
     Proto Always Long ''sys_oldumount'' [(User Char, ''name'')],
     Proto Always Long ''sys_truncate'' [(User (Const Char), ''path''), (Long, ''length'')],
     Proto Always Long ''sys_ftruncate'' [(UInt, ''fd''), (ULong, ''length'')],
     Proto Always Long ''sys_stat'' [(User (Const Char), ''filename''),
         (User (Struct ''__old_kernel_stat''), ''statbuf'')],
     Proto Always Long ''sys_statfs'' [(User (Const Char), ''path''),
         (User (Struct ''statfs''), ''buf'')],
     Proto Always Long ''sys_statfs64'' [(User (Const Char), ''path''), (Named ''size_t'', ''sz''),
         (User (Struct ''statfs64''), ''buf'')],
     Proto Always Long ''sys_fstatfs'' [(UInt, ''fd''), (User (Struct ''statfs''), ''buf'')],
     Proto Always Long ''sys_fstatfs64'' [(UInt, ''fd''), (Named ''size_t'', ''sz''),
         (User (Struct ''statfs64''), ''buf'')],
     Proto Always Long ''sys_lstat'' [(User (Const Char), ''filename''),
         (User (Struct ''__old_kernel_stat''), ''statbuf'')],
     Proto Always Long ''sys_fstat'' [(UInt, ''fd''),
         (User (Struct ''__old_kernel_stat''), ''statbuf'')],
     Proto Always Long ''sys_newstat'' [(User (Const Char), ''filename''),
         (User (Struct ''stat''), ''statbuf'')],
     Proto Always Long ''sys_newlstat'' [(User (Const Char), ''filename''),
         (User (Struct ''stat''), ''statbuf'')],
     Proto Always Long ''sys_newfstat'' [(UInt, ''fd''), (User (Struct ''stat''), ''statbuf'')],
     Proto Always Long ''sys_ustat'' [(UInt, ''dev''), (User (Struct ''ustat''), ''ubuf'')],
     Proto (Bits 32) Long ''sys_stat64'' [(User (Const Char), ''filename''),
         (User (Struct ''stat64''), ''statbuf'')],
     Proto (Bits 32) Long ''sys_fstat64'' [(ULong, ''fd''), (User (Struct ''stat64''), ''statbuf'')],
     Proto (Bits 32) Long ''sys_lstat64'' [(User (Const Char), ''filename''),
         (User (Struct ''stat64''), ''statbuf'')],
     Proto (Bits 32) Long ''sys_truncate64'' [(User (Const Char), ''path''),
         (Named ''loff_t'', ''length'')],
     Proto (Bits 32) Long ''sys_ftruncate64'' [(UInt, ''fd''), (Named ''loff_t'', ''length'')],
     Proto Always Long ''sys_setxattr'' [(User (Const Char), ''path''),
         (User (Const Char), ''name''), (User (Const Void), ''value''),
         (Named ''size_t'', ''size''), (SInt, ''flags'')],
     Proto Always Long ''sys_lsetxattr'' [(User (Const Char), ''path''),
         (User (Const Char), ''name''), (User (Const Void), ''value''),
         (Named ''size_t'', ''size''), (SInt, ''flags'')],
     Proto Always Long ''sys_fsetxattr'' [(SInt, ''fd''), (User (Const Char), ''name''),
         (User (Const Void), ''value''), (Named ''size_t'', ''size''), (SInt, ''flags'')],
     Proto Always Long ''sys_getxattr'' [(User (Const Char), ''path''),
         (User (Const Char), ''name''), (User Void, ''value''), (Named ''size_t'', ''size'')],
     Proto Always Long ''sys_lgetxattr'' [(User (Const Char), ''path''),
         (User (Const Char), ''name''), (User Void, ''value''), (Named ''size_t'', ''size'')],
     Proto Always Long ''sys_fgetxattr'' [(SInt, ''fd''), (User (Const Char), ''name''),
         (User Void, ''value''), (Named ''size_t'', ''size'')],
     Proto Always Long ''sys_listxattr'' [(User (Const Char), ''path''), (User Char, ''list''),
         (Named ''size_t'', ''size'')],
     Proto Always Long ''sys_llistxattr'' [(User (Const Char), ''path''), (User Char, ''list''),
         (Named ''size_t'', ''size'')],
     Proto Always Long ''sys_flistxattr'' [(SInt, ''fd''), (User Char, ''list''),
         (Named ''size_t'', ''size'')],
     Proto Always Long ''sys_removexattr'' [(User (Const Char), ''path''),
         (User (Const Char), ''name'')],
     Proto Always Long ''sys_lremovexattr'' [(User (Const Char), ''path''),
         (User (Const Char), ''name'')],
     Proto Always Long ''sys_fremovexattr'' [(SInt, ''fd''), (User (Const Char), ''name'')]]"

text \<open>Lines 446--479: memory and directories.\<close>

definition syscalls_mm :: "prototype list" where
  "syscalls_mm =
    [Proto Always Long ''sys_brk'' [(ULong, ''brk'')],
     Proto Always Long ''sys_mprotect'' [(ULong, ''start''), (Named ''size_t'', ''len''),
         (ULong, ''prot'')],
     Proto Always Long ''sys_mremap'' [(ULong, ''addr''), (ULong, ''old_len''),
         (ULong, ''new_len''), (ULong, ''flags''), (ULong, ''new_addr'')],
     Proto Always Long ''sys_remap_file_pages'' [(ULong, ''start''), (ULong, ''size''),
         (ULong, ''prot''), (ULong, ''pgoff''), (ULong, ''flags'')],
     Proto Always Long ''sys_msync'' [(ULong, ''start''), (Named ''size_t'', ''len''),
         (SInt, ''flags'')],
     Proto Always Long ''sys_fadvise64'' [(SInt, ''fd''), (Named ''loff_t'', ''offset''),
         (Named ''size_t'', ''len''), (SInt, ''advice'')],
     Proto Always Long ''sys_fadvise64_64'' [(SInt, ''fd''), (Named ''loff_t'', ''offset''),
         (Named ''loff_t'', ''len''), (SInt, ''advice'')],
     Proto Always Long ''sys_munmap'' [(ULong, ''addr''), (Named ''size_t'', ''len'')],
     Proto Always Long ''sys_mlock'' [(ULong, ''start''), (Named ''size_t'', ''len'')],
     Proto Always Long ''sys_munlock'' [(ULong, ''start''), (Named ''size_t'', ''len'')],
     Proto Always Long ''sys_mlockall'' [(SInt, ''flags'')],
     Proto Always Long ''sys_munlockall'' [],
     Proto Always Long ''sys_madvise'' [(ULong, ''start''), (Named ''size_t'', ''len''),
         (SInt, ''behavior'')],
     Proto Always Long ''sys_mincore'' [(ULong, ''start''), (Named ''size_t'', ''len''),
         (User UChar, ''vec'')],
     Proto Always Long ''sys_pivot_root'' [(User (Const Char), ''new_root''),
         (User (Const Char), ''put_old'')],
     Proto Always Long ''sys_chroot'' [(User (Const Char), ''filename'')],
     Proto Always Long ''sys_mknod'' [(User (Const Char), ''filename''),
         (Named ''umode_t'', ''mode''), (UInt, ''dev'')],
     Proto Always Long ''sys_link'' [(User (Const Char), ''oldname''),
         (User (Const Char), ''newname'')],
     Proto Always Long ''sys_symlink'' [(User (Const Char), ''old''), (User (Const Char), ''new'')],
     Proto Always Long ''sys_unlink'' [(User (Const Char), ''pathname'')],
     Proto Always Long ''sys_rename'' [(User (Const Char), ''oldname''),
         (User (Const Char), ''newname'')],
     Proto Always Long ''sys_chmod'' [(User (Const Char), ''filename''),
         (Named ''umode_t'', ''mode'')],
     Proto Always Long ''sys_fchmod'' [(UInt, ''fd''), (Named ''umode_t'', ''mode'')]]"

text \<open>Lines 481--547: descriptors, asynchronous input and output, owners.\<close>

definition syscalls_files :: "prototype list" where
  "syscalls_files =
    [Proto Always Long ''sys_fcntl'' [(UInt, ''fd''), (UInt, ''cmd''), (ULong, ''arg'')],
     Proto (Bits 32) Long ''sys_fcntl64'' [(UInt, ''fd''), (UInt, ''cmd''), (ULong, ''arg'')],
     Proto Always Long ''sys_pipe'' [(User SInt, ''fildes'')],
     Proto Always Long ''sys_pipe2'' [(User SInt, ''fildes''), (SInt, ''flags'')],
     Proto Always Long ''sys_dup'' [(UInt, ''fildes'')],
     Proto Always Long ''sys_dup2'' [(UInt, ''oldfd''), (UInt, ''newfd'')],
     Proto Always Long ''sys_dup3'' [(UInt, ''oldfd''), (UInt, ''newfd''), (SInt, ''flags'')],
     Proto Always Long ''sys_ioperm'' [(ULong, ''from''), (ULong, ''num''), (SInt, ''on'')],
     Proto Always Long ''sys_ioctl'' [(UInt, ''fd''), (UInt, ''cmd''), (ULong, ''arg'')],
     Proto Always Long ''sys_flock'' [(UInt, ''fd''), (UInt, ''cmd'')],
     Proto Always Long ''sys_io_setup'' [(UInt, ''nr_reqs''),
         (User (Named ''aio_context_t''), ''ctx'')],
     Proto Always Long ''sys_io_destroy'' [(Named ''aio_context_t'', ''ctx'')],
     Proto Always Long ''sys_io_getevents'' [(Named ''aio_context_t'', ''ctx_id''),
         (Long, ''min_nr''), (Long, ''nr''), (User (Struct ''io_event''), ''events''),
         (User (Struct ''timespec''), ''timeout'')],
     Proto Always Long ''sys_io_submit'' [(Named ''aio_context_t'', ''''), (Long, ''''),
         (User (User (Struct ''iocb'')), '''')],
     Proto Always Long ''sys_io_cancel'' [(Named ''aio_context_t'', ''ctx_id''),
         (User (Struct ''iocb''), ''iocb''), (User (Struct ''io_event''), ''result'')],
     Proto Always Long ''sys_sendfile'' [(SInt, ''out_fd''), (SInt, ''in_fd''),
         (User (Named ''off_t''), ''offset''), (Named ''size_t'', ''count'')],
     Proto Always Long ''sys_sendfile64'' [(SInt, ''out_fd''), (SInt, ''in_fd''),
         (User (Named ''loff_t''), ''offset''), (Named ''size_t'', ''count'')],
     Proto Always Long ''sys_readlink'' [(User (Const Char), ''path''), (User Char, ''buf''),
         (SInt, ''bufsiz'')],
     Proto Always Long ''sys_creat'' [(User (Const Char), ''pathname''),
         (Named ''umode_t'', ''mode'')],
     Proto Always Long ''sys_open'' [(User (Const Char), ''filename''), (SInt, ''flags''),
         (Named ''umode_t'', ''mode'')],
     Proto Always Long ''sys_close'' [(UInt, ''fd'')],
     Proto Always Long ''sys_access'' [(User (Const Char), ''filename''), (SInt, ''mode'')],
     Proto Always Long ''sys_vhangup'' [],
     Proto Always Long ''sys_chown'' [(User (Const Char), ''filename''),
         (Named ''uid_t'', ''user''), (Named ''gid_t'', ''group'')],
     Proto Always Long ''sys_lchown'' [(User (Const Char), ''filename''),
         (Named ''uid_t'', ''user''), (Named ''gid_t'', ''group'')],
     Proto Always Long ''sys_fchown'' [(UInt, ''fd''), (Named ''uid_t'', ''user''),
         (Named ''gid_t'', ''group'')],
     Proto (Defined ''CONFIG_UID16'') Long ''sys_chown16'' [(User (Const Char), ''filename''),
         (Named ''old_uid_t'', ''user''), (Named ''old_gid_t'', ''group'')],
     Proto (Defined ''CONFIG_UID16'') Long ''sys_lchown16'' [(User (Const Char), ''filename''),
         (Named ''old_uid_t'', ''user''), (Named ''old_gid_t'', ''group'')],
     Proto (Defined ''CONFIG_UID16'') Long ''sys_fchown16'' [(UInt, ''fd''),
         (Named ''old_uid_t'', ''user''), (Named ''old_gid_t'', ''group'')],
     Proto (Defined ''CONFIG_UID16'') Long ''sys_setregid16'' [(Named ''old_gid_t'', ''rgid''),
         (Named ''old_gid_t'', ''egid'')],
     Proto (Defined ''CONFIG_UID16'') Long ''sys_setgid16'' [(Named ''old_gid_t'', ''gid'')],
     Proto (Defined ''CONFIG_UID16'') Long ''sys_setreuid16'' [(Named ''old_uid_t'', ''ruid''),
         (Named ''old_uid_t'', ''euid'')],
     Proto (Defined ''CONFIG_UID16'') Long ''sys_setuid16'' [(Named ''old_uid_t'', ''uid'')],
     Proto (Defined ''CONFIG_UID16'') Long ''sys_setresuid16'' [(Named ''old_uid_t'', ''ruid''),
         (Named ''old_uid_t'', ''euid''), (Named ''old_uid_t'', ''suid'')],
     Proto (Defined ''CONFIG_UID16'') Long ''sys_getresuid16'' [(User (Named ''old_uid_t''), ''ruid''),
         (User (Named ''old_uid_t''), ''euid''), (User (Named ''old_uid_t''), ''suid'')],
     Proto (Defined ''CONFIG_UID16'') Long ''sys_setresgid16'' [(Named ''old_gid_t'', ''rgid''),
         (Named ''old_gid_t'', ''egid''), (Named ''old_gid_t'', ''sgid'')],
     Proto (Defined ''CONFIG_UID16'') Long ''sys_getresgid16'' [(User (Named ''old_gid_t''), ''rgid''),
         (User (Named ''old_gid_t''), ''egid''), (User (Named ''old_gid_t''), ''sgid'')],
     Proto (Defined ''CONFIG_UID16'') Long ''sys_setfsuid16'' [(Named ''old_uid_t'', ''uid'')],
     Proto (Defined ''CONFIG_UID16'') Long ''sys_setfsgid16'' [(Named ''old_gid_t'', ''gid'')],
     Proto (Defined ''CONFIG_UID16'') Long ''sys_getgroups16'' [(SInt, ''gidsetsize''),
         (User (Named ''old_gid_t''), ''grouplist'')],
     Proto (Defined ''CONFIG_UID16'') Long ''sys_setgroups16'' [(SInt, ''gidsetsize''),
         (User (Named ''old_gid_t''), ''grouplist'')],
     Proto (Defined ''CONFIG_UID16'') Long ''sys_getuid16'' [],
     Proto (Defined ''CONFIG_UID16'') Long ''sys_geteuid16'' [],
     Proto (Defined ''CONFIG_UID16'') Long ''sys_getgid16'' [],
     Proto (Defined ''CONFIG_UID16'') Long ''sys_getegid16'' []]"

text \<open>Lines 549--589: reading and writing.\<close>

definition syscalls_io :: "prototype list" where
  "syscalls_io =
    [Proto Always Long ''sys_utime'' [(User Char, ''filename''),
         (User (Struct ''utimbuf''), ''times'')],
     Proto Always Long ''sys_utimes'' [(User Char, ''filename''),
         (User (Struct ''timeval''), ''utimes'')],
     Proto Always Long ''sys_lseek'' [(UInt, ''fd''), (Named ''off_t'', ''offset''),
         (UInt, ''whence'')],
     Proto Always Long ''sys_llseek'' [(UInt, ''fd''), (ULong, ''offset_high''),
         (ULong, ''offset_low''), (User (Named ''loff_t''), ''result''), (UInt, ''whence'')],
     Proto Always Long ''sys_read'' [(UInt, ''fd''), (User Char, ''buf''),
         (Named ''size_t'', ''count'')],
     Proto Always Long ''sys_readahead'' [(SInt, ''fd''), (Named ''loff_t'', ''offset''),
         (Named ''size_t'', ''count'')],
     Proto Always Long ''sys_readv'' [(ULong, ''fd''), (User (Const (Struct ''iovec'')), ''vec''),
         (ULong, ''vlen'')],
     Proto Always Long ''sys_write'' [(UInt, ''fd''), (User (Const Char), ''buf''),
         (Named ''size_t'', ''count'')],
     Proto Always Long ''sys_writev'' [(ULong, ''fd''), (User (Const (Struct ''iovec'')), ''vec''),
         (ULong, ''vlen'')],
     Proto Always Long ''sys_pread64'' [(UInt, ''fd''), (User Char, ''buf''),
         (Named ''size_t'', ''count''), (Named ''loff_t'', ''pos'')],
     Proto Always Long ''sys_pwrite64'' [(UInt, ''fd''), (User (Const Char), ''buf''),
         (Named ''size_t'', ''count''), (Named ''loff_t'', ''pos'')],
     Proto Always Long ''sys_preadv'' [(ULong, ''fd''), (User (Const (Struct ''iovec'')), ''vec''),
         (ULong, ''vlen''), (ULong, ''pos_l''), (ULong, ''pos_h'')],
     Proto Always Long ''sys_pwritev'' [(ULong, ''fd''), (User (Const (Struct ''iovec'')), ''vec''),
         (ULong, ''vlen''), (ULong, ''pos_l''), (ULong, ''pos_h'')],
     Proto Always Long ''sys_getcwd'' [(User Char, ''buf''), (ULong, ''size'')],
     Proto Always Long ''sys_mkdir'' [(User (Const Char), ''pathname''),
         (Named ''umode_t'', ''mode'')],
     Proto Always Long ''sys_chdir'' [(User (Const Char), ''filename'')],
     Proto Always Long ''sys_fchdir'' [(UInt, ''fd'')],
     Proto Always Long ''sys_rmdir'' [(User (Const Char), ''pathname'')],
     Proto Always Long ''sys_lookup_dcookie'' [(Named ''u64'', ''cookie64''), (User Char, ''buf''),
         (Named ''size_t'', ''len'')],
     Proto Always Long ''sys_quotactl'' [(UInt, ''cmd''), (User (Const Char), ''special''),
         (Named ''qid_t'', ''id''), (User Void, ''addr'')],
     Proto Always Long ''sys_getdents'' [(UInt, ''fd''),
         (User (Struct ''linux_dirent''), ''dirent''), (UInt, ''count'')],
     Proto Always Long ''sys_getdents64'' [(UInt, ''fd''),
         (User (Struct ''linux_dirent64''), ''dirent''), (UInt, ''count'')]]"

text \<open>Lines 591--651: sockets, polling, host names and limits.\<close>

definition syscalls_net :: "prototype list" where
  "syscalls_net =
    [Proto Always Long ''sys_setsockopt'' [(SInt, ''fd''), (SInt, ''level''), (SInt, ''optname''),
         (User Char, ''optval''), (SInt, ''optlen'')],
     Proto Always Long ''sys_getsockopt'' [(SInt, ''fd''), (SInt, ''level''), (SInt, ''optname''),
         (User Char, ''optval''), (User SInt, ''optlen'')],
     Proto Always Long ''sys_bind'' [(SInt, ''''), (User (Struct ''sockaddr''), ''''), (SInt, '''')],
     Proto Always Long ''sys_connect'' [(SInt, ''''), (User (Struct ''sockaddr''), ''''),
         (SInt, '''')],
     Proto Always Long ''sys_accept'' [(SInt, ''''), (User (Struct ''sockaddr''), ''''),
         (User SInt, '''')],
     Proto Always Long ''sys_accept4'' [(SInt, ''''), (User (Struct ''sockaddr''), ''''),
         (User SInt, ''''), (SInt, '''')],
     Proto Always Long ''sys_getsockname'' [(SInt, ''''), (User (Struct ''sockaddr''), ''''),
         (User SInt, '''')],
     Proto Always Long ''sys_getpeername'' [(SInt, ''''), (User (Struct ''sockaddr''), ''''),
         (User SInt, '''')],
     Proto Always Long ''sys_send'' [(SInt, ''''), (User Void, ''''), (Named ''size_t'', ''''),
         (UInt, '''')],
     Proto Always Long ''sys_sendto'' [(SInt, ''''), (User Void, ''''), (Named ''size_t'', ''''),
         (UInt, ''''), (User (Struct ''sockaddr''), ''''), (SInt, '''')],
     Proto Always Long ''sys_sendmsg'' [(SInt, ''fd''), (User (Struct ''user_msghdr''), ''msg''),
         (UInt, ''flags'')],
     Proto Always Long ''sys_sendmmsg'' [(SInt, ''fd''), (User (Struct ''mmsghdr''), ''msg''),
         (UInt, ''vlen''), (UInt, ''flags'')],
     Proto Always Long ''sys_recv'' [(SInt, ''''), (User Void, ''''), (Named ''size_t'', ''''),
         (UInt, '''')],
     Proto Always Long ''sys_recvfrom'' [(SInt, ''''), (User Void, ''''), (Named ''size_t'', ''''),
         (UInt, ''''), (User (Struct ''sockaddr''), ''''), (User SInt, '''')],
     Proto Always Long ''sys_recvmsg'' [(SInt, ''fd''), (User (Struct ''user_msghdr''), ''msg''),
         (UInt, ''flags'')],
     Proto Always Long ''sys_recvmmsg'' [(SInt, ''fd''), (User (Struct ''mmsghdr''), ''msg''),
         (UInt, ''vlen''), (UInt, ''flags''), (User (Struct ''timespec''), ''timeout'')],
     Proto Always Long ''sys_socket'' [(SInt, ''''), (SInt, ''''), (SInt, '''')],
     Proto Always Long ''sys_socketpair'' [(SInt, ''''), (SInt, ''''), (SInt, ''''),
         (User SInt, '''')],
     Proto Always Long ''sys_socketcall'' [(SInt, ''call''), (User ULong, ''args'')],
     Proto Always Long ''sys_listen'' [(SInt, ''''), (SInt, '''')],
     Proto Always Long ''sys_poll'' [(User (Struct ''pollfd''), ''ufds''), (UInt, ''nfds''),
         (SInt, ''timeout'')],
     Proto Always Long ''sys_select'' [(SInt, ''n''), (User (Named ''fd_set''), ''inp''),
         (User (Named ''fd_set''), ''outp''), (User (Named ''fd_set''), ''exp''),
         (User (Struct ''timeval''), ''tvp'')],
     Proto Always Long ''sys_old_select'' [(User (Struct ''sel_arg_struct''), ''arg'')],
     Proto Always Long ''sys_epoll_create'' [(SInt, ''size'')],
     Proto Always Long ''sys_epoll_create1'' [(SInt, ''flags'')],
     Proto Always Long ''sys_epoll_ctl'' [(SInt, ''epfd''), (SInt, ''op''), (SInt, ''fd''),
         (User (Struct ''epoll_event''), ''event'')],
     Proto Always Long ''sys_epoll_wait'' [(SInt, ''epfd''),
         (User (Struct ''epoll_event''), ''events''), (SInt, ''maxevents''), (SInt, ''timeout'')],
     Proto Always Long ''sys_epoll_pwait'' [(SInt, ''epfd''),
         (User (Struct ''epoll_event''), ''events''), (SInt, ''maxevents''), (SInt, ''timeout''),
         (User (Const (Named ''sigset_t'')), ''sigmask''), (Named ''size_t'', ''sigsetsize'')],
     Proto Always Long ''sys_gethostname'' [(User Char, ''name''), (SInt, ''len'')],
     Proto Always Long ''sys_sethostname'' [(User Char, ''name''), (SInt, ''len'')],
     Proto Always Long ''sys_setdomainname'' [(User Char, ''name''), (SInt, ''len'')],
     Proto Always Long ''sys_newuname'' [(User (Struct ''new_utsname''), ''name'')],
     Proto Always Long ''sys_uname'' [(User (Struct ''old_utsname''), '''')],
     Proto Always Long ''sys_olduname'' [(User (Struct ''oldold_utsname''), '''')],
     Proto Always Long ''sys_getrlimit'' [(UInt, ''resource''),
         (User (Struct ''rlimit''), ''rlim'')],
     Proto (Either (Defined ''COMPAT_RLIM_OLD_INFINITY'') (Undefined ''CONFIG_IA64'')) Long ''sys_old_getrlimit'' [(UInt, ''resource''),
         (User (Struct ''rlimit''), ''rlim'')],
     Proto Always Long ''sys_setrlimit'' [(UInt, ''resource''),
         (User (Struct ''rlimit''), ''rlim'')],
     Proto Always Long ''sys_prlimit64'' [(Named ''pid_t'', ''pid''), (UInt, ''resource''),
         (User (Const (Struct ''rlimit64'')), ''new_rlim''),
         (User (Struct ''rlimit64''), ''old_rlim'')],
     Proto Always Long ''sys_getrusage'' [(SInt, ''who''), (User (Struct ''rusage''), ''ru'')],
     Proto Always Long ''sys_umask'' [(SInt, ''mask'')]]"

text \<open>Lines 653--701: messages, semaphores, shared memory and system control.\<close>

definition syscalls_ipc :: "prototype list" where
  "syscalls_ipc =
    [Proto Always Long ''sys_msgget'' [(Named ''key_t'', ''key''), (SInt, ''msgflg'')],
     Proto Always Long ''sys_msgsnd'' [(SInt, ''msqid''), (User (Struct ''msgbuf''), ''msgp''),
         (Named ''size_t'', ''msgsz''), (SInt, ''msgflg'')],
     Proto Always Long ''sys_msgrcv'' [(SInt, ''msqid''), (User (Struct ''msgbuf''), ''msgp''),
         (Named ''size_t'', ''msgsz''), (Long, ''msgtyp''), (SInt, ''msgflg'')],
     Proto Always Long ''sys_msgctl'' [(SInt, ''msqid''), (SInt, ''cmd''),
         (User (Struct ''msqid_ds''), ''buf'')],
     Proto Always Long ''sys_semget'' [(Named ''key_t'', ''key''), (SInt, ''nsems''),
         (SInt, ''semflg'')],
     Proto Always Long ''sys_semop'' [(SInt, ''semid''), (User (Struct ''sembuf''), ''sops''),
         (UInt, ''nsops'')],
     Proto Always Long ''sys_semctl'' [(SInt, ''semid''), (SInt, ''semnum''), (SInt, ''cmd''),
         (ULong, ''arg'')],
     Proto Always Long ''sys_semtimedop'' [(SInt, ''semid''), (User (Struct ''sembuf''), ''sops''),
         (UInt, ''nsops''), (User (Const (Struct ''timespec'')), ''timeout'')],
     Proto Always Long ''sys_shmat'' [(SInt, ''shmid''), (User Char, ''shmaddr''),
         (SInt, ''shmflg'')],
     Proto Always Long ''sys_shmget'' [(Named ''key_t'', ''key''), (Named ''size_t'', ''size''),
         (SInt, ''flag'')],
     Proto Always Long ''sys_shmdt'' [(User Char, ''shmaddr'')],
     Proto Always Long ''sys_shmctl'' [(SInt, ''shmid''), (SInt, ''cmd''),
         (User (Struct ''shmid_ds''), ''buf'')],
     Proto Always Long ''sys_ipc'' [(UInt, ''call''), (SInt, ''first''), (ULong, ''second''),
         (ULong, ''third''), (User Void, ''ptr''), (Long, ''fifth'')],
     Proto Always Long ''sys_mq_open'' [(User (Const Char), ''name''), (SInt, ''oflag''),
         (Named ''umode_t'', ''mode''), (User (Struct ''mq_attr''), ''attr'')],
     Proto Always Long ''sys_mq_unlink'' [(User (Const Char), ''name'')],
     Proto Always Long ''sys_mq_timedsend'' [(Named ''mqd_t'', ''mqdes''),
         (User (Const Char), ''msg_ptr''), (Named ''size_t'', ''msg_len''), (UInt, ''msg_prio''),
         (User (Const (Struct ''timespec'')), ''abs_timeout'')],
     Proto Always Long ''sys_mq_timedreceive'' [(Named ''mqd_t'', ''mqdes''),
         (User Char, ''msg_ptr''), (Named ''size_t'', ''msg_len''), (User UInt, ''msg_prio''),
         (User (Const (Struct ''timespec'')), ''abs_timeout'')],
     Proto Always Long ''sys_mq_notify'' [(Named ''mqd_t'', ''mqdes''),
         (User (Const (Struct ''sigevent'')), ''notification'')],
     Proto Always Long ''sys_mq_getsetattr'' [(Named ''mqd_t'', ''mqdes''),
         (User (Const (Struct ''mq_attr'')), ''mqstat''), (User (Struct ''mq_attr''), ''omqstat'')],
     Proto Always Long ''sys_pciconfig_iobase'' [(Long, ''which''), (ULong, ''bus''),
         (ULong, ''devfn'')],
     Proto Always Long ''sys_pciconfig_read'' [(ULong, ''bus''), (ULong, ''dfn''), (ULong, ''off''),
         (ULong, ''len''), (User Void, ''buf'')],
     Proto Always Long ''sys_pciconfig_write'' [(ULong, ''bus''), (ULong, ''dfn''),
         (ULong, ''off''), (ULong, ''len''), (User Void, ''buf'')],
     Proto Always Long ''sys_prctl'' [(SInt, ''option''), (ULong, ''arg2''), (ULong, ''arg3''),
         (ULong, ''arg4''), (ULong, ''arg5'')],
     Proto Always Long ''sys_swapon'' [(User (Const Char), ''specialfile''), (SInt, ''swap_flags'')],
     Proto Always Long ''sys_swapoff'' [(User (Const Char), ''specialfile'')],
     Proto Always Long ''sys_sysctl'' [(User (Struct ''__sysctl_args''), ''args'')],
     Proto Always Long ''sys_sysinfo'' [(User (Struct ''sysinfo''), ''info'')],
     Proto Always Long ''sys_sysfs'' [(SInt, ''option''), (ULong, ''arg1''), (ULong, ''arg2'')],
     Proto Always Long ''sys_syslog'' [(SInt, ''type''), (User Char, ''buf''), (SInt, ''len'')],
     Proto Always Long ''sys_uselib'' [(User (Const Char), ''library'')],
     Proto Always Long ''sys_ni_syscall'' [],
     Proto Always Long ''sys_ptrace'' [(Long, ''request''), (Long, ''pid''), (ULong, ''addr''),
         (ULong, ''data'')]]"

text \<open>Lines 703--748: keys, memory policy and notification.\<close>

definition syscalls_keys :: "prototype list" where
  "syscalls_keys =
    [Proto Always Long ''sys_add_key'' [(User (Const Char), ''_type''),
         (User (Const Char), ''_description''), (User (Const Void), ''_payload''),
         (Named ''size_t'', ''plen''), (Named ''key_serial_t'', ''destringid'')],
     Proto Always Long ''sys_request_key'' [(User (Const Char), ''_type''),
         (User (Const Char), ''_description''), (User (Const Char), ''_callout_info''),
         (Named ''key_serial_t'', ''destringid'')],
     Proto Always Long ''sys_keyctl'' [(SInt, ''cmd''), (ULong, ''arg2''), (ULong, ''arg3''),
         (ULong, ''arg4''), (ULong, ''arg5'')],
     Proto Always Long ''sys_ioprio_set'' [(SInt, ''which''), (SInt, ''who''), (SInt, ''ioprio'')],
     Proto Always Long ''sys_ioprio_get'' [(SInt, ''which''), (SInt, ''who'')],
     Proto Always Long ''sys_set_mempolicy'' [(SInt, ''mode''), (User (Const ULong), ''nmask''),
         (ULong, ''maxnode'')],
     Proto Always Long ''sys_migrate_pages'' [(Named ''pid_t'', ''pid''), (ULong, ''maxnode''),
         (User (Const ULong), ''from''), (User (Const ULong), ''to'')],
     Proto Always Long ''sys_move_pages'' [(Named ''pid_t'', ''pid''), (ULong, ''nr_pages''),
         (User (User (Const Void)), ''pages''), (User (Const SInt), ''nodes''),
         (User SInt, ''status''), (SInt, ''flags'')],
     Proto Always Long ''sys_mbind'' [(ULong, ''start''), (ULong, ''len''), (ULong, ''mode''),
         (User (Const ULong), ''nmask''), (ULong, ''maxnode''), (UInt, ''flags'')],
     Proto Always Long ''sys_get_mempolicy'' [(User SInt, ''policy''), (User ULong, ''nmask''),
         (ULong, ''maxnode''), (ULong, ''addr''), (ULong, ''flags'')],
     Proto Always Long ''sys_inotify_init'' [],
     Proto Always Long ''sys_inotify_init1'' [(SInt, ''flags'')],
     Proto Always Long ''sys_inotify_add_watch'' [(SInt, ''fd''), (User (Const Char), ''path''),
         (Named ''u32'', ''mask'')],
     Proto Always Long ''sys_inotify_rm_watch'' [(SInt, ''fd''), (Named ''__s32'', ''wd'')],
     Proto Always Long ''sys_spu_run'' [(SInt, ''fd''), (User (Named ''__u32''), ''unpc''),
         (User (Named ''__u32''), ''ustatus'')],
     Proto Always Long ''sys_spu_create'' [(User (Const Char), ''name''), (UInt, ''flags''),
         (Named ''umode_t'', ''mode''), (SInt, ''fd'')]]"

text \<open>Lines 750--823: calls relative to a directory, splicing and event descriptors.\<close>

definition syscalls_at :: "prototype list" where
  "syscalls_at =
    [Proto Always Long ''sys_mknodat'' [(SInt, ''dfd''), (User (Const Char), ''filename''),
         (Named ''umode_t'', ''mode''), (UInt, ''dev'')],
     Proto Always Long ''sys_mkdirat'' [(SInt, ''dfd''), (User (Const Char), ''pathname''),
         (Named ''umode_t'', ''mode'')],
     Proto Always Long ''sys_unlinkat'' [(SInt, ''dfd''), (User (Const Char), ''pathname''),
         (SInt, ''flag'')],
     Proto Always Long ''sys_symlinkat'' [(User (Const Char), ''oldname''), (SInt, ''newdfd''),
         (User (Const Char), ''newname'')],
     Proto Always Long ''sys_linkat'' [(SInt, ''olddfd''), (User (Const Char), ''oldname''),
         (SInt, ''newdfd''), (User (Const Char), ''newname''), (SInt, ''flags'')],
     Proto Always Long ''sys_renameat'' [(SInt, ''olddfd''), (User (Const Char), ''oldname''),
         (SInt, ''newdfd''), (User (Const Char), ''newname'')],
     Proto Always Long ''sys_renameat2'' [(SInt, ''olddfd''), (User (Const Char), ''oldname''),
         (SInt, ''newdfd''), (User (Const Char), ''newname''), (UInt, ''flags'')],
     Proto Always Long ''sys_futimesat'' [(SInt, ''dfd''), (User (Const Char), ''filename''),
         (User (Struct ''timeval''), ''utimes'')],
     Proto Always Long ''sys_faccessat'' [(SInt, ''dfd''), (User (Const Char), ''filename''),
         (SInt, ''mode'')],
     Proto Always Long ''sys_fchmodat'' [(SInt, ''dfd''), (User (Const Char), ''filename''),
         (Named ''umode_t'', ''mode'')],
     Proto Always Long ''sys_fchownat'' [(SInt, ''dfd''), (User (Const Char), ''filename''),
         (Named ''uid_t'', ''user''), (Named ''gid_t'', ''group''), (SInt, ''flag'')],
     Proto Always Long ''sys_openat'' [(SInt, ''dfd''), (User (Const Char), ''filename''),
         (SInt, ''flags''), (Named ''umode_t'', ''mode'')],
     Proto Always Long ''sys_newfstatat'' [(SInt, ''dfd''), (User (Const Char), ''filename''),
         (User (Struct ''stat''), ''statbuf''), (SInt, ''flag'')],
     Proto Always Long ''sys_fstatat64'' [(SInt, ''dfd''), (User (Const Char), ''filename''),
         (User (Struct ''stat64''), ''statbuf''), (SInt, ''flag'')],
     Proto Always Long ''sys_readlinkat'' [(SInt, ''dfd''), (User (Const Char), ''path''),
         (User Char, ''buf''), (SInt, ''bufsiz'')],
     Proto Always Long ''sys_utimensat'' [(SInt, ''dfd''), (User (Const Char), ''filename''),
         (User (Struct ''timespec''), ''utimes''), (SInt, ''flags'')],
     Proto Always Long ''sys_unshare'' [(ULong, ''unshare_flags'')],
     Proto Always Long ''sys_splice'' [(SInt, ''fd_in''), (User (Named ''loff_t''), ''off_in''),
         (SInt, ''fd_out''), (User (Named ''loff_t''), ''off_out''), (Named ''size_t'', ''len''),
         (UInt, ''flags'')],
     Proto Always Long ''sys_vmsplice'' [(SInt, ''fd''), (User (Const (Struct ''iovec'')), ''iov''),
         (ULong, ''nr_segs''), (UInt, ''flags'')],
     Proto Always Long ''sys_tee'' [(SInt, ''fdin''), (SInt, ''fdout''),
         (Named ''size_t'', ''len''), (UInt, ''flags'')],
     Proto Always Long ''sys_sync_file_range'' [(SInt, ''fd''), (Named ''loff_t'', ''offset''),
         (Named ''loff_t'', ''nbytes''), (UInt, ''flags'')],
     Proto Always Long ''sys_sync_file_range2'' [(SInt, ''fd''), (UInt, ''flags''),
         (Named ''loff_t'', ''offset''), (Named ''loff_t'', ''nbytes'')],
     Proto Always Long ''sys_get_robust_list'' [(SInt, ''pid''),
         (User (User (Struct ''robust_list_head'')), ''head_ptr''),
         (User (Named ''size_t''), ''len_ptr'')],
     Proto Always Long ''sys_set_robust_list'' [(User (Struct ''robust_list_head''), ''head''),
         (Named ''size_t'', ''len'')],
     Proto Always Long ''sys_getcpu'' [(User UInt, ''cpu''), (User UInt, ''node''),
         (User (Struct ''getcpu_cache''), ''cache'')],
     Proto Always Long ''sys_signalfd'' [(SInt, ''ufd''),
         (User (Named ''sigset_t''), ''user_mask''), (Named ''size_t'', ''sizemask'')],
     Proto Always Long ''sys_signalfd4'' [(SInt, ''ufd''),
         (User (Named ''sigset_t''), ''user_mask''), (Named ''size_t'', ''sizemask''),
         (SInt, ''flags'')],
     Proto Always Long ''sys_timerfd_create'' [(SInt, ''clockid''), (SInt, ''flags'')],
     Proto Always Long ''sys_timerfd_settime'' [(SInt, ''ufd''), (SInt, ''flags''),
         (User (Const (Struct ''itimerspec'')), ''utmr''), (User (Struct ''itimerspec''), ''otmr'')],
     Proto Always Long ''sys_timerfd_gettime'' [(SInt, ''ufd''),
         (User (Struct ''itimerspec''), ''otmr'')],
     Proto Always Long ''sys_eventfd'' [(UInt, ''count'')],
     Proto Always Long ''sys_eventfd2'' [(UInt, ''count''), (SInt, ''flags'')],
     Proto Always Long ''sys_memfd_create'' [(User (Const Char), ''uname_ptr''), (UInt, ''flags'')],
     Proto Always Long ''sys_fallocate'' [(SInt, ''fd''), (SInt, ''mode''),
         (Named ''loff_t'', ''offset''), (Named ''loff_t'', ''len'')],
     Proto Always Long ''sys_old_readdir'' [(UInt, ''''),
         (User (Struct ''old_linux_dirent''), ''''), (UInt, '''')],
     Proto Always Long ''sys_pselect6'' [(SInt, ''''), (User (Named ''fd_set''), ''''),
         (User (Named ''fd_set''), ''''), (User (Named ''fd_set''), ''''),
         (User (Struct ''timespec''), ''''), (User Void, '''')],
     Proto Always Long ''sys_ppoll'' [(User (Struct ''pollfd''), ''''), (UInt, ''''),
         (User (Struct ''timespec''), ''''), (User (Const (Named ''sigset_t'')), ''''),
         (Named ''size_t'', '''')],
     Proto Always Long ''sys_fanotify_init'' [(UInt, ''flags''), (UInt, ''event_f_flags'')],
     Proto Always Long ''sys_fanotify_mark'' [(SInt, ''fanotify_fd''), (UInt, ''flags''),
         (Named ''u64'', ''mask''), (SInt, ''fd''), (User (Const Char), ''pathname'')],
     Proto Always Long ''sys_syncfs'' [(SInt, ''fd'')]]"

text \<open>Lines 825--887: processes, program execution and the calls of the project.\<close>

definition syscalls_clone :: "prototype list" where
  "syscalls_clone =
    [Proto Always Long ''sys_fork'' [],
     Proto Always Long ''sys_vfork'' [],
     Proto (Defined ''CONFIG_CLONE_BACKWARDS'') Long ''sys_clone'' [(ULong, ''''), (ULong, ''''),
         (User SInt, ''''), (SInt, ''''), (User SInt, '''')],
     Proto (Both (Undefined ''CONFIG_CLONE_BACKWARDS'') (Defined ''CONFIG_CLONE_BACKWARDS3'')) Long ''sys_clone'' [(ULong, ''''),
         (ULong, ''''), (SInt, ''''), (User SInt, ''''), (User SInt, ''''), (SInt, '''')],
     Proto (Both (Undefined ''CONFIG_CLONE_BACKWARDS'') (Undefined ''CONFIG_CLONE_BACKWARDS3'')) Long ''sys_clone'' [(ULong, ''''),
         (ULong, ''''), (User SInt, ''''), (User SInt, ''''), (SInt, '''')],
     Proto Always Long ''sys_execve'' [(User (Const Char), ''filename''),
         (User (Const (User (Const Char))), ''argv''), (User (Const (User (Const Char))), ''envp'')],
     Proto Always Long ''sys_perf_event_open'' [(User (Struct ''perf_event_attr''), ''attr_uptr''),
         (Named ''pid_t'', ''pid''), (SInt, ''cpu''), (SInt, ''group_fd''), (ULong, ''flags'')],
     Proto Always Long ''sys_mmap_pgoff'' [(ULong, ''addr''), (ULong, ''len''), (ULong, ''prot''),
         (ULong, ''flags''), (ULong, ''fd''), (ULong, ''pgoff'')],
     Proto Always Long ''sys_old_mmap'' [(User (Struct ''mmap_arg_struct''), ''arg'')],
     Proto Always Long ''sys_name_to_handle_at'' [(SInt, ''dfd''), (User (Const Char), ''name''),
         (User (Struct ''file_handle''), ''handle''), (User SInt, ''mnt_id''), (SInt, ''flag'')],
     Proto Always Long ''sys_open_by_handle_at'' [(SInt, ''mountdirfd''),
         (User (Struct ''file_handle''), ''handle''), (SInt, ''flags'')],
     Proto Always Long ''sys_setns'' [(SInt, ''fd''), (SInt, ''nstype'')],
     Proto Always Long ''sys_process_vm_readv'' [(Named ''pid_t'', ''pid''),
         (User (Const (Struct ''iovec'')), ''lvec''), (ULong, ''liovcnt''),
         (User (Const (Struct ''iovec'')), ''rvec''), (ULong, ''riovcnt''), (ULong, ''flags'')],
     Proto Always Long ''sys_process_vm_writev'' [(Named ''pid_t'', ''pid''),
         (User (Const (Struct ''iovec'')), ''lvec''), (ULong, ''liovcnt''),
         (User (Const (Struct ''iovec'')), ''rvec''), (ULong, ''riovcnt''), (ULong, ''flags'')],
     Proto Always Long ''sys_kcmp'' [(Named ''pid_t'', ''pid1''), (Named ''pid_t'', ''pid2''),
         (SInt, ''type''), (ULong, ''idx1''), (ULong, ''idx2'')],
     Proto Always Long ''sys_finit_module'' [(SInt, ''fd''), (User (Const Char), ''uargs''),
         (SInt, ''flags'')],
     Proto Always Long ''sys_seccomp'' [(UInt, ''op''), (UInt, ''flags''),
         (User (Const Char), ''uargs'')],
     Proto Always Long ''sys_getrandom'' [(User Char, ''buf''), (Named ''size_t'', ''count''),
         (UInt, ''flags'')],
     Proto Always Long ''sys_bpf'' [(SInt, ''cmd''), (Ptr (Union ''bpf_attr''), ''attr''),
         (UInt, ''size'')],
     Proto Always Long ''sys_execveat'' [(SInt, ''dfd''), (User (Const Char), ''filename''),
         (User (Const (User (Const Char))), ''argv''), (User (Const (User (Const Char))), ''envp''),
         (SInt, ''flags'')],
     Proto Always Long ''sys_slob_free'' [],
     Proto Always Long ''sys_slob_use'' []]"

definition syscalls_h :: "prototype list" where
  "syscalls_h =
     syscalls_ids @ syscalls_timers @ syscalls_process @ syscalls_fs @ syscalls_mm @ syscalls_files @
     syscalls_io @ syscalls_net @ syscalls_ipc @ syscalls_keys @ syscalls_at @ syscalls_clone"

subsection \<open>What a configuration declares\<close>

record config =
  defined :: "string \<Rightarrow> bool"
  BITS_PER_LONG :: nat

fun enabled :: "config \<Rightarrow> guard \<Rightarrow> bool" where
  "enabled c Always = True"
| "enabled c (Defined x) = defined c x"
| "enabled c (Undefined x) = (\<not> defined c x)"
| "enabled c (Bits n) = (BITS_PER_LONG c = n)"
| "enabled c (Both g h) = (enabled c g \<and> enabled c h)"
| "enabled c (Either g h) = (enabled c g \<or> enabled c h)"

definition declared :: "config \<Rightarrow> prototype list" where
  "declared c = filter (\<lambda>p. enabled c (guard_of p)) syscalls_h"

definition prototypes_of :: "config \<Rightarrow> string \<Rightarrow> prototype list" where
  "prototypes_of c n = filter (\<lambda>p. name_of p = n) (declared c)"

text \<open>The system calls that \<^verbatim>\<open>slob.c\<close> defines.\<close>

definition slob_syscalls :: "prototype list" where
  "slob_syscalls = [Proto Always Long ''sys_slob_free'' [], Proto Always Long ''sys_slob_used'' []]"

subsection \<open>Well-typed prototypes\<close>

text \<open>
  The type names that the prototypes use for parameters, as the headers of the kernel
  declare them for the 32-bit x86 that the project builds for.
\<close>

definition i386_typedefs :: "(string \<times> ctype) list" where
  "i386_typedefs =
     [(''pid_t'', SInt), (''uid_t'', UInt), (''gid_t'', UInt), (''old_uid_t'', UShort), (''old_gid_t'', UShort),
      (''qid_t'', UInt), (''umode_t'', UShort), (''size_t'', UInt), (''off_t'', Long), (''loff_t'', LLong),
      (''clockid_t'', SInt), (''timer_t'', SInt), (''key_t'', SInt), (''key_serial_t'', SInt), (''mqd_t'', SInt),
      (''aio_context_t'', ULong), (''old_sigset_t'', ULong), (''u32'', UInt), (''__s32'', SInt), (''u64'', ULLong),
      (''__sighandler_t'', User (Named ''__signalfn_t'')),
      (''cap_user_header_t'', User (Struct ''__user_cap_header_struct'')),
      (''cap_user_data_t'', User (Struct ''__user_cap_data_struct''))]"

definition i386_types :: "(string \<Rightarrow> ctype) \<Rightarrow> bool" where
  "i386_types td \<longleftrightarrow> list_all (\<lambda>(n, t). td n = t) i386_typedefs"

definition i386 :: arch where
  "i386 = \<lparr>long_bits = 32, typedefs = (\<lambda>n. case map_of i386_typedefs n of Some t \<Rightarrow> t | None \<Rightarrow> Void)\<rparr>"

text \<open>The tags and type names that the included headers declare.\<close>

definition header_types :: "ctype list" where
  "header_types =
     [Struct ''siginfo'', Struct ''sigevent'', Struct ''sigaction'', Struct ''old_sigaction'', Struct ''ustat'',
      Named ''pid_t'', Named ''uid_t'', Named ''gid_t'', Named ''old_uid_t'', Named ''old_gid_t'', Named ''qid_t'',
      Named ''umode_t'', Named ''size_t'', Named ''off_t'', Named ''loff_t'', Named ''time_t'', Named ''clockid_t'',
      Named ''timer_t'', Named ''key_t'', Named ''key_serial_t'', Named ''mqd_t'', Named ''aio_context_t'',
      Named ''old_sigset_t'', Named ''sigset_t'', Named ''siginfo_t'', Named ''fd_set'', Named ''u32'', Named ''__u32'',
      Named ''__s32'', Named ''u64'', Named ''__sighandler_t'', Named ''cap_user_header_t'', Named ''cap_user_data_t'']"

text \<open>The tags and type names that a type mentions, behind pointers too.\<close>

fun mentions :: "ctype \<Rightarrow> ctype list" where
  "mentions (Struct s) = [Struct s]"
| "mentions (Union s) = [Union s]"
| "mentions (Named s) = [Named s]"
| "mentions (Const t) = mentions t"
| "mentions (User t) = mentions t"
| "mentions (Ptr t) = mentions t"
| "mentions t = []"

fun user_pointers :: "ctype \<Rightarrow> bool" where
  "user_pointers (Const t) = user_pointers t"
| "user_pointers (User t) = user_pointers t"
| "user_pointers (Ptr t) = False"
| "user_pointers t = True"

text \<open>The registers that an argument takes.\<close>

definition registers :: "arch \<Rightarrow> param \<Rightarrow> nat" where
  "registers a p = (if TYPE_IS_LL a (fst p) \<and> long_bits a = 32 then 2 else 1)"

definition param_ok :: "arch \<Rightarrow> ctype list \<Rightarrow> param \<Rightarrow> bool" where
  "param_ok a incl p \<longleftrightarrow>
     0 < width a (fst p) \<and> SC_TEST a p \<and> list_all (\<lambda>t. t \<in> set (forward_tags @ incl)) (mentions (fst p))"

definition proto_ok :: "arch \<Rightarrow> ctype list \<Rightarrow> prototype \<Rightarrow> bool" where
  "proto_ok a incl p \<longleftrightarrow>
     result p = Long \<and> list_all (param_ok a incl) (params p) \<and>
     sum_list (map (registers a) (params p)) \<le> 6"

definition user_proto :: "prototype \<Rightarrow> bool" where
  "user_proto p \<longleftrightarrow> list_all (user_pointers \<circ> fst) (params p)"

lemmas ok_simps = proto_ok_def param_ok_def registers_def SC_TEST_def TYPE_IS_LL_def width_def resolve_def

lemmas group_defs = syscalls_ids_def syscalls_timers_def syscalls_process_def syscalls_fs_def syscalls_mm_def
      syscalls_files_def syscalls_io_def syscalls_net_def syscalls_ipc_def syscalls_keys_def
      syscalls_at_def syscalls_clone_def

subsection \<open>The table, group by group\<close>

lemma groups_ok:
  assumes "long_bits a = 32" "i386_types (typedefs a)" "set header_types \<subseteq> set incl"
  shows "list_all (proto_ok a incl) syscalls_ids"
    "list_all (proto_ok a incl) syscalls_timers"
    "list_all (proto_ok a incl) syscalls_process"
    "list_all (proto_ok a incl) syscalls_fs"
    "list_all (proto_ok a incl) syscalls_mm"
    "list_all (proto_ok a incl) syscalls_files"
    "list_all (proto_ok a incl) syscalls_io"
    "list_all (proto_ok a incl) syscalls_net"
    "list_all (proto_ok a incl) syscalls_ipc"
    "list_all (proto_ok a incl) syscalls_keys"
    "list_all (proto_ok a incl) syscalls_at"
    "list_all (proto_ok a incl) syscalls_clone"
  using assms unfolding i386_types_def i386_typedefs_def header_types_def
  by (simp_all add: group_defs ok_simps forward_tags_def)

lemma groups_user:
  "list_all (\<lambda>p. user_proto p = (name_of p \<noteq> ''sys_bpf'')) syscalls_ids"
  "list_all (\<lambda>p. user_proto p = (name_of p \<noteq> ''sys_bpf'')) syscalls_timers"
  "list_all (\<lambda>p. user_proto p = (name_of p \<noteq> ''sys_bpf'')) syscalls_process"
  "list_all (\<lambda>p. user_proto p = (name_of p \<noteq> ''sys_bpf'')) syscalls_fs"
  "list_all (\<lambda>p. user_proto p = (name_of p \<noteq> ''sys_bpf'')) syscalls_mm"
  "list_all (\<lambda>p. user_proto p = (name_of p \<noteq> ''sys_bpf'')) syscalls_files"
  "list_all (\<lambda>p. user_proto p = (name_of p \<noteq> ''sys_bpf'')) syscalls_io"
  "list_all (\<lambda>p. user_proto p = (name_of p \<noteq> ''sys_bpf'')) syscalls_net"
  "list_all (\<lambda>p. user_proto p = (name_of p \<noteq> ''sys_bpf'')) syscalls_ipc"
  "list_all (\<lambda>p. user_proto p = (name_of p \<noteq> ''sys_bpf'')) syscalls_keys"
  "list_all (\<lambda>p. user_proto p = (name_of p \<noteq> ''sys_bpf'')) syscalls_at"
  "list_all (\<lambda>p. user_proto p = (name_of p \<noteq> ''sys_bpf'')) syscalls_clone"
  by (simp_all add: group_defs user_proto_def)

lemma groups_names:
  "list_all (\<lambda>p. (take 4 (name_of p) = ''sys_'') = (name_of p \<noteq> ''sys32_quotactl'')) syscalls_ids"
  "list_all (\<lambda>p. (take 4 (name_of p) = ''sys_'') = (name_of p \<noteq> ''sys32_quotactl'')) syscalls_timers"
  "list_all (\<lambda>p. (take 4 (name_of p) = ''sys_'') = (name_of p \<noteq> ''sys32_quotactl'')) syscalls_process"
  "list_all (\<lambda>p. (take 4 (name_of p) = ''sys_'') = (name_of p \<noteq> ''sys32_quotactl'')) syscalls_fs"
  "list_all (\<lambda>p. (take 4 (name_of p) = ''sys_'') = (name_of p \<noteq> ''sys32_quotactl'')) syscalls_mm"
  "list_all (\<lambda>p. (take 4 (name_of p) = ''sys_'') = (name_of p \<noteq> ''sys32_quotactl'')) syscalls_files"
  "list_all (\<lambda>p. (take 4 (name_of p) = ''sys_'') = (name_of p \<noteq> ''sys32_quotactl'')) syscalls_io"
  "list_all (\<lambda>p. (take 4 (name_of p) = ''sys_'') = (name_of p \<noteq> ''sys32_quotactl'')) syscalls_net"
  "list_all (\<lambda>p. (take 4 (name_of p) = ''sys_'') = (name_of p \<noteq> ''sys32_quotactl'')) syscalls_ipc"
  "list_all (\<lambda>p. (take 4 (name_of p) = ''sys_'') = (name_of p \<noteq> ''sys32_quotactl'')) syscalls_keys"
  "list_all (\<lambda>p. (take 4 (name_of p) = ''sys_'') = (name_of p \<noteq> ''sys32_quotactl'')) syscalls_at"
  "list_all (\<lambda>p. (take 4 (name_of p) = ''sys_'') = (name_of p \<noteq> ''sys32_quotactl'')) syscalls_clone"
  by (simp_all add: group_defs)

lemma groups_other:
  "list_all (\<lambda>p. name_of p \<noteq> ''sys_clone'' \<and> name_of p \<noteq> ''sys_slob_free'' \<and> name_of p \<noteq> ''sys_slob_use'' \<and> name_of p \<noteq> ''sys_slob_used'') syscalls_ids"
  "list_all (\<lambda>p. name_of p \<noteq> ''sys_clone'' \<and> name_of p \<noteq> ''sys_slob_free'' \<and> name_of p \<noteq> ''sys_slob_use'' \<and> name_of p \<noteq> ''sys_slob_used'') syscalls_timers"
  "list_all (\<lambda>p. name_of p \<noteq> ''sys_clone'' \<and> name_of p \<noteq> ''sys_slob_free'' \<and> name_of p \<noteq> ''sys_slob_use'' \<and> name_of p \<noteq> ''sys_slob_used'') syscalls_process"
  "list_all (\<lambda>p. name_of p \<noteq> ''sys_clone'' \<and> name_of p \<noteq> ''sys_slob_free'' \<and> name_of p \<noteq> ''sys_slob_use'' \<and> name_of p \<noteq> ''sys_slob_used'') syscalls_fs"
  "list_all (\<lambda>p. name_of p \<noteq> ''sys_clone'' \<and> name_of p \<noteq> ''sys_slob_free'' \<and> name_of p \<noteq> ''sys_slob_use'' \<and> name_of p \<noteq> ''sys_slob_used'') syscalls_mm"
  "list_all (\<lambda>p. name_of p \<noteq> ''sys_clone'' \<and> name_of p \<noteq> ''sys_slob_free'' \<and> name_of p \<noteq> ''sys_slob_use'' \<and> name_of p \<noteq> ''sys_slob_used'') syscalls_files"
  "list_all (\<lambda>p. name_of p \<noteq> ''sys_clone'' \<and> name_of p \<noteq> ''sys_slob_free'' \<and> name_of p \<noteq> ''sys_slob_use'' \<and> name_of p \<noteq> ''sys_slob_used'') syscalls_io"
  "list_all (\<lambda>p. name_of p \<noteq> ''sys_clone'' \<and> name_of p \<noteq> ''sys_slob_free'' \<and> name_of p \<noteq> ''sys_slob_use'' \<and> name_of p \<noteq> ''sys_slob_used'') syscalls_net"
  "list_all (\<lambda>p. name_of p \<noteq> ''sys_clone'' \<and> name_of p \<noteq> ''sys_slob_free'' \<and> name_of p \<noteq> ''sys_slob_use'' \<and> name_of p \<noteq> ''sys_slob_used'') syscalls_ipc"
  "list_all (\<lambda>p. name_of p \<noteq> ''sys_clone'' \<and> name_of p \<noteq> ''sys_slob_free'' \<and> name_of p \<noteq> ''sys_slob_use'' \<and> name_of p \<noteq> ''sys_slob_used'') syscalls_keys"
  "list_all (\<lambda>p. name_of p \<noteq> ''sys_clone'' \<and> name_of p \<noteq> ''sys_slob_free'' \<and> name_of p \<noteq> ''sys_slob_use'' \<and> name_of p \<noteq> ''sys_slob_used'') syscalls_at"
  by (simp_all add: group_defs)

lemma clone_group:
  "filter (\<lambda>p. name_of p = ''sys_slob_free'') syscalls_clone = [Proto Always Long ''sys_slob_free'' []]"
  "filter (\<lambda>p. name_of p = ''sys_slob_use'') syscalls_clone = [Proto Always Long ''sys_slob_use'' []]"
  "filter (\<lambda>p. name_of p = ''sys_slob_used'') syscalls_clone = []"
  "map guard_of (filter (\<lambda>p. name_of p = ''sys_clone'') syscalls_clone) =
     [Defined ''CONFIG_CLONE_BACKWARDS'',
      Both (Undefined ''CONFIG_CLONE_BACKWARDS'') (Defined ''CONFIG_CLONE_BACKWARDS3''),
      Both (Undefined ''CONFIG_CLONE_BACKWARDS'') (Undefined ''CONFIG_CLONE_BACKWARDS3'')]"
  by (simp_all add: syscalls_clone_def)

lemma prototypes_of_clone:
  assumes "n \<in> {''sys_clone'', ''sys_slob_free'', ''sys_slob_use'', ''sys_slob_used''}"
  shows "prototypes_of c n = filter (\<lambda>p. enabled c (guard_of p)) (filter (\<lambda>p. name_of p = n) syscalls_clone)"
proof -
  have "filter (\<lambda>p. name_of p = n) ps = []"
    if "list_all (\<lambda>p. name_of p \<noteq> ''sys_clone'' \<and> name_of p \<noteq> ''sys_slob_free'' \<and>
      name_of p \<noteq> ''sys_slob_use'' \<and> name_of p \<noteq> ''sys_slob_used'') ps" for ps
    using that assms by (auto simp: list_all_iff filter_empty_conv)
  note none = this [OF groups_other(1)] this [OF groups_other(2)] this [OF groups_other(3)]
    this [OF groups_other(4)] this [OF groups_other(5)] this [OF groups_other(6)]
    this [OF groups_other(7)] this [OF groups_other(8)] this [OF groups_other(9)]
    this [OF groups_other(10)] this [OF groups_other(11)]
  have "prototypes_of c n = filter (\<lambda>p. enabled c (guard_of p)) (filter (\<lambda>p. name_of p = n) syscalls_h)"
    unfolding prototypes_of_def declared_def filter_filter by (rule filter_cong) auto
  then show ?thesis by (simp only: syscalls_h_def filter_append none append_Nil)
qed

lemma length_filter_guard: "length (filter (\<lambda>p. enabled c (guard_of p)) ps) = length (filter (enabled c) (map guard_of ps))"
  by (simp add: filter_map comp_def)

text \<open>The macro for a list of parameters: \<^verbatim>\<open>SYSCALL_DEFINE0\<close> for none, else the one for their number.\<close>

abbreviation "define_call a ftrace sname ps SYSC \<equiv>
  (if ps = [] then SYSCALL_DEFINE0 ftrace sname SYSC else SYSCALL_DEFINE a ftrace (length ps) sname ps SYSC)"

lemma define_call_compiles:
  assumes "length ps \<le> 6" "list_all (SC_TEST a) ps" "distinct (map snd ps)"
  shows "\<exists>d. define_call a ftrace sname ps SYSC = Some d \<and> symbol d = ''sys_'' @ sname \<and>
    entry_params d = map (SC_LONG a) ps"
proof (cases "length ps")
  case 0
  then show ?thesis by (simp add: SYSCALL_DEFINE0_def SYSCALL_METADATA_def)
next
  case (Suc k)
  then have "\<exists>md. SYSCALL_METADATA ftrace (''_'' @ sname) (length ps) ps = Some md"
    using assms(1) by (simp add: SYSCALL_METADATA_def MAP_eq)
  then show ?thesis
    using assms Suc by (auto simp: SYSCALL_DEFINE_def SYSCALL_DEFINEx_def SYSCALL_DEFINEx_body_def MAP_eq list_all_iff)
qed

lemma registers_length: "length ps \<le> sum_list (map (registers a) ps)"
  by (induction ps) (auto simp: registers_def)

subsection \<open>Properties\<close>

text \<open>
  C18 (the prototypes are well typed): on 32-bit x86 every prototype of the header returns \<^verbatim>\<open>long\<close>. The types of
  its parameters, and those they point to, are declared in the header or in one it includes; \<^verbatim>\<open>__SC_TEST\<close> accepts
  the parameters, their arguments fit into six registers, and all pointers are marked \<^verbatim>\<open>__user\<close> except the one
  of \<^verbatim>\<open>sys_bpf\<close>. So a definition of the call with these parameter types and any different names compiles, by
  \<^verbatim>\<open>SYSCALL_DEFINE0\<close> if there are none; and as every name but that of \<^verbatim>\<open>sys32_quotactl\<close> starts with
  \<^verbatim>\<open>sys_\<close>, it defines the symbol of the prototype, with one register or pair of registers for each parameter.
\<close>

theorem syscall_prototypes_typed:
  assumes "long_bits a = 32" "i386_types (typedefs a)" "set header_types \<subseteq> set incl"
    and "p \<in> set syscalls_h"
  shows "proto_ok a incl p \<and> (user_proto p \<longleftrightarrow> name_of p \<noteq> ''sys_bpf'') \<and>
    (name_of p \<noteq> ''sys32_quotactl'' \<longrightarrow>
      (\<exists>sname. name_of p = ''sys_'' @ sname \<and>
        (\<forall>ps ftrace SYSC. map fst ps = map fst (params p) \<longrightarrow> distinct (map snd ps) \<longrightarrow>
          (\<exists>d. define_call a ftrace sname ps (SYSC :: int list \<Rightarrow> int) = Some d \<and> symbol d = name_of p \<and>
             map fst (entry_params d) = map (fst \<circ> SC_LONG a) (params p)))))"
proof (intro conjI impI)
  show ok: "proto_ok a incl p"
    using assms(4) groups_ok [OF assms(1-3)] by (auto simp: syscalls_h_def list_all_iff)
  show "user_proto p \<longleftrightarrow> name_of p \<noteq> ''sys_bpf''"
    using assms(4) groups_user by (auto simp: syscalls_h_def list_all_iff)
  assume "name_of p \<noteq> ''sys32_quotactl''"
  then have "take 4 (name_of p) = ''sys_''"
    using assms(4) groups_names by (auto simp: syscalls_h_def list_all_iff)
  then have name: "name_of p = ''sys_'' @ drop 4 (name_of p)" by (metis append_take_drop_id)
  have "\<exists>d. define_call a ftrace (drop 4 (name_of p)) ps SYSC = Some d \<and> symbol d = name_of p \<and>
      map fst (entry_params d) = map (fst \<circ> SC_LONG a) (params p)"
    if ps: "map fst ps = map fst (params p)" "distinct (map snd ps)"
    for ps :: "param list" and ftrace and SYSC :: "int list \<Rightarrow> int"
  proof -
    have "length ps \<le> 6"
      using ok registers_length [of "params p" a] arg_cong [OF ps(1), of length] by (simp add: proto_ok_def)
    moreover have "list_all (\<lambda>t. SC_TEST a (t, x)) (map fst (params p))" for x
      using ok by (auto simp: proto_ok_def param_ok_def list_all_iff SC_TEST_def)
    then have "list_all (SC_TEST a) ps"
      unfolding ps(1) [symmetric] by (auto simp: list_all_iff SC_TEST_def)
    moreover have "map (fst \<circ> SC_LONG a) ps = map (fst \<circ> SC_LONG a) (params p)"
      using arg_cong [OF ps(1), of "map (\<lambda>t. if TYPE_IS_LL a t then LLong else Long)"]
      by (simp add: SC_LONG_def comp_def)
    ultimately show ?thesis
      using define_call_compiles [of ps a ftrace "drop 4 (name_of p)" SYSC] ps(2) name by auto
  qed
  with name show "\<exists>sname. name_of p = ''sys_'' @ sname \<and>
        (\<forall>ps ftrace SYSC. map fst ps = map fst (params p) \<longrightarrow> distinct (map snd ps) \<longrightarrow>
          (\<exists>d. define_call a ftrace sname ps (SYSC :: int list \<Rightarrow> int) = Some d \<and> symbol d = name_of p \<and>
             map fst (entry_params d) = map (fst \<circ> SC_LONG a) (params p)))" by blast
qed

theorem syscall_prototypes_typed_witness:
  "proto_ok i386 header_types
     (Proto (Bits 32) Long ''sys_ftruncate64'' [(UInt, ''fd''), (Named ''loff_t'', ''length'')]) \<and>
   (\<exists>d. SYSCALL_DEFINE i386 True 2 ''ftruncate64'' [(UInt, ''fd''), (Named ''loff_t'', ''length'')]
      (\<lambda>vs :: int list. 0 :: int) = Some d \<and> map fst (entry_params d) = [Long, LLong]) \<and>
   (\<exists>d. SYSCALL_DEFINE0 True ''slob_free'' (\<lambda>vs :: int list. 0 :: int) = Some d \<and> symbol d = ''sys_slob_free'')"
proof -
  let ?ps = "[(UInt, ''fd''), (Named ''loff_t'', ''length'')]" and ?b = "\<lambda>vs :: int list. 0 :: int"
  let ?p = "Proto (Bits 32) Long ''sys_ftruncate64'' ?ps" and ?q = "Proto Always Long ''sys_slob_free'' []"
  have a: "long_bits i386 = 32" "i386_types (typedefs i386)" "set header_types \<subseteq> set header_types"
    by (simp_all add: i386_types_def i386_def i386_typedefs_def)
  have mem: "?p \<in> set syscalls_h" "?q \<in> set syscalls_h"
    by (simp_all add: syscalls_h_def syscalls_fs_def syscalls_clone_def)
  have "proto_ok i386 header_types ?p" using syscall_prototypes_typed [OF a mem(1)] by simp
  moreover have "\<forall>ps ftrace SYSC. map fst ps = map fst ?ps \<longrightarrow> distinct (map snd ps) \<longrightarrow>
      (\<exists>d. define_call i386 ftrace ''ftruncate64'' ps (SYSC :: int list \<Rightarrow> int) = Some d \<and>
         symbol d = ''sys_ftruncate64'' \<and> map fst (entry_params d) = map (fst \<circ> SC_LONG i386) ?ps)"
    using syscall_prototypes_typed [OF a mem(1)] by simp
  from this [THEN spec, of ?ps, THEN spec, of True, THEN spec, of ?b]
  have "\<exists>d. SYSCALL_DEFINE i386 True 2 ''ftruncate64'' ?ps ?b = Some d \<and>
      map fst (entry_params d) = map (fst \<circ> SC_LONG i386) ?ps" by (auto simp: numeral_2_eq_2)
  moreover have "\<exists>d. SYSCALL_DEFINE0 True ''slob_free'' ?b = Some d \<and> symbol d = ''sys_slob_free''"
    using syscall_prototypes_typed [OF a mem(2)] by simp blast
  moreover have "map (fst \<circ> SC_LONG i386) ?ps = [Long, LLong]"
    by (simp add: SC_LONG_def TYPE_IS_LL_def resolve_def i386_def i386_typedefs_def)
  ultimately show ?thesis by simp
qed

text \<open>
  The calls of the project: every configuration declares \<^verbatim>\<open>sys_clone\<close> exactly once. It declares
  \<^verbatim>\<open>sys_slob_free\<close> with the type that \<^verbatim>\<open>slob.c\<close> gives it; but it declares \<^verbatim>\<open>sys_slob_use\<close>, which \<^verbatim>\<open>slob.c\<close>
  does not define, and not \<^verbatim>\<open>sys_slob_used\<close>, which it does.
\<close>

theorem syscall_declarations:
  "length (prototypes_of c ''sys_clone'') = 1 \<and>
   prototypes_of c ''sys_slob_free'' = filter (\<lambda>p. name_of p = ''sys_slob_free'') slob_syscalls \<and>
   prototypes_of c ''sys_slob_use'' = [Proto Always Long ''sys_slob_use'' []] \<and>
   ''sys_slob_use'' \<notin> set (map name_of slob_syscalls) \<and>
   prototypes_of c ''sys_slob_used'' = [] \<and> ''sys_slob_used'' \<in> set (map name_of slob_syscalls)"
proof -
  have "length (prototypes_of c ''sys_clone'') = 1"
    by (simp add: prototypes_of_clone length_filter_guard clone_group del: filter_filter)
  then show ?thesis by (simp add: prototypes_of_clone clone_group slob_syscalls_def del: filter_filter)
qed

end
