(* ===== verification/Syscall_32.thy ===== *)
theory Syscall_32
  imports Syscall_Table Slob_Props
begin

text \<open>
  The table of system calls of 32-bit x86, \<^verbatim>\<open>src/kernel/project4/code/syscall_32.tbl\<close>: a row has a number, the
  binary interface, a name, and the entry points for 32-bit and for 64-bit kernels, each of which may be
  missing. The project added the last two rows. The theory joins the table with the prototypes of
  \<^verbatim>\<open>syscalls.h\<close> and with the two system calls of \<^verbatim>\<open>slob.c\<close>.
\<close>

subsection \<open>The table\<close>

datatype tbl_row =
  Row (nr: nat) (abi: string) (call_name: string) (entry_point: "string option") (compat_entry: "string option")

text \<open>Lines 9--68.\<close>

definition syscall_32_part1 :: "tbl_row list" where
  "syscall_32_part1 =
    [Row 0 ''i386'' ''restart_syscall'' (Some ''sys_restart_syscall'') None,
     Row 1 ''i386'' ''exit'' (Some ''sys_exit'') None,
     Row 2 ''i386'' ''fork'' (Some ''sys_fork'') (Some ''stub32_fork''),
     Row 3 ''i386'' ''read'' (Some ''sys_read'') None,
     Row 4 ''i386'' ''write'' (Some ''sys_write'') None,
     Row 5 ''i386'' ''open'' (Some ''sys_open'') (Some ''compat_sys_open''),
     Row 6 ''i386'' ''close'' (Some ''sys_close'') None,
     Row 7 ''i386'' ''waitpid'' (Some ''sys_waitpid'') (Some ''sys32_waitpid''),
     Row 8 ''i386'' ''creat'' (Some ''sys_creat'') None,
     Row 9 ''i386'' ''link'' (Some ''sys_link'') None,
     Row 10 ''i386'' ''unlink'' (Some ''sys_unlink'') None,
     Row 11 ''i386'' ''execve'' (Some ''sys_execve'') (Some ''stub32_execve''),
     Row 12 ''i386'' ''chdir'' (Some ''sys_chdir'') None,
     Row 13 ''i386'' ''time'' (Some ''sys_time'') (Some ''compat_sys_time''),
     Row 14 ''i386'' ''mknod'' (Some ''sys_mknod'') None,
     Row 15 ''i386'' ''chmod'' (Some ''sys_chmod'') None,
     Row 16 ''i386'' ''lchown'' (Some ''sys_lchown16'') None,
     Row 17 ''i386'' ''break'' None None,
     Row 18 ''i386'' ''oldstat'' (Some ''sys_stat'') None,
     Row 19 ''i386'' ''lseek'' (Some ''sys_lseek'') (Some ''compat_sys_lseek''),
     Row 20 ''i386'' ''getpid'' (Some ''sys_getpid'') None,
     Row 21 ''i386'' ''mount'' (Some ''sys_mount'') (Some ''compat_sys_mount''),
     Row 22 ''i386'' ''umount'' (Some ''sys_oldumount'') None,
     Row 23 ''i386'' ''setuid'' (Some ''sys_setuid16'') None,
     Row 24 ''i386'' ''getuid'' (Some ''sys_getuid16'') None,
     Row 25 ''i386'' ''stime'' (Some ''sys_stime'') (Some ''compat_sys_stime''),
     Row 26 ''i386'' ''ptrace'' (Some ''sys_ptrace'') (Some ''compat_sys_ptrace''),
     Row 27 ''i386'' ''alarm'' (Some ''sys_alarm'') None,
     Row 28 ''i386'' ''oldfstat'' (Some ''sys_fstat'') None,
     Row 29 ''i386'' ''pause'' (Some ''sys_pause'') None,
     Row 30 ''i386'' ''utime'' (Some ''sys_utime'') (Some ''compat_sys_utime''),
     Row 31 ''i386'' ''stty'' None None,
     Row 32 ''i386'' ''gtty'' None None,
     Row 33 ''i386'' ''access'' (Some ''sys_access'') None,
     Row 34 ''i386'' ''nice'' (Some ''sys_nice'') None,
     Row 35 ''i386'' ''ftime'' None None,
     Row 36 ''i386'' ''sync'' (Some ''sys_sync'') None,
     Row 37 ''i386'' ''kill'' (Some ''sys_kill'') None,
     Row 38 ''i386'' ''rename'' (Some ''sys_rename'') None,
     Row 39 ''i386'' ''mkdir'' (Some ''sys_mkdir'') None,
     Row 40 ''i386'' ''rmdir'' (Some ''sys_rmdir'') None,
     Row 41 ''i386'' ''dup'' (Some ''sys_dup'') None,
     Row 42 ''i386'' ''pipe'' (Some ''sys_pipe'') None,
     Row 43 ''i386'' ''times'' (Some ''sys_times'') (Some ''compat_sys_times''),
     Row 44 ''i386'' ''prof'' None None,
     Row 45 ''i386'' ''brk'' (Some ''sys_brk'') None,
     Row 46 ''i386'' ''setgid'' (Some ''sys_setgid16'') None,
     Row 47 ''i386'' ''getgid'' (Some ''sys_getgid16'') None,
     Row 48 ''i386'' ''signal'' (Some ''sys_signal'') None,
     Row 49 ''i386'' ''geteuid'' (Some ''sys_geteuid16'') None,
     Row 50 ''i386'' ''getegid'' (Some ''sys_getegid16'') None,
     Row 51 ''i386'' ''acct'' (Some ''sys_acct'') None,
     Row 52 ''i386'' ''umount2'' (Some ''sys_umount'') None,
     Row 53 ''i386'' ''lock'' None None,
     Row 54 ''i386'' ''ioctl'' (Some ''sys_ioctl'') (Some ''compat_sys_ioctl''),
     Row 55 ''i386'' ''fcntl'' (Some ''sys_fcntl'') (Some ''compat_sys_fcntl64''),
     Row 56 ''i386'' ''mpx'' None None,
     Row 57 ''i386'' ''setpgid'' (Some ''sys_setpgid'') None,
     Row 58 ''i386'' ''ulimit'' None None,
     Row 59 ''i386'' ''oldolduname'' (Some ''sys_olduname'') None]"

text \<open>Lines 69--128.\<close>

definition syscall_32_part2 :: "tbl_row list" where
  "syscall_32_part2 =
    [Row 60 ''i386'' ''umask'' (Some ''sys_umask'') None,
     Row 61 ''i386'' ''chroot'' (Some ''sys_chroot'') None,
     Row 62 ''i386'' ''ustat'' (Some ''sys_ustat'') (Some ''compat_sys_ustat''),
     Row 63 ''i386'' ''dup2'' (Some ''sys_dup2'') None,
     Row 64 ''i386'' ''getppid'' (Some ''sys_getppid'') None,
     Row 65 ''i386'' ''getpgrp'' (Some ''sys_getpgrp'') None,
     Row 66 ''i386'' ''setsid'' (Some ''sys_setsid'') None,
     Row 67 ''i386'' ''sigaction'' (Some ''sys_sigaction'') (Some ''compat_sys_sigaction''),
     Row 68 ''i386'' ''sgetmask'' (Some ''sys_sgetmask'') None,
     Row 69 ''i386'' ''ssetmask'' (Some ''sys_ssetmask'') None,
     Row 70 ''i386'' ''setreuid'' (Some ''sys_setreuid16'') None,
     Row 71 ''i386'' ''setregid'' (Some ''sys_setregid16'') None,
     Row 72 ''i386'' ''sigsuspend'' (Some ''sys_sigsuspend'') (Some ''sys_sigsuspend''),
     Row 73 ''i386'' ''sigpending'' (Some ''sys_sigpending'') (Some ''compat_sys_sigpending''),
     Row 74 ''i386'' ''sethostname'' (Some ''sys_sethostname'') None,
     Row 75 ''i386'' ''setrlimit'' (Some ''sys_setrlimit'') (Some ''compat_sys_setrlimit''),
     Row 76 ''i386'' ''getrlimit'' (Some ''sys_old_getrlimit'') (Some ''compat_sys_old_getrlimit''),
     Row 77 ''i386'' ''getrusage'' (Some ''sys_getrusage'') (Some ''compat_sys_getrusage''),
     Row 78 ''i386'' ''gettimeofday'' (Some ''sys_gettimeofday'') (Some ''compat_sys_gettimeofday''),
     Row 79 ''i386'' ''settimeofday'' (Some ''sys_settimeofday'') (Some ''compat_sys_settimeofday''),
     Row 80 ''i386'' ''getgroups'' (Some ''sys_getgroups16'') None,
     Row 81 ''i386'' ''setgroups'' (Some ''sys_setgroups16'') None,
     Row 82 ''i386'' ''select'' (Some ''sys_old_select'') (Some ''compat_sys_old_select''),
     Row 83 ''i386'' ''symlink'' (Some ''sys_symlink'') None,
     Row 84 ''i386'' ''oldlstat'' (Some ''sys_lstat'') None,
     Row 85 ''i386'' ''readlink'' (Some ''sys_readlink'') None,
     Row 86 ''i386'' ''uselib'' (Some ''sys_uselib'') None,
     Row 87 ''i386'' ''swapon'' (Some ''sys_swapon'') None,
     Row 88 ''i386'' ''reboot'' (Some ''sys_reboot'') None,
     Row 89 ''i386'' ''readdir'' (Some ''sys_old_readdir'') (Some ''compat_sys_old_readdir''),
     Row 90 ''i386'' ''mmap'' (Some ''sys_old_mmap'') (Some ''sys32_mmap''),
     Row 91 ''i386'' ''munmap'' (Some ''sys_munmap'') None,
     Row 92 ''i386'' ''truncate'' (Some ''sys_truncate'') (Some ''compat_sys_truncate''),
     Row 93 ''i386'' ''ftruncate'' (Some ''sys_ftruncate'') (Some ''compat_sys_ftruncate''),
     Row 94 ''i386'' ''fchmod'' (Some ''sys_fchmod'') None,
     Row 95 ''i386'' ''fchown'' (Some ''sys_fchown16'') None,
     Row 96 ''i386'' ''getpriority'' (Some ''sys_getpriority'') None,
     Row 97 ''i386'' ''setpriority'' (Some ''sys_setpriority'') None,
     Row 98 ''i386'' ''profil'' None None,
     Row 99 ''i386'' ''statfs'' (Some ''sys_statfs'') (Some ''compat_sys_statfs''),
     Row 100 ''i386'' ''fstatfs'' (Some ''sys_fstatfs'') (Some ''compat_sys_fstatfs''),
     Row 101 ''i386'' ''ioperm'' (Some ''sys_ioperm'') None,
     Row 102 ''i386'' ''socketcall'' (Some ''sys_socketcall'') (Some ''compat_sys_socketcall''),
     Row 103 ''i386'' ''syslog'' (Some ''sys_syslog'') None,
     Row 104 ''i386'' ''setitimer'' (Some ''sys_setitimer'') (Some ''compat_sys_setitimer''),
     Row 105 ''i386'' ''getitimer'' (Some ''sys_getitimer'') (Some ''compat_sys_getitimer''),
     Row 106 ''i386'' ''stat'' (Some ''sys_newstat'') (Some ''compat_sys_newstat''),
     Row 107 ''i386'' ''lstat'' (Some ''sys_newlstat'') (Some ''compat_sys_newlstat''),
     Row 108 ''i386'' ''fstat'' (Some ''sys_newfstat'') (Some ''compat_sys_newfstat''),
     Row 109 ''i386'' ''olduname'' (Some ''sys_uname'') None,
     Row 110 ''i386'' ''iopl'' (Some ''sys_iopl'') None,
     Row 111 ''i386'' ''vhangup'' (Some ''sys_vhangup'') None,
     Row 112 ''i386'' ''idle'' None None,
     Row 113 ''i386'' ''vm86old'' (Some ''sys_vm86old'') (Some ''sys32_vm86_warning''),
     Row 114 ''i386'' ''wait4'' (Some ''sys_wait4'') (Some ''compat_sys_wait4''),
     Row 115 ''i386'' ''swapoff'' (Some ''sys_swapoff'') None,
     Row 116 ''i386'' ''sysinfo'' (Some ''sys_sysinfo'') (Some ''compat_sys_sysinfo''),
     Row 117 ''i386'' ''ipc'' (Some ''sys_ipc'') (Some ''compat_sys_ipc''),
     Row 118 ''i386'' ''fsync'' (Some ''sys_fsync'') None,
     Row 119 ''i386'' ''sigreturn'' (Some ''sys_sigreturn'') (Some ''stub32_sigreturn'')]"

text \<open>Lines 129--188.\<close>

definition syscall_32_part3 :: "tbl_row list" where
  "syscall_32_part3 =
    [Row 120 ''i386'' ''clone'' (Some ''sys_clone'') (Some ''stub32_clone''),
     Row 121 ''i386'' ''setdomainname'' (Some ''sys_setdomainname'') None,
     Row 122 ''i386'' ''uname'' (Some ''sys_newuname'') None,
     Row 123 ''i386'' ''modify_ldt'' (Some ''sys_modify_ldt'') None,
     Row 124 ''i386'' ''adjtimex'' (Some ''sys_adjtimex'') (Some ''compat_sys_adjtimex''),
     Row 125 ''i386'' ''mprotect'' (Some ''sys_mprotect'') None,
     Row 126 ''i386'' ''sigprocmask'' (Some ''sys_sigprocmask'') (Some ''compat_sys_sigprocmask''),
     Row 127 ''i386'' ''create_module'' None None,
     Row 128 ''i386'' ''init_module'' (Some ''sys_init_module'') None,
     Row 129 ''i386'' ''delete_module'' (Some ''sys_delete_module'') None,
     Row 130 ''i386'' ''get_kernel_syms'' None None,
     Row 131 ''i386'' ''quotactl'' (Some ''sys_quotactl'') (Some ''sys32_quotactl''),
     Row 132 ''i386'' ''getpgid'' (Some ''sys_getpgid'') None,
     Row 133 ''i386'' ''fchdir'' (Some ''sys_fchdir'') None,
     Row 134 ''i386'' ''bdflush'' (Some ''sys_bdflush'') None,
     Row 135 ''i386'' ''sysfs'' (Some ''sys_sysfs'') None,
     Row 136 ''i386'' ''personality'' (Some ''sys_personality'') None,
     Row 137 ''i386'' ''afs_syscall'' None None,
     Row 138 ''i386'' ''setfsuid'' (Some ''sys_setfsuid16'') None,
     Row 139 ''i386'' ''setfsgid'' (Some ''sys_setfsgid16'') None,
     Row 140 ''i386'' ''_llseek'' (Some ''sys_llseek'') None,
     Row 141 ''i386'' ''getdents'' (Some ''sys_getdents'') (Some ''compat_sys_getdents''),
     Row 142 ''i386'' ''_newselect'' (Some ''sys_select'') (Some ''compat_sys_select''),
     Row 143 ''i386'' ''flock'' (Some ''sys_flock'') None,
     Row 144 ''i386'' ''msync'' (Some ''sys_msync'') None,
     Row 145 ''i386'' ''readv'' (Some ''sys_readv'') (Some ''compat_sys_readv''),
     Row 146 ''i386'' ''writev'' (Some ''sys_writev'') (Some ''compat_sys_writev''),
     Row 147 ''i386'' ''getsid'' (Some ''sys_getsid'') None,
     Row 148 ''i386'' ''fdatasync'' (Some ''sys_fdatasync'') None,
     Row 149 ''i386'' ''_sysctl'' (Some ''sys_sysctl'') (Some ''compat_sys_sysctl''),
     Row 150 ''i386'' ''mlock'' (Some ''sys_mlock'') None,
     Row 151 ''i386'' ''munlock'' (Some ''sys_munlock'') None,
     Row 152 ''i386'' ''mlockall'' (Some ''sys_mlockall'') None,
     Row 153 ''i386'' ''munlockall'' (Some ''sys_munlockall'') None,
     Row 154 ''i386'' ''sched_setparam'' (Some ''sys_sched_setparam'') None,
     Row 155 ''i386'' ''sched_getparam'' (Some ''sys_sched_getparam'') None,
     Row 156 ''i386'' ''sched_setscheduler'' (Some ''sys_sched_setscheduler'') None,
     Row 157 ''i386'' ''sched_getscheduler'' (Some ''sys_sched_getscheduler'') None,
     Row 158 ''i386'' ''sched_yield'' (Some ''sys_sched_yield'') None,
     Row 159 ''i386'' ''sched_get_priority_max'' (Some ''sys_sched_get_priority_max'') None,
     Row 160 ''i386'' ''sched_get_priority_min'' (Some ''sys_sched_get_priority_min'') None,
     Row 161 ''i386'' ''sched_rr_get_interval'' (Some ''sys_sched_rr_get_interval'') (Some ''compat_sys_sched_rr_get_interval''),
     Row 162 ''i386'' ''nanosleep'' (Some ''sys_nanosleep'') (Some ''compat_sys_nanosleep''),
     Row 163 ''i386'' ''mremap'' (Some ''sys_mremap'') None,
     Row 164 ''i386'' ''setresuid'' (Some ''sys_setresuid16'') None,
     Row 165 ''i386'' ''getresuid'' (Some ''sys_getresuid16'') None,
     Row 166 ''i386'' ''vm86'' (Some ''sys_vm86'') (Some ''sys32_vm86_warning''),
     Row 167 ''i386'' ''query_module'' None None,
     Row 168 ''i386'' ''poll'' (Some ''sys_poll'') None,
     Row 169 ''i386'' ''nfsservctl'' None None,
     Row 170 ''i386'' ''setresgid'' (Some ''sys_setresgid16'') None,
     Row 171 ''i386'' ''getresgid'' (Some ''sys_getresgid16'') None,
     Row 172 ''i386'' ''prctl'' (Some ''sys_prctl'') None,
     Row 173 ''i386'' ''rt_sigreturn'' (Some ''sys_rt_sigreturn'') (Some ''stub32_rt_sigreturn''),
     Row 174 ''i386'' ''rt_sigaction'' (Some ''sys_rt_sigaction'') (Some ''compat_sys_rt_sigaction''),
     Row 175 ''i386'' ''rt_sigprocmask'' (Some ''sys_rt_sigprocmask'') None,
     Row 176 ''i386'' ''rt_sigpending'' (Some ''sys_rt_sigpending'') (Some ''compat_sys_rt_sigpending''),
     Row 177 ''i386'' ''rt_sigtimedwait'' (Some ''sys_rt_sigtimedwait'') (Some ''compat_sys_rt_sigtimedwait''),
     Row 178 ''i386'' ''rt_sigqueueinfo'' (Some ''sys_rt_sigqueueinfo'') (Some ''compat_sys_rt_sigqueueinfo''),
     Row 179 ''i386'' ''rt_sigsuspend'' (Some ''sys_rt_sigsuspend'') None]"

text \<open>Lines 189--248.\<close>

definition syscall_32_part4 :: "tbl_row list" where
  "syscall_32_part4 =
    [Row 180 ''i386'' ''pread64'' (Some ''sys_pread64'') (Some ''sys32_pread''),
     Row 181 ''i386'' ''pwrite64'' (Some ''sys_pwrite64'') (Some ''sys32_pwrite''),
     Row 182 ''i386'' ''chown'' (Some ''sys_chown16'') None,
     Row 183 ''i386'' ''getcwd'' (Some ''sys_getcwd'') None,
     Row 184 ''i386'' ''capget'' (Some ''sys_capget'') None,
     Row 185 ''i386'' ''capset'' (Some ''sys_capset'') None,
     Row 186 ''i386'' ''sigaltstack'' (Some ''sys_sigaltstack'') (Some ''compat_sys_sigaltstack''),
     Row 187 ''i386'' ''sendfile'' (Some ''sys_sendfile'') (Some ''compat_sys_sendfile''),
     Row 188 ''i386'' ''getpmsg'' None None,
     Row 189 ''i386'' ''putpmsg'' None None,
     Row 190 ''i386'' ''vfork'' (Some ''sys_vfork'') (Some ''stub32_vfork''),
     Row 191 ''i386'' ''ugetrlimit'' (Some ''sys_getrlimit'') (Some ''compat_sys_getrlimit''),
     Row 192 ''i386'' ''mmap2'' (Some ''sys_mmap_pgoff'') None,
     Row 193 ''i386'' ''truncate64'' (Some ''sys_truncate64'') (Some ''sys32_truncate64''),
     Row 194 ''i386'' ''ftruncate64'' (Some ''sys_ftruncate64'') (Some ''sys32_ftruncate64''),
     Row 195 ''i386'' ''stat64'' (Some ''sys_stat64'') (Some ''sys32_stat64''),
     Row 196 ''i386'' ''lstat64'' (Some ''sys_lstat64'') (Some ''sys32_lstat64''),
     Row 197 ''i386'' ''fstat64'' (Some ''sys_fstat64'') (Some ''sys32_fstat64''),
     Row 198 ''i386'' ''lchown32'' (Some ''sys_lchown'') None,
     Row 199 ''i386'' ''getuid32'' (Some ''sys_getuid'') None,
     Row 200 ''i386'' ''getgid32'' (Some ''sys_getgid'') None,
     Row 201 ''i386'' ''geteuid32'' (Some ''sys_geteuid'') None,
     Row 202 ''i386'' ''getegid32'' (Some ''sys_getegid'') None,
     Row 203 ''i386'' ''setreuid32'' (Some ''sys_setreuid'') None,
     Row 204 ''i386'' ''setregid32'' (Some ''sys_setregid'') None,
     Row 205 ''i386'' ''getgroups32'' (Some ''sys_getgroups'') None,
     Row 206 ''i386'' ''setgroups32'' (Some ''sys_setgroups'') None,
     Row 207 ''i386'' ''fchown32'' (Some ''sys_fchown'') None,
     Row 208 ''i386'' ''setresuid32'' (Some ''sys_setresuid'') None,
     Row 209 ''i386'' ''getresuid32'' (Some ''sys_getresuid'') None,
     Row 210 ''i386'' ''setresgid32'' (Some ''sys_setresgid'') None,
     Row 211 ''i386'' ''getresgid32'' (Some ''sys_getresgid'') None,
     Row 212 ''i386'' ''chown32'' (Some ''sys_chown'') None,
     Row 213 ''i386'' ''setuid32'' (Some ''sys_setuid'') None,
     Row 214 ''i386'' ''setgid32'' (Some ''sys_setgid'') None,
     Row 215 ''i386'' ''setfsuid32'' (Some ''sys_setfsuid'') None,
     Row 216 ''i386'' ''setfsgid32'' (Some ''sys_setfsgid'') None,
     Row 217 ''i386'' ''pivot_root'' (Some ''sys_pivot_root'') None,
     Row 218 ''i386'' ''mincore'' (Some ''sys_mincore'') None,
     Row 219 ''i386'' ''madvise'' (Some ''sys_madvise'') None,
     Row 220 ''i386'' ''getdents64'' (Some ''sys_getdents64'') (Some ''compat_sys_getdents64''),
     Row 221 ''i386'' ''fcntl64'' (Some ''sys_fcntl64'') (Some ''compat_sys_fcntl64''),
     Row 224 ''i386'' ''gettid'' (Some ''sys_gettid'') None,
     Row 225 ''i386'' ''readahead'' (Some ''sys_readahead'') (Some ''sys32_readahead''),
     Row 226 ''i386'' ''setxattr'' (Some ''sys_setxattr'') None,
     Row 227 ''i386'' ''lsetxattr'' (Some ''sys_lsetxattr'') None,
     Row 228 ''i386'' ''fsetxattr'' (Some ''sys_fsetxattr'') None,
     Row 229 ''i386'' ''getxattr'' (Some ''sys_getxattr'') None,
     Row 230 ''i386'' ''lgetxattr'' (Some ''sys_lgetxattr'') None,
     Row 231 ''i386'' ''fgetxattr'' (Some ''sys_fgetxattr'') None,
     Row 232 ''i386'' ''listxattr'' (Some ''sys_listxattr'') None,
     Row 233 ''i386'' ''llistxattr'' (Some ''sys_llistxattr'') None,
     Row 234 ''i386'' ''flistxattr'' (Some ''sys_flistxattr'') None,
     Row 235 ''i386'' ''removexattr'' (Some ''sys_removexattr'') None,
     Row 236 ''i386'' ''lremovexattr'' (Some ''sys_lremovexattr'') None,
     Row 237 ''i386'' ''fremovexattr'' (Some ''sys_fremovexattr'') None,
     Row 238 ''i386'' ''tkill'' (Some ''sys_tkill'') None,
     Row 239 ''i386'' ''sendfile64'' (Some ''sys_sendfile64'') None]"

text \<open>Lines 249--308.\<close>

definition syscall_32_part5 :: "tbl_row list" where
  "syscall_32_part5 =
    [Row 240 ''i386'' ''futex'' (Some ''sys_futex'') (Some ''compat_sys_futex''),
     Row 241 ''i386'' ''sched_setaffinity'' (Some ''sys_sched_setaffinity'') (Some ''compat_sys_sched_setaffinity''),
     Row 242 ''i386'' ''sched_getaffinity'' (Some ''sys_sched_getaffinity'') (Some ''compat_sys_sched_getaffinity''),
     Row 243 ''i386'' ''set_thread_area'' (Some ''sys_set_thread_area'') None,
     Row 244 ''i386'' ''get_thread_area'' (Some ''sys_get_thread_area'') None,
     Row 245 ''i386'' ''io_setup'' (Some ''sys_io_setup'') (Some ''compat_sys_io_setup''),
     Row 246 ''i386'' ''io_destroy'' (Some ''sys_io_destroy'') None,
     Row 247 ''i386'' ''io_getevents'' (Some ''sys_io_getevents'') (Some ''compat_sys_io_getevents''),
     Row 248 ''i386'' ''io_submit'' (Some ''sys_io_submit'') (Some ''compat_sys_io_submit''),
     Row 249 ''i386'' ''io_cancel'' (Some ''sys_io_cancel'') None,
     Row 250 ''i386'' ''fadvise64'' (Some ''sys_fadvise64'') (Some ''sys32_fadvise64''),
     Row 252 ''i386'' ''exit_group'' (Some ''sys_exit_group'') None,
     Row 253 ''i386'' ''lookup_dcookie'' (Some ''sys_lookup_dcookie'') (Some ''compat_sys_lookup_dcookie''),
     Row 254 ''i386'' ''epoll_create'' (Some ''sys_epoll_create'') None,
     Row 255 ''i386'' ''epoll_ctl'' (Some ''sys_epoll_ctl'') None,
     Row 256 ''i386'' ''epoll_wait'' (Some ''sys_epoll_wait'') None,
     Row 257 ''i386'' ''remap_file_pages'' (Some ''sys_remap_file_pages'') None,
     Row 258 ''i386'' ''set_tid_address'' (Some ''sys_set_tid_address'') None,
     Row 259 ''i386'' ''timer_create'' (Some ''sys_timer_create'') (Some ''compat_sys_timer_create''),
     Row 260 ''i386'' ''timer_settime'' (Some ''sys_timer_settime'') (Some ''compat_sys_timer_settime''),
     Row 261 ''i386'' ''timer_gettime'' (Some ''sys_timer_gettime'') (Some ''compat_sys_timer_gettime''),
     Row 262 ''i386'' ''timer_getoverrun'' (Some ''sys_timer_getoverrun'') None,
     Row 263 ''i386'' ''timer_delete'' (Some ''sys_timer_delete'') None,
     Row 264 ''i386'' ''clock_settime'' (Some ''sys_clock_settime'') (Some ''compat_sys_clock_settime''),
     Row 265 ''i386'' ''clock_gettime'' (Some ''sys_clock_gettime'') (Some ''compat_sys_clock_gettime''),
     Row 266 ''i386'' ''clock_getres'' (Some ''sys_clock_getres'') (Some ''compat_sys_clock_getres''),
     Row 267 ''i386'' ''clock_nanosleep'' (Some ''sys_clock_nanosleep'') (Some ''compat_sys_clock_nanosleep''),
     Row 268 ''i386'' ''statfs64'' (Some ''sys_statfs64'') (Some ''compat_sys_statfs64''),
     Row 269 ''i386'' ''fstatfs64'' (Some ''sys_fstatfs64'') (Some ''compat_sys_fstatfs64''),
     Row 270 ''i386'' ''tgkill'' (Some ''sys_tgkill'') None,
     Row 271 ''i386'' ''utimes'' (Some ''sys_utimes'') (Some ''compat_sys_utimes''),
     Row 272 ''i386'' ''fadvise64_64'' (Some ''sys_fadvise64_64'') (Some ''sys32_fadvise64_64''),
     Row 273 ''i386'' ''vserver'' None None,
     Row 274 ''i386'' ''mbind'' (Some ''sys_mbind'') None,
     Row 275 ''i386'' ''get_mempolicy'' (Some ''sys_get_mempolicy'') (Some ''compat_sys_get_mempolicy''),
     Row 276 ''i386'' ''set_mempolicy'' (Some ''sys_set_mempolicy'') None,
     Row 277 ''i386'' ''mq_open'' (Some ''sys_mq_open'') (Some ''compat_sys_mq_open''),
     Row 278 ''i386'' ''mq_unlink'' (Some ''sys_mq_unlink'') None,
     Row 279 ''i386'' ''mq_timedsend'' (Some ''sys_mq_timedsend'') (Some ''compat_sys_mq_timedsend''),
     Row 280 ''i386'' ''mq_timedreceive'' (Some ''sys_mq_timedreceive'') (Some ''compat_sys_mq_timedreceive''),
     Row 281 ''i386'' ''mq_notify'' (Some ''sys_mq_notify'') (Some ''compat_sys_mq_notify''),
     Row 282 ''i386'' ''mq_getsetattr'' (Some ''sys_mq_getsetattr'') (Some ''compat_sys_mq_getsetattr''),
     Row 283 ''i386'' ''kexec_load'' (Some ''sys_kexec_load'') (Some ''compat_sys_kexec_load''),
     Row 284 ''i386'' ''waitid'' (Some ''sys_waitid'') (Some ''compat_sys_waitid''),
     Row 286 ''i386'' ''add_key'' (Some ''sys_add_key'') None,
     Row 287 ''i386'' ''request_key'' (Some ''sys_request_key'') None,
     Row 288 ''i386'' ''keyctl'' (Some ''sys_keyctl'') None,
     Row 289 ''i386'' ''ioprio_set'' (Some ''sys_ioprio_set'') None,
     Row 290 ''i386'' ''ioprio_get'' (Some ''sys_ioprio_get'') None,
     Row 291 ''i386'' ''inotify_init'' (Some ''sys_inotify_init'') None,
     Row 292 ''i386'' ''inotify_add_watch'' (Some ''sys_inotify_add_watch'') None,
     Row 293 ''i386'' ''inotify_rm_watch'' (Some ''sys_inotify_rm_watch'') None,
     Row 294 ''i386'' ''migrate_pages'' (Some ''sys_migrate_pages'') None,
     Row 295 ''i386'' ''openat'' (Some ''sys_openat'') (Some ''compat_sys_openat''),
     Row 296 ''i386'' ''mkdirat'' (Some ''sys_mkdirat'') None,
     Row 297 ''i386'' ''mknodat'' (Some ''sys_mknodat'') None,
     Row 298 ''i386'' ''fchownat'' (Some ''sys_fchownat'') None,
     Row 299 ''i386'' ''futimesat'' (Some ''sys_futimesat'') (Some ''compat_sys_futimesat'')]"

text \<open>Lines 309--369.\<close>

definition syscall_32_part6 :: "tbl_row list" where
  "syscall_32_part6 =
    [Row 300 ''i386'' ''fstatat64'' (Some ''sys_fstatat64'') (Some ''sys32_fstatat''),
     Row 301 ''i386'' ''unlinkat'' (Some ''sys_unlinkat'') None,
     Row 302 ''i386'' ''renameat'' (Some ''sys_renameat'') None,
     Row 303 ''i386'' ''linkat'' (Some ''sys_linkat'') None,
     Row 304 ''i386'' ''symlinkat'' (Some ''sys_symlinkat'') None,
     Row 305 ''i386'' ''readlinkat'' (Some ''sys_readlinkat'') None,
     Row 306 ''i386'' ''fchmodat'' (Some ''sys_fchmodat'') None,
     Row 307 ''i386'' ''faccessat'' (Some ''sys_faccessat'') None,
     Row 308 ''i386'' ''pselect6'' (Some ''sys_pselect6'') (Some ''compat_sys_pselect6''),
     Row 309 ''i386'' ''ppoll'' (Some ''sys_ppoll'') (Some ''compat_sys_ppoll''),
     Row 310 ''i386'' ''unshare'' (Some ''sys_unshare'') None,
     Row 311 ''i386'' ''set_robust_list'' (Some ''sys_set_robust_list'') (Some ''compat_sys_set_robust_list''),
     Row 312 ''i386'' ''get_robust_list'' (Some ''sys_get_robust_list'') (Some ''compat_sys_get_robust_list''),
     Row 313 ''i386'' ''splice'' (Some ''sys_splice'') None,
     Row 314 ''i386'' ''sync_file_range'' (Some ''sys_sync_file_range'') (Some ''sys32_sync_file_range''),
     Row 315 ''i386'' ''tee'' (Some ''sys_tee'') None,
     Row 316 ''i386'' ''vmsplice'' (Some ''sys_vmsplice'') (Some ''compat_sys_vmsplice''),
     Row 317 ''i386'' ''move_pages'' (Some ''sys_move_pages'') (Some ''compat_sys_move_pages''),
     Row 318 ''i386'' ''getcpu'' (Some ''sys_getcpu'') None,
     Row 319 ''i386'' ''epoll_pwait'' (Some ''sys_epoll_pwait'') None,
     Row 320 ''i386'' ''utimensat'' (Some ''sys_utimensat'') (Some ''compat_sys_utimensat''),
     Row 321 ''i386'' ''signalfd'' (Some ''sys_signalfd'') (Some ''compat_sys_signalfd''),
     Row 322 ''i386'' ''timerfd_create'' (Some ''sys_timerfd_create'') None,
     Row 323 ''i386'' ''eventfd'' (Some ''sys_eventfd'') None,
     Row 324 ''i386'' ''fallocate'' (Some ''sys_fallocate'') (Some ''sys32_fallocate''),
     Row 325 ''i386'' ''timerfd_settime'' (Some ''sys_timerfd_settime'') (Some ''compat_sys_timerfd_settime''),
     Row 326 ''i386'' ''timerfd_gettime'' (Some ''sys_timerfd_gettime'') (Some ''compat_sys_timerfd_gettime''),
     Row 327 ''i386'' ''signalfd4'' (Some ''sys_signalfd4'') (Some ''compat_sys_signalfd4''),
     Row 328 ''i386'' ''eventfd2'' (Some ''sys_eventfd2'') None,
     Row 329 ''i386'' ''epoll_create1'' (Some ''sys_epoll_create1'') None,
     Row 330 ''i386'' ''dup3'' (Some ''sys_dup3'') None,
     Row 331 ''i386'' ''pipe2'' (Some ''sys_pipe2'') None,
     Row 332 ''i386'' ''inotify_init1'' (Some ''sys_inotify_init1'') None,
     Row 333 ''i386'' ''preadv'' (Some ''sys_preadv'') (Some ''compat_sys_preadv''),
     Row 334 ''i386'' ''pwritev'' (Some ''sys_pwritev'') (Some ''compat_sys_pwritev''),
     Row 335 ''i386'' ''rt_tgsigqueueinfo'' (Some ''sys_rt_tgsigqueueinfo'') (Some ''compat_sys_rt_tgsigqueueinfo''),
     Row 336 ''i386'' ''perf_event_open'' (Some ''sys_perf_event_open'') None,
     Row 337 ''i386'' ''recvmmsg'' (Some ''sys_recvmmsg'') (Some ''compat_sys_recvmmsg''),
     Row 338 ''i386'' ''fanotify_init'' (Some ''sys_fanotify_init'') None,
     Row 339 ''i386'' ''fanotify_mark'' (Some ''sys_fanotify_mark'') (Some ''compat_sys_fanotify_mark''),
     Row 340 ''i386'' ''prlimit64'' (Some ''sys_prlimit64'') None,
     Row 341 ''i386'' ''name_to_handle_at'' (Some ''sys_name_to_handle_at'') None,
     Row 342 ''i386'' ''open_by_handle_at'' (Some ''sys_open_by_handle_at'') (Some ''compat_sys_open_by_handle_at''),
     Row 343 ''i386'' ''clock_adjtime'' (Some ''sys_clock_adjtime'') (Some ''compat_sys_clock_adjtime''),
     Row 344 ''i386'' ''syncfs'' (Some ''sys_syncfs'') None,
     Row 345 ''i386'' ''sendmmsg'' (Some ''sys_sendmmsg'') (Some ''compat_sys_sendmmsg''),
     Row 346 ''i386'' ''setns'' (Some ''sys_setns'') None,
     Row 347 ''i386'' ''process_vm_readv'' (Some ''sys_process_vm_readv'') (Some ''compat_sys_process_vm_readv''),
     Row 348 ''i386'' ''process_vm_writev'' (Some ''sys_process_vm_writev'') (Some ''compat_sys_process_vm_writev''),
     Row 349 ''i386'' ''kcmp'' (Some ''sys_kcmp'') None,
     Row 350 ''i386'' ''finit_module'' (Some ''sys_finit_module'') None,
     Row 351 ''i386'' ''sched_setattr'' (Some ''sys_sched_setattr'') None,
     Row 352 ''i386'' ''sched_getattr'' (Some ''sys_sched_getattr'') None,
     Row 353 ''i386'' ''renameat2'' (Some ''sys_renameat2'') None,
     Row 354 ''i386'' ''seccomp'' (Some ''sys_seccomp'') None,
     Row 355 ''i386'' ''getrandom'' (Some ''sys_getrandom'') None,
     Row 356 ''i386'' ''memfd_create'' (Some ''sys_memfd_create'') None,
     Row 357 ''i386'' ''bpf'' (Some ''sys_bpf'') None,
     Row 358 ''i386'' ''execveat'' (Some ''sys_execveat'') (Some ''stub32_execveat''),
     Row 500 ''i386'' ''slob_free'' (Some ''sys_slob_free'') None,
     Row 501 ''i386'' ''slob_used'' (Some ''sys_slob_used'') None]"

definition syscall_32_tbl :: "tbl_row list" where
  "syscall_32_tbl =
     syscall_32_part1 @ syscall_32_part2 @ syscall_32_part3 @
     syscall_32_part4 @ syscall_32_part5 @ syscall_32_part6"

text \<open>What a number calls in a 32-bit kernel.\<close>

definition row_of :: "nat \<Rightarrow> tbl_row option" where
  "row_of n = find (\<lambda>r. nr r = n) syscall_32_tbl"

definition call_of :: "nat \<Rightarrow> string option" where
  "call_of n = Option.bind (row_of n) entry_point"

text \<open>The entry points that \<^verbatim>\<open>slob.c\<close> defines, on the state of the allocator.\<close>

definition slob_entry :: "string \<Rightarrow> (slob \<Rightarrow> int) option" where
  "slob_entry f = map_of [(''sys_slob_free'', sys_slob_free), (''sys_slob_used'', sys_slob_used)] f"

definition slob_syscall :: "nat \<Rightarrow> slob \<Rightarrow> int option" where
  "slob_syscall n st = map_option (\<lambda>f. f st) (Option.bind (call_of n) slob_entry)"

text \<open>
  The build options that the conditions in \<^verbatim>\<open>syscalls.h\<close> ask for, on 32-bit x86; and the entry points
  that are not in \<^verbatim>\<open>syscalls.h\<close>: those of the architecture, and one of the project.
\<close>

definition i386_config :: "config \<Rightarrow> bool" where
  "i386_config c \<longleftrightarrow>
     BITS_PER_LONG c = 32 \<and>
     list_all (defined c) [''CONFIG_UID16'', ''CONFIG_OLD_SIGACTION'', ''CONFIG_OLD_SIGSUSPEND3'', ''CONFIG_CLONE_BACKWARDS''] \<and>
     \<not> list_ex (defined c) [''CONFIG_OLD_SIGSUSPEND'', ''CONFIG_ODD_RT_SIGACTION'', ''CONFIG_IA64'']"

definition arch_calls :: "string list" where
  "arch_calls =
     [''sys_iopl'', ''sys_vm86old'', ''sys_sigreturn'', ''sys_modify_ldt'', ''sys_vm86'', ''sys_rt_sigreturn'',
      ''sys_set_thread_area'', ''sys_get_thread_area'']"

text \<open>
  The calls that the table has no entry point for, and those whose entry point is not \<^verbatim>\<open>sys_\<close> and the name: variants
  for 16-bit and 32-bit user numbers, and old and new versions of one call.
\<close>

definition unimplemented :: "nat list" where
  "unimplemented =
     [17, 31, 32, 35, 44, 53, 56, 58, 98, 112, 127, 130, 137, 167, 169, 188, 189, 273]"

definition renamed :: "(nat \<times> string) list" where
  "renamed =
     [(16, ''sys_lchown16''), (18, ''sys_stat''), (22, ''sys_oldumount''), (23, ''sys_setuid16''),
      (24, ''sys_getuid16''), (28, ''sys_fstat''), (46, ''sys_setgid16''), (47, ''sys_getgid16''),
      (49, ''sys_geteuid16''), (50, ''sys_getegid16''), (52, ''sys_umount''), (59, ''sys_olduname''),
      (70, ''sys_setreuid16''), (71, ''sys_setregid16''), (76, ''sys_old_getrlimit''),
      (80, ''sys_getgroups16''), (81, ''sys_setgroups16''), (82, ''sys_old_select''), (84, ''sys_lstat''),
      (89, ''sys_old_readdir''), (90, ''sys_old_mmap''), (95, ''sys_fchown16''), (106, ''sys_newstat''),
      (107, ''sys_newlstat''), (108, ''sys_newfstat''), (109, ''sys_uname''), (122, ''sys_newuname''),
      (138, ''sys_setfsuid16''), (139, ''sys_setfsgid16''), (140, ''sys_llseek''), (142, ''sys_select''),
      (149, ''sys_sysctl''), (164, ''sys_setresuid16''), (165, ''sys_getresuid16''),
      (170, ''sys_setresgid16''), (171, ''sys_getresgid16''), (182, ''sys_chown16''),
      (191, ''sys_getrlimit''), (192, ''sys_mmap_pgoff''), (198, ''sys_lchown''), (199, ''sys_getuid''),
      (200, ''sys_getgid''), (201, ''sys_geteuid''), (202, ''sys_getegid''), (203, ''sys_setreuid''),
      (204, ''sys_setregid''), (205, ''sys_getgroups''), (206, ''sys_setgroups''), (207, ''sys_fchown''),
      (208, ''sys_setresuid''), (209, ''sys_getresuid''), (210, ''sys_setresgid''),
      (211, ''sys_getresgid''), (212, ''sys_chown''), (213, ''sys_setuid''), (214, ''sys_setgid''),
      (215, ''sys_setfsuid''), (216, ''sys_setfsgid'')]"

definition entry_of :: "nat \<Rightarrow> string \<Rightarrow> string option" where
  "entry_of k n =
     (if k \<in> set unimplemented then None
      else Some (case map_of renamed k of Some f \<Rightarrow> f | None \<Rightarrow> ''sys_'' @ n))"

text \<open>Entry points for 32-bit programs on a 64-bit kernel.\<close>

definition compat_name :: "string \<Rightarrow> bool" where
  "compat_name f \<longleftrightarrow> list_ex (\<lambda>x. take (length x) f = x) [''compat_sys_'', ''sys32_'', ''stub32_'', ''sys_'']"

definition row_ok :: "tbl_row \<Rightarrow> bool" where
  "row_ok r \<longleftrightarrow>
     abi r = ''i386'' \<and> entry_point r = entry_of (nr r) (call_name r) \<and>
     (case compat_entry r of None \<Rightarrow> True | Some f \<Rightarrow> compat_name f \<and> entry_point r \<noteq> None)"

definition names_of :: "config \<Rightarrow> prototype list \<Rightarrow> string set" where
  "names_of c ps = name_of ` set (filter (\<lambda>p. enabled c (guard_of p)) ps)"

text \<open>The entry point of a row is declared in a part of the header, or in none.\<close>

definition declared_in :: "config \<Rightarrow> tbl_row \<Rightarrow> prototype list \<Rightarrow> bool" where
  "declared_in c r ps \<longleftrightarrow>
     (case entry_point r of
        None \<Rightarrow> True
      | Some f \<Rightarrow> if ps = [] then f \<in> set (''sys_slob_used'' # arch_calls) else f \<in> names_of c ps)"

lemma part_nonempty [simp]:
  "syscalls_ids \<noteq> []"
  "syscalls_timers \<noteq> []"
  "syscalls_process \<noteq> []"
  "syscalls_fs \<noteq> []"
  "syscalls_mm \<noteq> []"
  "syscalls_files \<noteq> []"
  "syscalls_io \<noteq> []"
  "syscalls_net \<noteq> []"
  "syscalls_ipc \<noteq> []"
  "syscalls_keys \<noteq> []"
  "syscalls_at \<noteq> []"
  "syscalls_clone \<noteq> []"
  by (simp_all add: group_defs)

lemmas tbl_defs = syscall_32_part1_def syscall_32_part2_def syscall_32_part3_def syscall_32_part4_def
  syscall_32_part5_def syscall_32_part6_def

subsection \<open>Numbers\<close>

lemma sorted_parts:
  "sorted_wrt (<) (map nr syscall_32_part1)"
  "sorted_wrt (<) (map nr syscall_32_part2)"
  "sorted_wrt (<) (map nr syscall_32_part3)"
  "sorted_wrt (<) (map nr syscall_32_part4)"
  "sorted_wrt (<) (map nr syscall_32_part5)"
  "sorted_wrt (<) (map nr syscall_32_part6)"
  by (simp_all add: tbl_defs sorted_wrt1 sorted_wrt2 [OF transp_on_less] del: sorted_wrt.simps)

subsection \<open>Names\<close>

lemma names_ids:
  "i386_config c \<Longrightarrow> names_of c syscalls_ids =
     {''sys32_quotactl'', ''sys_time'', ''sys_stime'', ''sys_gettimeofday'', ''sys_settimeofday'',
      ''sys_adjtimex'', ''sys_times'', ''sys_gettid'', ''sys_nanosleep'', ''sys_alarm'', ''sys_getpid'',
      ''sys_getppid'', ''sys_getuid'', ''sys_geteuid'', ''sys_getgid'', ''sys_getegid'', ''sys_getresuid'',
      ''sys_getresgid'', ''sys_getpgid'', ''sys_getpgrp'', ''sys_getsid'', ''sys_getgroups'', ''sys_setregid'',
      ''sys_setgid'', ''sys_setreuid'', ''sys_setuid'', ''sys_setresuid'', ''sys_setresgid'', ''sys_setfsuid'',
      ''sys_setfsgid'', ''sys_setpgid'', ''sys_setsid'', ''sys_setgroups'', ''sys_acct'', ''sys_capget'',
      ''sys_capset'', ''sys_personality''}"
  by (simp add: syscalls_ids_def names_of_def i386_config_def)

lemma names_timers:
  "i386_config c \<Longrightarrow> names_of c syscalls_timers =
     {''sys_sigpending'', ''sys_sigprocmask'', ''sys_sigaltstack'', ''sys_getitimer'', ''sys_setitimer'',
      ''sys_timer_create'', ''sys_timer_gettime'', ''sys_timer_getoverrun'', ''sys_timer_settime'',
      ''sys_timer_delete'', ''sys_clock_settime'', ''sys_clock_gettime'', ''sys_clock_adjtime'',
      ''sys_clock_getres'', ''sys_clock_nanosleep'', ''sys_nice'', ''sys_sched_setscheduler'',
      ''sys_sched_setparam'', ''sys_sched_setattr'', ''sys_sched_getscheduler'', ''sys_sched_getparam'',
      ''sys_sched_getattr'', ''sys_sched_setaffinity'', ''sys_sched_getaffinity'', ''sys_sched_yield'',
      ''sys_sched_get_priority_max'', ''sys_sched_get_priority_min'', ''sys_sched_rr_get_interval'',
      ''sys_setpriority'', ''sys_getpriority''}"
  by (simp add: syscalls_timers_def names_of_def i386_config_def)

lemma names_process:
  "i386_config c \<Longrightarrow> names_of c syscalls_process =
     {''sys_shutdown'', ''sys_reboot'', ''sys_restart_syscall'', ''sys_kexec_load'', ''sys_kexec_file_load'',
      ''sys_exit'', ''sys_exit_group'', ''sys_wait4'', ''sys_waitid'', ''sys_waitpid'',
      ''sys_set_tid_address'', ''sys_futex'', ''sys_init_module'', ''sys_delete_module'', ''sys_sigsuspend'',
      ''sys_rt_sigsuspend'', ''sys_sigaction'', ''sys_rt_sigaction'', ''sys_rt_sigprocmask'',
      ''sys_rt_sigpending'', ''sys_rt_sigtimedwait'', ''sys_rt_tgsigqueueinfo'', ''sys_kill'', ''sys_tgkill'',
      ''sys_tkill'', ''sys_rt_sigqueueinfo'', ''sys_sgetmask'', ''sys_ssetmask'', ''sys_signal'', ''sys_pause''}"
  by (simp add: syscalls_process_def names_of_def i386_config_def)

lemma names_fs:
  "i386_config c \<Longrightarrow> names_of c syscalls_fs =
     {''sys_sync'', ''sys_fsync'', ''sys_fdatasync'', ''sys_bdflush'', ''sys_mount'', ''sys_umount'',
      ''sys_oldumount'', ''sys_truncate'', ''sys_ftruncate'', ''sys_stat'', ''sys_statfs'', ''sys_statfs64'',
      ''sys_fstatfs'', ''sys_fstatfs64'', ''sys_lstat'', ''sys_fstat'', ''sys_newstat'', ''sys_newlstat'',
      ''sys_newfstat'', ''sys_ustat'', ''sys_stat64'', ''sys_fstat64'', ''sys_lstat64'', ''sys_truncate64'',
      ''sys_ftruncate64'', ''sys_setxattr'', ''sys_lsetxattr'', ''sys_fsetxattr'', ''sys_getxattr'',
      ''sys_lgetxattr'', ''sys_fgetxattr'', ''sys_listxattr'', ''sys_llistxattr'', ''sys_flistxattr'',
      ''sys_removexattr'', ''sys_lremovexattr'', ''sys_fremovexattr''}"
  by (simp add: syscalls_fs_def names_of_def i386_config_def)

lemma names_mm:
  "i386_config c \<Longrightarrow> names_of c syscalls_mm =
     {''sys_brk'', ''sys_mprotect'', ''sys_mremap'', ''sys_remap_file_pages'', ''sys_msync'',
      ''sys_fadvise64'', ''sys_fadvise64_64'', ''sys_munmap'', ''sys_mlock'', ''sys_munlock'',
      ''sys_mlockall'', ''sys_munlockall'', ''sys_madvise'', ''sys_mincore'', ''sys_pivot_root'',
      ''sys_chroot'', ''sys_mknod'', ''sys_link'', ''sys_symlink'', ''sys_unlink'', ''sys_rename'',
      ''sys_chmod'', ''sys_fchmod''}"
  by (simp add: syscalls_mm_def names_of_def i386_config_def)

lemma names_files:
  "i386_config c \<Longrightarrow> names_of c syscalls_files =
     {''sys_fcntl'', ''sys_fcntl64'', ''sys_pipe'', ''sys_pipe2'', ''sys_dup'', ''sys_dup2'', ''sys_dup3'',
      ''sys_ioperm'', ''sys_ioctl'', ''sys_flock'', ''sys_io_setup'', ''sys_io_destroy'', ''sys_io_getevents'',
      ''sys_io_submit'', ''sys_io_cancel'', ''sys_sendfile'', ''sys_sendfile64'', ''sys_readlink'',
      ''sys_creat'', ''sys_open'', ''sys_close'', ''sys_access'', ''sys_vhangup'', ''sys_chown'',
      ''sys_lchown'', ''sys_fchown'', ''sys_chown16'', ''sys_lchown16'', ''sys_fchown16'', ''sys_setregid16'',
      ''sys_setgid16'', ''sys_setreuid16'', ''sys_setuid16'', ''sys_setresuid16'', ''sys_getresuid16'',
      ''sys_setresgid16'', ''sys_getresgid16'', ''sys_setfsuid16'', ''sys_setfsgid16'', ''sys_getgroups16'',
      ''sys_setgroups16'', ''sys_getuid16'', ''sys_geteuid16'', ''sys_getgid16'', ''sys_getegid16''}"
  by (simp add: syscalls_files_def names_of_def i386_config_def)

lemma names_io:
  "i386_config c \<Longrightarrow> names_of c syscalls_io =
     {''sys_utime'', ''sys_utimes'', ''sys_lseek'', ''sys_llseek'', ''sys_read'', ''sys_readahead'',
      ''sys_readv'', ''sys_write'', ''sys_writev'', ''sys_pread64'', ''sys_pwrite64'', ''sys_preadv'',
      ''sys_pwritev'', ''sys_getcwd'', ''sys_mkdir'', ''sys_chdir'', ''sys_fchdir'', ''sys_rmdir'',
      ''sys_lookup_dcookie'', ''sys_quotactl'', ''sys_getdents'', ''sys_getdents64''}"
  by (simp add: syscalls_io_def names_of_def i386_config_def)

lemma names_net:
  "i386_config c \<Longrightarrow> names_of c syscalls_net =
     {''sys_setsockopt'', ''sys_getsockopt'', ''sys_bind'', ''sys_connect'', ''sys_accept'', ''sys_accept4'',
      ''sys_getsockname'', ''sys_getpeername'', ''sys_send'', ''sys_sendto'', ''sys_sendmsg'',
      ''sys_sendmmsg'', ''sys_recv'', ''sys_recvfrom'', ''sys_recvmsg'', ''sys_recvmmsg'', ''sys_socket'',
      ''sys_socketpair'', ''sys_socketcall'', ''sys_listen'', ''sys_poll'', ''sys_select'', ''sys_old_select'',
      ''sys_epoll_create'', ''sys_epoll_create1'', ''sys_epoll_ctl'', ''sys_epoll_wait'', ''sys_epoll_pwait'',
      ''sys_gethostname'', ''sys_sethostname'', ''sys_setdomainname'', ''sys_newuname'', ''sys_uname'',
      ''sys_olduname'', ''sys_getrlimit'', ''sys_old_getrlimit'', ''sys_setrlimit'', ''sys_prlimit64'',
      ''sys_getrusage'', ''sys_umask''}"
  by (simp add: syscalls_net_def names_of_def i386_config_def)

lemma names_ipc:
  "i386_config c \<Longrightarrow> names_of c syscalls_ipc =
     {''sys_msgget'', ''sys_msgsnd'', ''sys_msgrcv'', ''sys_msgctl'', ''sys_semget'', ''sys_semop'',
      ''sys_semctl'', ''sys_semtimedop'', ''sys_shmat'', ''sys_shmget'', ''sys_shmdt'', ''sys_shmctl'',
      ''sys_ipc'', ''sys_mq_open'', ''sys_mq_unlink'', ''sys_mq_timedsend'', ''sys_mq_timedreceive'',
      ''sys_mq_notify'', ''sys_mq_getsetattr'', ''sys_pciconfig_iobase'', ''sys_pciconfig_read'',
      ''sys_pciconfig_write'', ''sys_prctl'', ''sys_swapon'', ''sys_swapoff'', ''sys_sysctl'', ''sys_sysinfo'',
      ''sys_sysfs'', ''sys_syslog'', ''sys_uselib'', ''sys_ni_syscall'', ''sys_ptrace''}"
  by (simp add: syscalls_ipc_def names_of_def i386_config_def)

lemma names_keys:
  "i386_config c \<Longrightarrow> names_of c syscalls_keys =
     {''sys_add_key'', ''sys_request_key'', ''sys_keyctl'', ''sys_ioprio_set'', ''sys_ioprio_get'',
      ''sys_set_mempolicy'', ''sys_migrate_pages'', ''sys_move_pages'', ''sys_mbind'', ''sys_get_mempolicy'',
      ''sys_inotify_init'', ''sys_inotify_init1'', ''sys_inotify_add_watch'', ''sys_inotify_rm_watch'',
      ''sys_spu_run'', ''sys_spu_create''}"
  by (simp add: syscalls_keys_def names_of_def i386_config_def)

lemma names_at:
  "i386_config c \<Longrightarrow> names_of c syscalls_at =
     {''sys_mknodat'', ''sys_mkdirat'', ''sys_unlinkat'', ''sys_symlinkat'', ''sys_linkat'', ''sys_renameat'',
      ''sys_renameat2'', ''sys_futimesat'', ''sys_faccessat'', ''sys_fchmodat'', ''sys_fchownat'',
      ''sys_openat'', ''sys_newfstatat'', ''sys_fstatat64'', ''sys_readlinkat'', ''sys_utimensat'',
      ''sys_unshare'', ''sys_splice'', ''sys_vmsplice'', ''sys_tee'', ''sys_sync_file_range'',
      ''sys_sync_file_range2'', ''sys_get_robust_list'', ''sys_set_robust_list'', ''sys_getcpu'',
      ''sys_signalfd'', ''sys_signalfd4'', ''sys_timerfd_create'', ''sys_timerfd_settime'',
      ''sys_timerfd_gettime'', ''sys_eventfd'', ''sys_eventfd2'', ''sys_memfd_create'', ''sys_fallocate'',
      ''sys_old_readdir'', ''sys_pselect6'', ''sys_ppoll'', ''sys_fanotify_init'', ''sys_fanotify_mark'',
      ''sys_syncfs''}"
  by (simp add: syscalls_at_def names_of_def i386_config_def)

lemma names_clone:
  "i386_config c \<Longrightarrow> names_of c syscalls_clone =
     {''sys_fork'', ''sys_vfork'', ''sys_clone'', ''sys_execve'', ''sys_perf_event_open'', ''sys_mmap_pgoff'',
      ''sys_old_mmap'', ''sys_name_to_handle_at'', ''sys_open_by_handle_at'', ''sys_setns'',
      ''sys_process_vm_readv'', ''sys_process_vm_writev'', ''sys_kcmp'', ''sys_finit_module'', ''sys_seccomp'',
      ''sys_getrandom'', ''sys_bpf'', ''sys_execveat'', ''sys_slob_free'', ''sys_slob_use''}"
  by (simp add: syscalls_clone_def names_of_def i386_config_def)

lemmas names = names_ids names_timers names_process names_fs names_mm names_files names_io names_net names_ipc names_keys names_at names_clone

lemma part1_declared:
  "i386_config c \<Longrightarrow> list_all2 (declared_in c) syscall_32_part1
     [syscalls_process, syscalls_process, syscalls_clone, syscalls_io, syscalls_io, syscalls_files,
      syscalls_files, syscalls_process, syscalls_files, syscalls_mm, syscalls_mm, syscalls_clone, syscalls_io,
      syscalls_ids, syscalls_mm, syscalls_mm, syscalls_files, [], syscalls_fs, syscalls_io, syscalls_ids,
      syscalls_fs, syscalls_fs, syscalls_files, syscalls_files, syscalls_ids, syscalls_ipc, syscalls_ids,
      syscalls_fs, syscalls_process, syscalls_io, [], [], syscalls_files, syscalls_timers, [], syscalls_fs,
      syscalls_process, syscalls_mm, syscalls_io, syscalls_io, syscalls_files, syscalls_files, syscalls_ids,
      [], syscalls_mm, syscalls_files, syscalls_files, syscalls_process, syscalls_files, syscalls_files,
      syscalls_ids, syscalls_fs, [], syscalls_files, syscalls_files, [], syscalls_ids, [], syscalls_net]"
  by (simp add: syscall_32_part1_def declared_in_def names arch_calls_def)

lemma part2_declared:
  "i386_config c \<Longrightarrow> list_all2 (declared_in c) syscall_32_part2
     [syscalls_net, syscalls_mm, syscalls_fs, syscalls_files, syscalls_ids, syscalls_ids, syscalls_ids,
      syscalls_process, syscalls_process, syscalls_process, syscalls_files, syscalls_files, syscalls_process,
      syscalls_timers, syscalls_net, syscalls_net, syscalls_net, syscalls_net, syscalls_ids, syscalls_ids,
      syscalls_files, syscalls_files, syscalls_net, syscalls_mm, syscalls_fs, syscalls_files, syscalls_ipc,
      syscalls_ipc, syscalls_process, syscalls_at, syscalls_clone, syscalls_mm, syscalls_fs, syscalls_fs,
      syscalls_mm, syscalls_files, syscalls_timers, syscalls_timers, [], syscalls_fs, syscalls_fs,
      syscalls_files, syscalls_net, syscalls_ipc, syscalls_timers, syscalls_timers, syscalls_fs, syscalls_fs,
      syscalls_fs, syscalls_net, [], syscalls_files, [], [], syscalls_process, syscalls_ipc, syscalls_ipc,
      syscalls_ipc, syscalls_fs, []]"
  by (simp add: syscall_32_part2_def declared_in_def names arch_calls_def)

lemma part3_declared:
  "i386_config c \<Longrightarrow> list_all2 (declared_in c) syscall_32_part3
     [syscalls_clone, syscalls_net, syscalls_net, [], syscalls_ids, syscalls_mm, syscalls_timers, [],
      syscalls_process, syscalls_process, [], syscalls_io, syscalls_ids, syscalls_io, syscalls_fs,
      syscalls_ipc, syscalls_ids, [], syscalls_files, syscalls_files, syscalls_io, syscalls_io, syscalls_net,
      syscalls_files, syscalls_mm, syscalls_io, syscalls_io, syscalls_ids, syscalls_fs, syscalls_ipc,
      syscalls_mm, syscalls_mm, syscalls_mm, syscalls_mm, syscalls_timers, syscalls_timers, syscalls_timers,
      syscalls_timers, syscalls_timers, syscalls_timers, syscalls_timers, syscalls_timers, syscalls_ids,
      syscalls_mm, syscalls_files, syscalls_files, [], [], syscalls_net, [], syscalls_files, syscalls_files,
      syscalls_ipc, [], syscalls_process, syscalls_process, syscalls_process, syscalls_process,
      syscalls_process, syscalls_process]"
  by (simp add: syscall_32_part3_def declared_in_def names arch_calls_def)

lemma part4_declared:
  "i386_config c \<Longrightarrow> list_all2 (declared_in c) syscall_32_part4
     [syscalls_io, syscalls_io, syscalls_files, syscalls_io, syscalls_ids, syscalls_ids, syscalls_timers,
      syscalls_files, [], [], syscalls_clone, syscalls_net, syscalls_clone, syscalls_fs, syscalls_fs,
      syscalls_fs, syscalls_fs, syscalls_fs, syscalls_files, syscalls_ids, syscalls_ids, syscalls_ids,
      syscalls_ids, syscalls_ids, syscalls_ids, syscalls_ids, syscalls_ids, syscalls_files, syscalls_ids,
      syscalls_ids, syscalls_ids, syscalls_ids, syscalls_files, syscalls_ids, syscalls_ids, syscalls_ids,
      syscalls_ids, syscalls_mm, syscalls_mm, syscalls_mm, syscalls_io, syscalls_files, syscalls_ids,
      syscalls_io, syscalls_fs, syscalls_fs, syscalls_fs, syscalls_fs, syscalls_fs, syscalls_fs, syscalls_fs,
      syscalls_fs, syscalls_fs, syscalls_fs, syscalls_fs, syscalls_fs, syscalls_process, syscalls_files]"
  by (simp add: syscall_32_part4_def declared_in_def names arch_calls_def)

lemma part5_declared:
  "i386_config c \<Longrightarrow> list_all2 (declared_in c) syscall_32_part5
     [syscalls_process, syscalls_timers, syscalls_timers, [], [], syscalls_files, syscalls_files,
      syscalls_files, syscalls_files, syscalls_files, syscalls_mm, syscalls_process, syscalls_io, syscalls_net,
      syscalls_net, syscalls_net, syscalls_mm, syscalls_process, syscalls_timers, syscalls_timers,
      syscalls_timers, syscalls_timers, syscalls_timers, syscalls_timers, syscalls_timers, syscalls_timers,
      syscalls_timers, syscalls_fs, syscalls_fs, syscalls_process, syscalls_io, syscalls_mm, [], syscalls_keys,
      syscalls_keys, syscalls_keys, syscalls_ipc, syscalls_ipc, syscalls_ipc, syscalls_ipc, syscalls_ipc,
      syscalls_ipc, syscalls_process, syscalls_process, syscalls_keys, syscalls_keys, syscalls_keys,
      syscalls_keys, syscalls_keys, syscalls_keys, syscalls_keys, syscalls_keys, syscalls_keys, syscalls_at,
      syscalls_at, syscalls_at, syscalls_at, syscalls_at]"
  by (simp add: syscall_32_part5_def declared_in_def names arch_calls_def)

lemma part6_declared:
  "i386_config c \<Longrightarrow> list_all2 (declared_in c) syscall_32_part6
     [syscalls_at, syscalls_at, syscalls_at, syscalls_at, syscalls_at, syscalls_at, syscalls_at, syscalls_at,
      syscalls_at, syscalls_at, syscalls_at, syscalls_at, syscalls_at, syscalls_at, syscalls_at, syscalls_at,
      syscalls_at, syscalls_keys, syscalls_at, syscalls_net, syscalls_at, syscalls_at, syscalls_at,
      syscalls_at, syscalls_at, syscalls_at, syscalls_at, syscalls_at, syscalls_at, syscalls_net,
      syscalls_files, syscalls_files, syscalls_keys, syscalls_io, syscalls_io, syscalls_process,
      syscalls_clone, syscalls_net, syscalls_at, syscalls_at, syscalls_net, syscalls_clone, syscalls_clone,
      syscalls_timers, syscalls_at, syscalls_net, syscalls_clone, syscalls_clone, syscalls_clone,
      syscalls_clone, syscalls_clone, syscalls_timers, syscalls_timers, syscalls_at, syscalls_clone,
      syscalls_clone, syscalls_at, syscalls_clone, syscalls_clone, syscalls_clone, []]"
  by (simp add: syscall_32_part6_def declared_in_def names arch_calls_def)

subsection \<open>The whole table\<close>

lemma part_bounds:
  "list_all (\<lambda>r. 0 \<le> nr r \<and> nr r < 60) syscall_32_part1"
  "list_all (\<lambda>r. 60 \<le> nr r \<and> nr r < 120) syscall_32_part2"
  "list_all (\<lambda>r. 120 \<le> nr r \<and> nr r < 180) syscall_32_part3"
  "list_all (\<lambda>r. 180 \<le> nr r \<and> nr r < 240) syscall_32_part4"
  "list_all (\<lambda>r. 240 \<le> nr r \<and> nr r < 300) syscall_32_part5"
  "list_all (\<lambda>r. 300 \<le> nr r \<and> nr r < 502) syscall_32_part6"
  by (simp_all add: tbl_defs)

lemma numbers_sorted: "sorted_wrt (<) (map nr syscall_32_tbl)"
  using sorted_parts part_bounds
  by (fastforce simp: syscall_32_tbl_def sorted_wrt_append list_all_iff)

lemma row_of_nr: "r \<in> set syscall_32_tbl \<Longrightarrow> row_of (nr r) = Some r"
proof -
  assume r: "r \<in> set syscall_32_tbl"
  have "distinct (map nr syscall_32_tbl)" using numbers_sorted by (simp add: strict_sorted_iff)
  then have inj: "inj_on nr (set syscall_32_tbl)" by (simp add: distinct_map)
  obtain q where q: "row_of (nr r) = Some q" using r by (cases "row_of (nr r)") (auto simp: row_of_def find_None_iff)
  then have "nr q = nr r" "q \<in> set syscall_32_tbl"
    unfolding row_of_def by (auto simp: find_Some_iff)
  then show ?thesis using q r inj by (auto dest: inj_onD)
qed

lemma renamed_other:
  "k \<notin> {16, 18, 22, 23, 24, 28, 46, 47, 49, 50, 52, 59, 70, 71, 76, 80, 81, 82, 84, 89, 90, 95, 106, 107, 108,
     109, 122, 138, 139, 140, 142, 149, 164, 165, 170, 171, 182, 191, 192, 198, 199, 200, 201, 202, 203,
     204, 205, 206, 207, 208, 209, 210, 211, 212, 213, 214, 215, 216} \<Longrightarrow>
   map_of renamed k = None"
  by (simp add: renamed_def map_of_eq_None_iff)

lemma renamed_distinct: "distinct (map fst renamed)"
  by (simp add: renamed_def)

lemma renamed_lookup:
  assumes "m = map_of renamed"
  shows "m 16 = Some ''sys_lchown16''"
    "m 18 = Some ''sys_stat''"
    "m 22 = Some ''sys_oldumount''"
    "m 23 = Some ''sys_setuid16''"
    "m 24 = Some ''sys_getuid16''"
    "m 28 = Some ''sys_fstat''"
    "m 46 = Some ''sys_setgid16''"
    "m 47 = Some ''sys_getgid16''"
    "m 49 = Some ''sys_geteuid16''"
    "m 50 = Some ''sys_getegid16''"
    "m 52 = Some ''sys_umount''"
    "m 59 = Some ''sys_olduname''"
    "m 70 = Some ''sys_setreuid16''"
    "m 71 = Some ''sys_setregid16''"
    "m 76 = Some ''sys_old_getrlimit''"
    "m 80 = Some ''sys_getgroups16''"
    "m 81 = Some ''sys_setgroups16''"
    "m 82 = Some ''sys_old_select''"
    "m 84 = Some ''sys_lstat''"
    "m 89 = Some ''sys_old_readdir''"
    "m 90 = Some ''sys_old_mmap''"
    "m 95 = Some ''sys_fchown16''"
    "m 106 = Some ''sys_newstat''"
    "m 107 = Some ''sys_newlstat''"
    "m 108 = Some ''sys_newfstat''"
    "m 109 = Some ''sys_uname''"
    "m 122 = Some ''sys_newuname''"
    "m 138 = Some ''sys_setfsuid16''"
    "m 139 = Some ''sys_setfsgid16''"
    "m 140 = Some ''sys_llseek''"
    "m 142 = Some ''sys_select''"
    "m 149 = Some ''sys_sysctl''"
    "m 164 = Some ''sys_setresuid16''"
    "m 165 = Some ''sys_getresuid16''"
    "m 170 = Some ''sys_setresgid16''"
    "m 171 = Some ''sys_getresgid16''"
    "m 182 = Some ''sys_chown16''"
    "m 191 = Some ''sys_getrlimit''"
    "m 192 = Some ''sys_mmap_pgoff''"
    "m 198 = Some ''sys_lchown''"
    "m 199 = Some ''sys_getuid''"
    "m 200 = Some ''sys_getgid''"
    "m 201 = Some ''sys_geteuid''"
    "m 202 = Some ''sys_getegid''"
    "m 203 = Some ''sys_setreuid''"
    "m 204 = Some ''sys_setregid''"
    "m 205 = Some ''sys_getgroups''"
    "m 206 = Some ''sys_setgroups''"
    "m 207 = Some ''sys_fchown''"
    "m 208 = Some ''sys_setresuid''"
    "m 209 = Some ''sys_getresuid''"
    "m 210 = Some ''sys_setresgid''"
    "m 211 = Some ''sys_getresgid''"
    "m 212 = Some ''sys_chown''"
    "m 213 = Some ''sys_setuid''"
    "m 214 = Some ''sys_setgid''"
    "m 215 = Some ''sys_setfsuid''"
    "m 216 = Some ''sys_setfsgid''"
proof -
  have "list_all (\<lambda>(k, f). m k = Some f) renamed"
    using renamed_distinct by (auto simp: list_all_iff assms)
  then show "m 16 = Some ''sys_lchown16''"
    "m 18 = Some ''sys_stat''"
    "m 22 = Some ''sys_oldumount''"
    "m 23 = Some ''sys_setuid16''"
    "m 24 = Some ''sys_getuid16''"
    "m 28 = Some ''sys_fstat''"
    "m 46 = Some ''sys_setgid16''"
    "m 47 = Some ''sys_getgid16''"
    "m 49 = Some ''sys_geteuid16''"
    "m 50 = Some ''sys_getegid16''"
    "m 52 = Some ''sys_umount''"
    "m 59 = Some ''sys_olduname''"
    "m 70 = Some ''sys_setreuid16''"
    "m 71 = Some ''sys_setregid16''"
    "m 76 = Some ''sys_old_getrlimit''"
    "m 80 = Some ''sys_getgroups16''"
    "m 81 = Some ''sys_setgroups16''"
    "m 82 = Some ''sys_old_select''"
    "m 84 = Some ''sys_lstat''"
    "m 89 = Some ''sys_old_readdir''"
    "m 90 = Some ''sys_old_mmap''"
    "m 95 = Some ''sys_fchown16''"
    "m 106 = Some ''sys_newstat''"
    "m 107 = Some ''sys_newlstat''"
    "m 108 = Some ''sys_newfstat''"
    "m 109 = Some ''sys_uname''"
    "m 122 = Some ''sys_newuname''"
    "m 138 = Some ''sys_setfsuid16''"
    "m 139 = Some ''sys_setfsgid16''"
    "m 140 = Some ''sys_llseek''"
    "m 142 = Some ''sys_select''"
    "m 149 = Some ''sys_sysctl''"
    "m 164 = Some ''sys_setresuid16''"
    "m 165 = Some ''sys_getresuid16''"
    "m 170 = Some ''sys_setresgid16''"
    "m 171 = Some ''sys_getresgid16''"
    "m 182 = Some ''sys_chown16''"
    "m 191 = Some ''sys_getrlimit''"
    "m 192 = Some ''sys_mmap_pgoff''"
    "m 198 = Some ''sys_lchown''"
    "m 199 = Some ''sys_getuid''"
    "m 200 = Some ''sys_getgid''"
    "m 201 = Some ''sys_geteuid''"
    "m 202 = Some ''sys_getegid''"
    "m 203 = Some ''sys_setreuid''"
    "m 204 = Some ''sys_setregid''"
    "m 205 = Some ''sys_getgroups''"
    "m 206 = Some ''sys_setgroups''"
    "m 207 = Some ''sys_fchown''"
    "m 208 = Some ''sys_setresuid''"
    "m 209 = Some ''sys_getresuid''"
    "m 210 = Some ''sys_setresgid''"
    "m 211 = Some ''sys_getresgid''"
    "m 212 = Some ''sys_chown''"
    "m 213 = Some ''sys_setuid''"
    "m 214 = Some ''sys_setgid''"
    "m 215 = Some ''sys_setfsuid''"
    "m 216 = Some ''sys_setfsgid''"
    unfolding renamed_def by simp_all
qed

lemmas renamed_calls = renamed_lookup [OF refl]

lemmas row_simps = row_ok_def entry_of_def unimplemented_def compat_name_def renamed_calls renamed_other

lemma part1_ok: "list_all row_ok syscall_32_part1"
  by (simp add: syscall_32_part1_def row_simps)

lemma part2_ok: "list_all row_ok syscall_32_part2"
  by (simp add: syscall_32_part2_def row_simps)

lemma part3_ok: "list_all row_ok syscall_32_part3"
  by (simp add: syscall_32_part3_def row_simps)

lemma part4_ok: "list_all row_ok syscall_32_part4"
  by (simp add: syscall_32_part4_def row_simps)

lemma part5_ok: "list_all row_ok syscall_32_part5"
  by (simp add: syscall_32_part5_def row_simps)

lemma part6_ok: "list_all row_ok syscall_32_part6"
  by (simp add: syscall_32_part6_def row_simps)

lemmas parts_ok = part1_ok part2_ok part3_ok part4_ok part5_ok part6_ok

lemma rows_ok: "r \<in> set syscall_32_tbl \<Longrightarrow> row_ok r"
  using parts_ok by (auto simp: syscall_32_tbl_def list_all_iff)

lemma part_in_header:
  "set syscalls_ids \<subseteq> set syscalls_h"
  "set syscalls_timers \<subseteq> set syscalls_h"
  "set syscalls_process \<subseteq> set syscalls_h"
  "set syscalls_fs \<subseteq> set syscalls_h"
  "set syscalls_mm \<subseteq> set syscalls_h"
  "set syscalls_files \<subseteq> set syscalls_h"
  "set syscalls_io \<subseteq> set syscalls_h"
  "set syscalls_net \<subseteq> set syscalls_h"
  "set syscalls_ipc \<subseteq> set syscalls_h"
  "set syscalls_keys \<subseteq> set syscalls_h"
  "set syscalls_at \<subseteq> set syscalls_h"
  "set syscalls_clone \<subseteq> set syscalls_h"
  by (auto simp: syscalls_h_def)

lemma names_declared: "set ps \<subseteq> set syscalls_h \<Longrightarrow> names_of c ps \<subseteq> name_of ` set (declared c)"
  by (auto simp: names_of_def declared_def)

lemma groups_undeclared:
  "list_all (\<lambda>p. name_of p \<notin> set (''sys_slob_used'' # arch_calls)) syscalls_ids"
  "list_all (\<lambda>p. name_of p \<notin> set (''sys_slob_used'' # arch_calls)) syscalls_timers"
  "list_all (\<lambda>p. name_of p \<notin> set (''sys_slob_used'' # arch_calls)) syscalls_process"
  "list_all (\<lambda>p. name_of p \<notin> set (''sys_slob_used'' # arch_calls)) syscalls_fs"
  "list_all (\<lambda>p. name_of p \<notin> set (''sys_slob_used'' # arch_calls)) syscalls_mm"
  "list_all (\<lambda>p. name_of p \<notin> set (''sys_slob_used'' # arch_calls)) syscalls_files"
  "list_all (\<lambda>p. name_of p \<notin> set (''sys_slob_used'' # arch_calls)) syscalls_io"
  "list_all (\<lambda>p. name_of p \<notin> set (''sys_slob_used'' # arch_calls)) syscalls_net"
  "list_all (\<lambda>p. name_of p \<notin> set (''sys_slob_used'' # arch_calls)) syscalls_ipc"
  "list_all (\<lambda>p. name_of p \<notin> set (''sys_slob_used'' # arch_calls)) syscalls_keys"
  "list_all (\<lambda>p. name_of p \<notin> set (''sys_slob_used'' # arch_calls)) syscalls_at"
  "list_all (\<lambda>p. name_of p \<notin> set (''sys_slob_used'' # arch_calls)) syscalls_clone"
  by (simp_all add: group_defs arch_calls_def)

lemma undeclared: "f \<in> set (''sys_slob_used'' # arch_calls) \<Longrightarrow> f \<notin> name_of ` set (declared c)"
proof -
  have "list_all (\<lambda>p. name_of p \<notin> set (''sys_slob_used'' # arch_calls)) syscalls_h"
    unfolding syscalls_h_def by (simp only: list_all_append groups_undeclared)
  then show "f \<in> set (''sys_slob_used'' # arch_calls) \<Longrightarrow> ?thesis"
    unfolding declared_def list_all_iff by auto
qed

lemma row_declared:
  assumes "list_all2 (declared_in c) rs gs" "list_all (\<lambda>g. set g \<subseteq> set syscalls_h) gs" "r \<in> set rs" "entry_point r = Some f"
  shows "f \<in> name_of ` set (declared c) \<or> f \<in> set (''sys_slob_used'' # arch_calls)"
proof -
  obtain i where i: "i < length rs" "rs ! i = r" using assms(3) by (auto simp: in_set_conv_nth)
  then have "declared_in c r (gs ! i)" "set (gs ! i) \<subseteq> set syscalls_h"
    using assms(1,2) by (auto simp: list_all2_conv_all_nth list_all_length)
  then show ?thesis
    using assms(4) names_declared [of "gs ! i" c] by (auto simp: declared_in_def split: if_splits)
qed

lemma part_rows:
  assumes "i386_config c" "entry_point r = Some f"
  shows "r \<in> set syscall_32_part1 \<Longrightarrow> f \<in> name_of ` set (declared c) \<or> f \<in> set (''sys_slob_used'' # arch_calls)"
    "r \<in> set syscall_32_part2 \<Longrightarrow> f \<in> name_of ` set (declared c) \<or> f \<in> set (''sys_slob_used'' # arch_calls)"
    "r \<in> set syscall_32_part3 \<Longrightarrow> f \<in> name_of ` set (declared c) \<or> f \<in> set (''sys_slob_used'' # arch_calls)"
    "r \<in> set syscall_32_part4 \<Longrightarrow> f \<in> name_of ` set (declared c) \<or> f \<in> set (''sys_slob_used'' # arch_calls)"
    "r \<in> set syscall_32_part5 \<Longrightarrow> f \<in> name_of ` set (declared c) \<or> f \<in> set (''sys_slob_used'' # arch_calls)"
    "r \<in> set syscall_32_part6 \<Longrightarrow> f \<in> name_of ` set (declared c) \<or> f \<in> set (''sys_slob_used'' # arch_calls)"
  subgoal by (rule row_declared [OF part1_declared [OF assms(1)] _ _ assms(2)]) (simp_all add: part_in_header)
  subgoal by (rule row_declared [OF part2_declared [OF assms(1)] _ _ assms(2)]) (simp_all add: part_in_header)
  subgoal by (rule row_declared [OF part3_declared [OF assms(1)] _ _ assms(2)]) (simp_all add: part_in_header)
  subgoal by (rule row_declared [OF part4_declared [OF assms(1)] _ _ assms(2)]) (simp_all add: part_in_header)
  subgoal by (rule row_declared [OF part5_declared [OF assms(1)] _ _ assms(2)]) (simp_all add: part_in_header)
  subgoal by (rule row_declared [OF part6_declared [OF assms(1)] _ _ assms(2)]) (simp_all add: part_in_header)
  done

lemma entry_declared:
  assumes "i386_config c" "r \<in> set syscall_32_tbl" "entry_point r = Some f"
  shows "f \<in> name_of ` set (declared c) \<longleftrightarrow> f \<notin> set (''sys_slob_used'' # arch_calls)"
proof -
  have "f \<in> name_of ` set (declared c) \<or> f \<in> set (''sys_slob_used'' # arch_calls)"
    using assms(2) unfolding syscall_32_tbl_def set_append by (elim UnE) (erule part_rows [OF assms(1,3)])+
  then show ?thesis using undeclared [of f c] by blast
qed

text \<open>The rows of the project.\<close>

lemma slob_rows:
  "list_all (\<lambda>r. entry_point r \<noteq> Some ''sys_slob_free'' \<and> entry_point r \<noteq> Some ''sys_slob_used'') syscall_32_part1"
  "list_all (\<lambda>r. entry_point r \<noteq> Some ''sys_slob_free'' \<and> entry_point r \<noteq> Some ''sys_slob_used'') syscall_32_part2"
  "list_all (\<lambda>r. entry_point r \<noteq> Some ''sys_slob_free'' \<and> entry_point r \<noteq> Some ''sys_slob_used'') syscall_32_part3"
  "list_all (\<lambda>r. entry_point r \<noteq> Some ''sys_slob_free'' \<and> entry_point r \<noteq> Some ''sys_slob_used'') syscall_32_part4"
  "list_all (\<lambda>r. entry_point r \<noteq> Some ''sys_slob_free'' \<and> entry_point r \<noteq> Some ''sys_slob_used'') syscall_32_part5"
  "list_all (\<lambda>r. entry_point r \<in> {Some ''sys_slob_free'', Some ''sys_slob_used''} \<longrightarrow> nr r \<in> {500, 501}) syscall_32_part6"
  by (simp_all add: tbl_defs)

lemma call_of_slob: "call_of 500 = Some ''sys_slob_free''" "call_of 501 = Some ''sys_slob_used''"
proof -
  have "Row 500 ''i386'' ''slob_free'' (Some ''sys_slob_free'') None \<in> set syscall_32_tbl"
    "Row 501 ''i386'' ''slob_used'' (Some ''sys_slob_used'') None \<in> set syscall_32_tbl"
    by (simp_all add: syscall_32_tbl_def syscall_32_part6_def)
  from row_of_nr [OF this(1)] row_of_nr [OF this(2)]
  show "call_of 500 = Some ''sys_slob_free''" "call_of 501 = Some ''sys_slob_used''" by (simp_all add: call_of_def)
qed

lemma call_of_other:
  assumes "n \<noteq> 500" "n \<noteq> 501" "call_of n = Some f"
  shows "slob_entry f = None"
proof -
  obtain r where r: "row_of n = Some r" "entry_point r = Some f"
    using assms(3) by (auto simp: call_of_def bind_eq_Some_conv)
  then have "r \<in> set syscall_32_tbl" "nr r = n" unfolding row_of_def by (auto simp: find_Some_iff)
  then have "f \<noteq> ''sys_slob_free''" "f \<noteq> ''sys_slob_used''"
    using slob_rows r(2) assms(1,2) by (auto simp: syscall_32_tbl_def list_all_iff)
  then show ?thesis by (simp add: slob_entry_def)
qed

subsection \<open>Properties\<close>

text \<open>
  C19 (table and header): on 32-bit x86 every row of the table is for \<^verbatim>\<open>i386\<close> and is the row that its number finds. Its
  entry point is \<^verbatim>\<open>sys_\<close> and its name, but for the listed calls with another or none, and that is what the number calls;
  it is declared in \<^verbatim>\<open>syscalls.h\<close> exactly if it is not one of the eight of the architecture and not \<^verbatim>\<open>sys_slob_used\<close>.
  An entry point for 64-bit kernels has one of four prefixes, and stands only beside one for 32-bit kernels.
\<close>

theorem syscall_32_declared:
  assumes "i386_config c" "r \<in> set syscall_32_tbl"
  shows "abi r = ''i386'' \<and> row_of (nr r) = Some r \<and> entry_point r = entry_of (nr r) (call_name r) \<and>
    call_of (nr r) = entry_of (nr r) (call_name r) \<and>
    (\<forall>f. entry_point r = Some f \<longrightarrow> (f \<in> name_of ` set (declared c) \<longleftrightarrow> f \<notin> set (''sys_slob_used'' # arch_calls))) \<and>
    (\<forall>f. compat_entry r = Some f \<longrightarrow> compat_name f \<and> entry_point r \<noteq> None)"
proof (intro conjI allI impI)
  note ok = rows_ok [OF assms(2), unfolded row_ok_def]
  show "abi r = ''i386''" by (rule conjunct1 [OF ok])
  show entry: "entry_point r = entry_of (nr r) (call_name r)" by (rule conjunct1 [OF conjunct2 [OF ok]])
  show row: "row_of (nr r) = Some r" by (rule row_of_nr [OF assms(2)])
  show "call_of (nr r) = entry_of (nr r) (call_name r)" unfolding entry [symmetric] by (simp add: call_of_def row)
  show "f \<in> name_of ` set (declared c) \<longleftrightarrow> f \<notin> set (''sys_slob_used'' # arch_calls)" if "entry_point r = Some f" for f
    by (rule entry_declared [OF assms that])
  show "compat_name f" "entry_point r \<noteq> None" if "compat_entry r = Some f" for f
    using conjunct2 [OF conjunct2 [OF ok]] that by simp_all
qed

theorem syscall_32_declared_witness:
  "\<exists>c. i386_config c \<and> ''sys_slob_used'' \<notin> name_of ` set (declared c) \<and> ''sys_slob_free'' \<in> name_of ` set (declared c) \<and>
     call_of 17 = None"
proof -
  let ?c = "\<lparr>defined = (\<lambda>x. x \<in> {''CONFIG_UID16'', ''CONFIG_OLD_SIGACTION'', ''CONFIG_OLD_SIGSUSPEND3'', ''CONFIG_CLONE_BACKWARDS''}),
    BITS_PER_LONG = 32\<rparr>"
  have c: "i386_config ?c" by (simp add: i386_config_def)
  have "Row 500 ''i386'' ''slob_free'' (Some ''sys_slob_free'') None \<in> set syscall_32_tbl"
    "Row 501 ''i386'' ''slob_used'' (Some ''sys_slob_used'') None \<in> set syscall_32_tbl"
    "Row 17 ''i386'' ''break'' None None \<in> set syscall_32_tbl"
    by (simp_all add: syscall_32_tbl_def syscall_32_part1_def syscall_32_part6_def)
  note rows = this [THEN syscall_32_declared [OF c]]
  have "''sys_slob_used'' \<notin> name_of ` set (declared ?c)" "''sys_slob_free'' \<in> name_of ` set (declared ?c)"
    using rows(1,2) by (simp_all add: arch_calls_def)
  moreover have "call_of 17 = None" using rows(3) by simp
  ultimately show ?thesis using c by blast
qed

text \<open>
  C20 (the calls of the project, by number): in every state that the allocator reaches from boot, call 500 returns
  the bytes of all pages ever taken less the sizes of the live objects, and call 501 returns the bytes of all pages ever
  taken, both as 32-bit integers; no other number reaches the allocator.
\<close>

theorem slob_calls_by_number:
  assumes "slob_run m pg live st"
  shows "slob_syscall 500 st = Some (sint (word_of_int PAGE_SIZE * of_nat (card (slab_pages st) + length (released st))
      - word_of_int (\<Sum>x\<in>live. snd x) :: u32)) \<and>
    slob_syscall 501 st = Some (sint (word_of_int PAGE_SIZE * of_nat (card (slab_pages st) + length (released st)) :: u32)) \<and>
    (n \<noteq> 500 \<and> n \<noteq> 501 \<longrightarrow> slob_syscall n st = None)"
proof (intro conjI impI)
  have "used_m st = word_of_int (\<Sum>x\<in>live. snd x)" "pcount st = of_nat (card (slab_pages st))"
    "claimed_m st = word_of_int PAGE_SIZE * (pcount st + of_nat (length (released st)))"
    using slob_run_accounts [OF assms] by (simp_all add: slob_accounts_def)
  then show "slob_syscall 500 st = Some (sint (word_of_int PAGE_SIZE * of_nat (card (slab_pages st) + length (released st))
      - word_of_int (\<Sum>x\<in>live. snd x) :: u32))"
    "slob_syscall 501 st = Some (sint (word_of_int PAGE_SIZE * of_nat (card (slab_pages st) + length (released st)) :: u32))"
    by (simp_all add: slob_syscall_def call_of_slob slob_entry_def sys_slob_free_def sys_slob_used_def)
  assume "n \<noteq> 500 \<and> n \<noteq> 501"
  then show "slob_syscall n st = None"
    using call_of_other [of n] by (cases "call_of n") (auto simp: slob_syscall_def)
qed

theorem slob_calls_by_number_witness:
  "\<exists>st b. slob_run (\<lambda>_. 0) (page_of demo_slob) {(b, 8)} st \<and>
    slob_syscall 501 st = Some (sint (word_of_int PAGE_SIZE * of_nat (card (slab_pages st) + length (released st)) :: u32)) \<and>
    slob_syscall 3 st = None"
proof -
  obtain st b where run: "slob_run (\<lambda>_. 0) (page_of demo_slob) {(b, 8)} st" by (rule demo_run)
  from slob_calls_by_number [OF run, of 3] run show ?thesis by auto
qed

end
