(* ===== verification/Mt19937.thy ===== *)
theory Mt19937
  imports Complex_Main "HOL-Library.Log_Nat" Prelude
begin

text \<open>
  The Mersenne Twister of \<^verbatim>\<open>src/concurrency/concurrency1/mt19937ar.c\<close>.
  \<^verbatim>\<open>unsigned long\<close> is 64 bits wide (LP64); the masks of the source keep the state in
  32 bits. The file-scope variables \<^verbatim>\<open>mt\<close> and \<^verbatim>\<open>mti\<close> are the record \<open>mt_state\<close>. Accesses
  whose index is computed from the arguments are checked: \<^term>\<open>None\<close> is an access out
  of bounds. The functions with a \<^verbatim>\<open>double\<close> result whose arithmetic is exact in IEEE
  double precision are given over \<open>real\<close>; \<^verbatim>\<open>genrand_real1\<close>, whose is not, rounds as IEEE 754 does.
\<close>

subsection \<open>State and initialisation\<close>

definition MT_N :: nat where
  "MT_N = 624"

definition MT_M :: nat where
  "MT_M = 397"

definition MATRIX_A :: u64 where
  "MATRIX_A = 0x9908b0df"

definition UPPER_MASK :: u64 where
  "UPPER_MASK = 0x80000000"

definition LOWER_MASK :: u64 where
  "LOWER_MASK = 0x7fffffff"

definition WORD_MASK :: u64 where
  "WORD_MASK = 0xffffffff"

record mt_state =
  mt :: "u64 list"
  mti :: nat

function init_genrand_loop :: "u64 list \<Rightarrow> nat \<Rightarrow> mt_state" where
  "init_genrand_loop a i =
     (if i < MT_N
      then init_genrand_loop
             (a[i := (1812433253 * (a ! (i - 1) XOR drop_bit 30 (a ! (i - 1))) + of_nat i) AND WORD_MASK])
             (i + 1)
      else \<lparr>mt = a, mti = i\<rparr>)"
  by pat_completeness auto

termination
  by (relation "measure (\<lambda>(a, i). MT_N - i)") auto

declare init_genrand_loop.simps [simp del]

definition init_genrand :: "u64 \<Rightarrow> mt_state \<Rightarrow> mt_state" where
  "init_genrand s st = init_genrand_loop ((mt st)[0 := s AND WORD_MASK]) 1"

text \<open>One round of the loops of \<^verbatim>\<open>init_by_array\<close>: the update of \<^verbatim>\<open>mt[i]\<close> and the step of \<^verbatim>\<open>i\<close>.\<close>

definition mix_next :: "u64 list \<Rightarrow> nat \<Rightarrow> u64 \<Rightarrow> (u64 list \<times> nat) option" where
  "mix_next a i v =
     (if i < length a then
        (let a1 = a[i := v AND WORD_MASK]; i1 = i + 1
         in Some (if i1 \<ge> MT_N then (a1[0 := a1 ! (MT_N - 1)], 1) else (a1, i1)))
      else None)"

fun mix_key_loop :: "u64 list \<Rightarrow> nat \<Rightarrow> nat \<Rightarrow> u64 list \<Rightarrow> nat \<Rightarrow> nat \<Rightarrow> (u64 list \<times> nat) option" where
  "mix_key_loop init_key key_length 0 a i j = Some (a, i)"
| "mix_key_loop init_key key_length (Suc k) a i j =
     (if j < length init_key \<and> i < length a then
        (case mix_next a i ((a ! i XOR ((a ! (i - 1) XOR drop_bit 30 (a ! (i - 1))) * 1664525))
                            + init_key ! j + of_nat j) of
           None \<Rightarrow> None
         | Some (a1, i1) \<Rightarrow>
             mix_key_loop init_key key_length k a1 i1 (if j + 1 \<ge> key_length then 0 else j + 1))
      else None)"

fun mix_loop :: "nat \<Rightarrow> u64 list \<Rightarrow> nat \<Rightarrow> (u64 list \<times> nat) option" where
  "mix_loop 0 a i = Some (a, i)"
| "mix_loop (Suc k) a i =
     (if i < length a then
        (case mix_next a i ((a ! i XOR ((a ! (i - 1) XOR drop_bit 30 (a ! (i - 1))) * 1566083941))
                            - of_nat i) of
           None \<Rightarrow> None
         | Some (a1, i1) \<Rightarrow> mix_loop k a1 i1)
      else None)"

definition init_by_array :: "u64 list \<Rightarrow> nat \<Rightarrow> mt_state \<Rightarrow> mt_state option" where
  "init_by_array init_key key_length st =
     (let st1 = init_genrand 19650218 st
      in case mix_key_loop init_key key_length (max MT_N key_length) (mt st1) 1 0 of
           None \<Rightarrow> None
         | Some (a1, i1) \<Rightarrow>
             (case mix_loop (MT_N - 1) a1 i1 of
                None \<Rightarrow> None
              | Some (a2, i2) \<Rightarrow> Some (st1\<lparr>mt := a2[0 := 0x80000000]\<rparr>)))"

subsection \<open>Generation\<close>

definition mt_twist :: "u64 \<Rightarrow> u64 \<Rightarrow> u64" where
  "mt_twist u v =
     (let y = (u AND UPPER_MASK) OR (v AND LOWER_MASK)
      in drop_bit 1 y XOR (if y AND 1 = 0 then 0 else MATRIX_A))"

function refill_loop1 :: "u64 list \<Rightarrow> nat \<Rightarrow> u64 list \<times> nat" where
  "refill_loop1 a kk =
     (if kk < MT_N - MT_M
      then refill_loop1 (a[kk := a ! (kk + MT_M) XOR mt_twist (a ! kk) (a ! (kk + 1))]) (kk + 1)
      else (a, kk))"
  by pat_completeness auto

termination
  by (relation "measure (\<lambda>(a, kk). MT_N - MT_M - kk)") auto

function refill_loop2 :: "u64 list \<Rightarrow> nat \<Rightarrow> u64 list" where
  "refill_loop2 a kk =
     (if kk < MT_N - 1
      then refill_loop2 (a[kk := a ! (kk + MT_M - MT_N) XOR mt_twist (a ! kk) (a ! (kk + 1))]) (kk + 1)
      else a)"
  by pat_completeness auto

termination
  by (relation "measure (\<lambda>(a, kk). MT_N - 1 - kk)") auto

declare refill_loop1.simps [simp del] refill_loop2.simps [simp del]

definition mt_refill :: "u64 list \<Rightarrow> u64 list" where
  "mt_refill a0 =
     (let (a1, kk) = refill_loop1 a0 0;
          a = refill_loop2 a1 kk
      in a[MT_N - 1 := a ! (MT_M - 1) XOR mt_twist (a ! (MT_N - 1)) (a ! 0)])"

definition mt_temper :: "u64 \<Rightarrow> u64" where
  "mt_temper y =
     (let y = y XOR drop_bit 11 y;
          y = y XOR (push_bit 7 y AND 0x9d2c5680);
          y = y XOR (push_bit 15 y AND 0xefc60000)
      in y XOR drop_bit 18 y)"

definition genrand_int32 :: "mt_state \<Rightarrow> u64 \<times> mt_state" where
  "genrand_int32 st =
     (let st1 = (if mti st \<ge> MT_N
                 then (let st0 = (if mti st = MT_N + 1 then init_genrand 5489 st else st)
                       in \<lparr>mt = mt_refill (mt st0), mti = 0\<rparr>)
                 else st)
      in (mt_temper (mt st1 ! mti st1), st1\<lparr>mti := mti st1 + 1\<rparr>))"

definition genrand_int31 :: "mt_state \<Rightarrow> int \<times> mt_state" where
  "genrand_int31 st = (let (y, st1) = genrand_int32 st in (sint (drop_bit 1 y), st1))"

text \<open>
  A nonnegative \<^verbatim>\<open>double\<close> is an integer of at most 53 bits times a power of two; results are
  rounded to the nearest one, ties to even. The range of exponents is not
  limited: the operands here are far from overflow and underflow.
\<close>

type_synonym double = "int \<times> int"

definition double_val :: "double \<Rightarrow> real" where
  "double_val x = of_int (fst x) * 2 powi snd x"

definition div_round :: "int \<Rightarrow> int \<Rightarrow> int" where
  "div_round n d =
     (let q = n div d; r = n mod d in if 2 * r < d \<or> (2 * r = d \<and> even q) then q else q + 1)"

definition round_double :: "int \<Rightarrow> int \<Rightarrow> double" where
  "round_double n e =
     (let s = bitlen n - 53
      in if s \<le> 0 then (n, e) else (div_round n (2 ^ nat s), e + s))"

definition double_mul :: "double \<Rightarrow> double \<Rightarrow> double" where
  "double_mul x y = round_double (fst x * fst y) (snd x + snd y)"

definition double_div :: "double \<Rightarrow> double \<Rightarrow> double" where
  "double_div x y =
     (let k = 53 + bitlen (fst y);
          n = fst x * 2 ^ nat k;
          s = bitlen (n div fst y) - 53
      in (div_round n (fst y * 2 ^ nat s), snd x - snd y - k + s))"

definition real1_of :: "int \<Rightarrow> real" where
  "real1_of y = double_val (double_mul (round_double y 0) (double_div (1, 0) (4294967295, 0)))"

definition genrand_real1 :: "mt_state \<Rightarrow> real \<times> mt_state" where
  "genrand_real1 st = (let (y, st1) = genrand_int32 st in (real1_of (uint y), st1))"

definition genrand_real2 :: "mt_state \<Rightarrow> real \<times> mt_state" where
  "genrand_real2 st = (let (y, st1) = genrand_int32 st in (real (unat y) * (1 / 4294967296), st1))"

definition genrand_real3 :: "mt_state \<Rightarrow> real \<times> mt_state" where
  "genrand_real3 st = (let (y, st1) = genrand_int32 st in ((real (unat y) + 1 / 2) * (1 / 4294967296), st1))"

definition genrand_res53 :: "mt_state \<Rightarrow> real \<times> mt_state" where
  "genrand_res53 st =
     (let (x, st1) = genrand_int32 st; (y, st2) = genrand_int32 st1;
          a = drop_bit 5 x; b = drop_bit 6 y
      in ((real (unat a) * 67108864 + real (unat b)) * (1 / 9007199254740992), st2))"

subsection \<open>The reference sequence\<close>

text \<open>The recurrence of the generator on an infinite sequence of words.\<close>

function mt_seq :: "(nat \<Rightarrow> u64) \<Rightarrow> nat \<Rightarrow> u64" where
  "mt_seq x n =
     (if n < MT_N then x n
      else mt_seq x (n - MT_N + MT_M) XOR mt_twist (mt_seq x (n - MT_N)) (mt_seq x (n - MT_N + 1)))"
  by pat_completeness auto

termination
  by (relation "measure snd") (auto simp: MT_N_def MT_M_def)

declare mt_seq.simps [simp del]

fun genrand_list :: "nat \<Rightarrow> mt_state \<Rightarrow> u64 list \<times> mt_state" where
  "genrand_list 0 st = ([], st)"
| "genrand_list (Suc n) st =
     (let (y, st1) = genrand_int32 st; (ys, st2) = genrand_list n st1 in (y # ys, st2))"

definition word32 :: "u64 \<Rightarrow> bool" where
  "word32 y \<longleftrightarrow> y AND WORD_MASK = y"

definition mt_ok :: "mt_state \<Rightarrow> bool" where
  "mt_ok st \<longleftrightarrow> length (mt st) = MT_N \<and> (\<forall>y\<in>set (mt st). word32 y) \<and> mti st \<le> MT_N + 1"

text \<open>The state before the program starts: static storage is zero, \<^verbatim>\<open>mti\<close> is \<^verbatim>\<open>N+1\<close>.\<close>

definition mt_static :: mt_state where
  "mt_static = \<lparr>mt = replicate MT_N 0, mti = MT_N + 1\<rparr>"

subsection \<open>Words of 32 bits\<close>

lemma WORD_MASK_mask: "WORD_MASK = mask 32"
  by (simp add: WORD_MASK_def mask_eq_exp_minus_1)

lemma word32_take_bit: "word32 y \<longleftrightarrow> take_bit 32 y = y"
  by (simp add: word32_def WORD_MASK_mask take_bit_eq_mask)

lemma word32_bit: "word32 y \<longleftrightarrow> (\<forall>i. bit y i \<longrightarrow> i < 32)"
proof
  assume "word32 y"
  then show "\<forall>i. bit y i \<longrightarrow> i < 32" by (metis bit_take_bit_iff word32_take_bit)
qed (auto simp: word32_take_bit bit_eq_iff bit_take_bit_iff)

lemma word32_less: "word32 y \<longleftrightarrow> y < 2 ^ 32"
proof -
  have "word32 y \<longleftrightarrow> unat (take_bit 32 y) = unat y" unfolding word32_take_bit by (rule word_unat_eq_iff)
  also have "\<dots> \<longleftrightarrow> unat y < 2 ^ 32" by (simp add: unsigned_take_bit_eq take_bit_nat_eq_self_iff)
  also have "\<dots> \<longleftrightarrow> y < 2 ^ 32" by (simp add: word_less_nat_alt)
  finally show ?thesis .
qed

lemma word32_unat: "word32 y \<Longrightarrow> unat y < 2 ^ 32"
  by (simp add: word32_less word_less_nat_alt)

lemma word32_intros [intro, simp]:
  "word32 (y AND WORD_MASK)" "word32 0"
  "word32 a \<Longrightarrow> word32 b \<Longrightarrow> word32 (a XOR b)" "word32 a \<Longrightarrow> word32 b \<Longrightarrow> word32 (a OR b)"
  "word32 a \<Longrightarrow> word32 (a AND b)" "word32 b \<Longrightarrow> word32 (a AND b)" "word32 a \<Longrightarrow> word32 (drop_bit n a)"
  unfolding word32_bit WORD_MASK_mask by (auto simp: bit_simps)

subsection \<open>Initialisation keeps the state well formed\<close>

lemma init_genrand_loop_ok:
  "length a = MT_N \<Longrightarrow> 0 < i \<Longrightarrow> i \<le> MT_N \<Longrightarrow> \<forall>k<i. word32 (a ! k) \<Longrightarrow>
   mt_ok (init_genrand_loop a i) \<and> mti (init_genrand_loop a i) = MT_N \<and>
   (\<forall>k<i. mt (init_genrand_loop a i) ! k = a ! k)"
proof (induction a i rule: init_genrand_loop.induct)
  case (1 a i)
  show ?case
  proof (cases "i < MT_N")
    case True
    define v where "v = (1812433253 * (a ! (i - 1) XOR drop_bit 30 (a ! (i - 1))) + of_nat i) AND WORD_MASK"
    have "\<forall>k<i + 1. word32 (a[i := v] ! k)"
      using 1(2,5) True by (auto simp: nth_list_update less_Suc_eq v_def)
    then have IH: "mt_ok (init_genrand_loop (a[i := v]) (i + 1)) \<and>
        mti (init_genrand_loop (a[i := v]) (i + 1)) = MT_N \<and>
        (\<forall>k<i + 1. mt (init_genrand_loop (a[i := v]) (i + 1)) ! k = a[i := v] ! k)"
      using 1(1) [OF True] 1(2-4) True by (simp add: v_def)
    have "init_genrand_loop a i = init_genrand_loop (a[i := v]) (i + 1)"
      using True by (subst init_genrand_loop.simps) (simp add: v_def)
    with IH show ?thesis by simp
  next
    case False
    then have "init_genrand_loop a i = \<lparr>mt = a, mti = i\<rparr>" by (simp add: init_genrand_loop.simps)
    then show ?thesis using 1(2-5) False by (simp add: mt_ok_def all_set_conv_all_nth)
  qed
qed

lemma init_genrand_ok:
  assumes "length (mt st) = MT_N"
  shows "mt_ok (init_genrand s st)" "mti (init_genrand s st) = MT_N"
    "mt (init_genrand s st) ! 0 = s AND WORD_MASK"
proof -
  have "0 < MT_N" by (simp add: MT_N_def)
  then show "mt_ok (init_genrand s st)" "mti (init_genrand s st) = MT_N"
      "mt (init_genrand s st) ! 0 = s AND WORD_MASK"
    using assms init_genrand_loop_ok [of "(mt st)[0 := s AND WORD_MASK]" 1]
    by (simp_all add: init_genrand_def)
qed

abbreviation "words32 a \<equiv> length a = MT_N \<and> (\<forall>y\<in>set a. word32 y)"

lemma words32_update: "words32 a \<Longrightarrow> word32 v \<Longrightarrow> words32 (a[i := v])"
  using set_update_subset_insert [of a i v] by auto

lemma words32_nth: "words32 a \<Longrightarrow> i < MT_N \<Longrightarrow> word32 (a ! i)"
  by simp

lemma mix_next_ok:
  assumes "words32 a" "1 \<le> i" "i < MT_N"
  obtains a' i' where "mix_next a i v = Some (a', i')" "words32 a'" "1 \<le> i'" "i' < MT_N"
proof -
  have n: "MT_N - 1 < MT_N" "1 < MT_N" by (simp_all add: MT_N_def)
  define a1 where "a1 = a[i := v AND WORD_MASK]"
  have a1: "words32 a1" unfolding a1_def by (rule words32_update [OF assms(1)]) simp
  have "words32 (a1[0 := a1 ! (MT_N - 1)])" by (rule words32_update [OF a1 words32_nth [OF a1 n(1)]])
  then show thesis
    using that a1 assms n unfolding mix_next_def a1_def [symmetric] Let_def
    by (cases "i + 1 \<ge> MT_N") auto
qed

lemma mix_key_loop_ok:
  "words32 a \<Longrightarrow> 1 \<le> i \<Longrightarrow> i < MT_N \<Longrightarrow> j < key_length \<Longrightarrow> key_length \<le> length init_key \<Longrightarrow>
   \<exists>a' i'. mix_key_loop init_key key_length k a i j = Some (a', i') \<and> words32 a' \<and> 1 \<le> i' \<and> i' < MT_N"
proof (induction k arbitrary: a i j)
  case (Suc k)
  let ?v = "(a ! i XOR ((a ! (i - 1) XOR drop_bit 30 (a ! (i - 1))) * 1664525)) + init_key ! j + of_nat j"
  obtain a1 i1 where s: "mix_next a i ?v = Some (a1, i1)" "words32 a1" "1 \<le> i1" "i1 < MT_N"
    by (rule mix_next_ok [OF Suc.prems(1-3)])
  have "j < length init_key" "i < length a" using Suc.prems by auto
  then have "mix_key_loop init_key key_length (Suc k) a i j =
      mix_key_loop init_key key_length k a1 i1 (if j + 1 \<ge> key_length then 0 else j + 1)"
    using s(1) by simp
  then show ?case using Suc.IH [OF s(2-4), of "if j + 1 \<ge> key_length then 0 else j + 1"] Suc.prems(4,5) by auto
qed simp

lemma mix_loop_ok:
  "words32 a \<Longrightarrow> 1 \<le> i \<Longrightarrow> i < MT_N \<Longrightarrow>
   \<exists>a' i'. mix_loop k a i = Some (a', i') \<and> words32 a' \<and> 1 \<le> i' \<and> i' < MT_N"
proof (induction k arbitrary: a i)
  case (Suc k)
  let ?v = "(a ! i XOR ((a ! (i - 1) XOR drop_bit 30 (a ! (i - 1))) * 1566083941)) - of_nat i"
  obtain a1 i1 where s: "mix_next a i ?v = Some (a1, i1)" "words32 a1" "1 \<le> i1" "i1 < MT_N"
    by (rule mix_next_ok [OF Suc.prems])
  then show ?case using Suc.IH [OF s(2-4)] Suc.prems by simp
qed simp

subsection \<open>The refill computes the recurrence\<close>

lemma mt_seq_next:
  "mt_seq x (MT_N + k) = mt_seq x (k + MT_M) XOR mt_twist (mt_seq x k) (mt_seq x (k + 1))"
  by (subst mt_seq.simps) simp

lemma mt_seq_shift:
  "mt_seq (\<lambda>i. mt_seq x (q + i)) n = mt_seq x (q + n)"
proof (induction n rule: less_induct)
  case (less n)
  show ?case
  proof (cases "n < MT_N")
    case True
    then show ?thesis by (simp add: mt_seq.simps [of "\<lambda>i. mt_seq x (q + i)"])
  next
    case False
    define k where "k = n - MT_N"
    have n: "n = MT_N + k" using False by (simp add: k_def)
    have m: "k + MT_M < n" "k < n" "k + 1 < n" by (auto simp: n MT_N_def MT_M_def)
    have "q + n = MT_N + (q + k)" by (simp add: n)
    then have "mt_seq x (q + n) =
        mt_seq x (q + (k + MT_M)) XOR mt_twist (mt_seq x (q + k)) (mt_seq x (q + (k + 1)))"
      by (simp only: mt_seq_next add.assoc)
    also have "\<dots> = mt_seq (\<lambda>i. mt_seq x (q + i)) n"
      unfolding less.IH [OF m(1), symmetric] less.IH [OF m(2), symmetric] less.IH [OF m(3), symmetric]
      unfolding n by (rule mt_seq_next [symmetric])
    finally show ?thesis by (rule sym)
  qed
qed

text \<open>During a refill the words before \<open>kk\<close> are new and the others old.\<close>

definition refilled :: "(nat \<Rightarrow> u64) \<Rightarrow> u64 list \<Rightarrow> nat \<Rightarrow> bool" where
  "refilled x a kk \<longleftrightarrow>
     length a = MT_N \<and> (\<forall>i<MT_N. a ! i = mt_seq x (if i < kk then MT_N + i else i))"

lemma refilled_step:
  assumes "refilled x a kk" "kk < MT_N" "v = mt_seq x (kk + MT_M)" "w = mt_seq x (kk + 1)"
  shows "refilled x (a[kk := v XOR mt_twist (a ! kk) w]) (kk + 1)"
  using assms mt_seq_next [of x kk]
  by (auto simp: refilled_def nth_list_update less_Suc_eq simp del: One_nat_def)

lemma refill_loop1_ok:
  "refilled x a kk \<Longrightarrow> kk \<le> MT_N - MT_M \<Longrightarrow>
   \<exists>a'. refill_loop1 a kk = (a', MT_N - MT_M) \<and> refilled x a' (MT_N - MT_M)"
proof (induction a kk rule: refill_loop1.induct)
  case (1 a kk)
  show ?case
  proof (cases "kk < MT_N - MT_M")
    case True
    then have "kk + MT_M < MT_N" "kk + 1 < MT_N" by (auto simp: MT_N_def MT_M_def)
    then have "refilled x (a[kk := a ! (kk + MT_M) XOR mt_twist (a ! kk) (a ! (kk + 1))]) (kk + 1)"
      using 1(2) by (intro refilled_step) (auto simp: refilled_def MT_M_def)
    then show ?thesis
      using 1(1) [OF True] True by (simp add: refill_loop1.simps [of a kk] del: One_nat_def)
  next
    case False
    then have "refill_loop1 a kk = (a, kk)" by (subst refill_loop1.simps) simp
    then show ?thesis using 1(2,3) False by simp
  qed
qed

lemma refill_loop2_ok:
  "refilled x a kk \<Longrightarrow> MT_N - MT_M \<le> kk \<Longrightarrow> kk \<le> MT_N - 1 \<Longrightarrow> refilled x (refill_loop2 a kk) (MT_N - 1)"
proof (induction a kk rule: refill_loop2.induct)
  case (1 a kk)
  show ?case
  proof (cases "kk < MT_N - 1")
    case True
    then have "kk + MT_M - MT_N < kk" "kk + 1 < MT_N" "MT_N + (kk + MT_M - MT_N) = kk + MT_M"
      using 1(3) by (auto simp: MT_N_def MT_M_def)
    then have "refilled x (a[kk := a ! (kk + MT_M - MT_N) XOR mt_twist (a ! kk) (a ! (kk + 1))]) (kk + 1)"
      using 1(2) by (intro refilled_step) (auto simp: refilled_def)
    then show ?thesis
      using 1(1) [OF True] 1(3) True by (simp add: refill_loop2.simps [of a kk] del: One_nat_def)
  next
    case False
    then have "refill_loop2 a kk = a" by (subst refill_loop2.simps) simp
    moreover have "kk = MT_N - 1" using False 1(4) by simp
    ultimately show ?thesis using 1(2) by simp
  qed
qed

lemma mt_refill_seq:
  assumes "length a = MT_N"
  shows "length (mt_refill a) = MT_N"
    "i < MT_N \<Longrightarrow> mt_refill a ! i = mt_seq ((!) a) (MT_N + i)"
proof -
  let ?x = "(!) a"
  have "refilled ?x a 0" using assms by (simp add: refilled_def mt_seq.simps)
  then obtain a1 where a1: "refill_loop1 a 0 = (a1, MT_N - MT_M)" "refilled ?x a1 (MT_N - MT_M)"
    using refill_loop1_ok [of ?x a 0] by auto
  define b where "b = refill_loop2 a1 (MT_N - MT_M)"
  have b: "refilled ?x b (MT_N - 1)"
    unfolding b_def by (rule refill_loop2_ok [OF a1(2)]) (simp_all add: MT_N_def MT_M_def)
  have "refilled ?x (b[MT_N - 1 := b ! (MT_M - 1) XOR mt_twist (b ! (MT_N - 1)) (b ! 0)]) (MT_N - 1 + 1)"
    using b by (intro refilled_step) (auto simp: refilled_def MT_N_def MT_M_def)
  moreover have "MT_N - 1 + 1 = MT_N" by (simp add: MT_N_def)
  ultimately have "refilled ?x (mt_refill a) MT_N"
    unfolding mt_refill_def a1(1) Let_def prod.case b_def by simp
  then show "length (mt_refill a) = MT_N" "i < MT_N \<Longrightarrow> mt_refill a ! i = mt_seq ?x (MT_N + i)"
    by (simp_all add: refilled_def)
qed

subsection \<open>Outputs\<close>

lemma word32_masks [simp]: "word32 MATRIX_A" "word32 UPPER_MASK" "word32 LOWER_MASK"
  by (simp_all add: word32_def WORD_MASK_def MATRIX_A_def UPPER_MASK_def LOWER_MASK_def)

lemma word32_twist [simp]: "word32 (mt_twist u v)"
  by (auto simp: mt_twist_def Let_def)

definition xor_shr :: "nat \<Rightarrow> u64 \<Rightarrow> u64" where
  "xor_shr k y = y XOR drop_bit k y"

definition xor_shl :: "nat \<Rightarrow> u64 \<Rightarrow> u64 \<Rightarrow> u64" where
  "xor_shl k b y = y XOR (push_bit k y AND b)"

lemma mt_temper_steps:
  "mt_temper y = xor_shr 18 (xor_shl 15 0xefc60000 (xor_shl 7 0x9d2c5680 (xor_shr 11 y)))"
  unfolding mt_temper_def xor_shr_def xor_shl_def Let_def by (rule refl)

lemma word32_steps: "word32 y \<Longrightarrow> word32 (xor_shr k y)" "word32 y \<Longrightarrow> word32 b \<Longrightarrow> word32 (xor_shl k b y)"
  unfolding xor_shr_def xor_shl_def by auto

lemma word32_temper [simp]: "word32 y \<Longrightarrow> word32 (mt_temper y)"
  unfolding mt_temper_steps by (intro word32_steps) (simp_all add: word32_def WORD_MASK_def)

lemma word32_mt_seq:
  assumes "\<And>i. i < MT_N \<Longrightarrow> word32 (x i)"
  shows "word32 (mt_seq x n)"
proof (induction n rule: less_induct)
  case (less n)
  then show ?case
    using assms by (subst mt_seq.simps) (auto simp: MT_N_def MT_M_def)
qed

text \<open>\<open>mt_at x n st\<close>: \<open>st\<close> is the state after \<open>n\<close> outputs from the initial words \<open>x\<close>.\<close>

definition mt_at :: "(nat \<Rightarrow> u64) \<Rightarrow> nat \<Rightarrow> mt_state \<Rightarrow> bool" where
  "mt_at x n st \<longleftrightarrow>
     length (mt st) = MT_N \<and> mti st \<le> MT_N \<and>
     (\<exists>q. (\<forall>i<MT_N. mt st ! i = mt_seq x (q + i)) \<and> q + mti st = MT_N + n)"

lemma mt_seq_cong:
  assumes "\<And>i. i < MT_N \<Longrightarrow> x i = y i"
  shows "mt_seq x n = mt_seq y n"
proof (induction n rule: less_induct)
  case (less n)
  show ?case
  proof (cases "n < MT_N")
    case True
    then show ?thesis using assms by (simp add: mt_seq.simps)
  next
    case False
    then have "n - MT_N + MT_M < n" "n - MT_N < n" "n - MT_N + 1 < n" by (auto simp: MT_N_def MT_M_def)
    from this [THEN less.IH] show ?thesis using False by (subst (1 2) mt_seq.simps) simp
  qed
qed

lemma genrand_int32_at:
  assumes "mt_at x n st"
  shows "\<exists>st'. genrand_int32 st = (mt_temper (mt_seq x (MT_N + n)), st') \<and> mt_at x (n + 1) st'"
proof -
  from assms obtain q where q: "\<And>i. i < MT_N \<Longrightarrow> mt st ! i = mt_seq x (q + i)" "q + mti st = MT_N + n"
    and len: "length (mt st) = MT_N" and le: "mti st \<le> MT_N"
    by (auto simp: mt_at_def)
  show ?thesis
  proof (cases "mti st < MT_N")
    case True
    then have "genrand_int32 st = (mt_temper (mt st ! mti st), st\<lparr>mti := mti st + 1\<rparr>)"
      by (simp add: genrand_int32_def)
    then show ?thesis using True q len by (auto simp: mt_at_def intro!: exI [of _ q])
  next
    case False
    with le have eq: "mti st = MT_N" by simp
    then have g: "genrand_int32 st = (mt_temper (mt_refill (mt st) ! 0), \<lparr>mt = mt_refill (mt st), mti = 1\<rparr>)"
      by (simp add: genrand_int32_def)
    have r: "mt_refill (mt st) ! i = mt_seq x (n + MT_N + i)" if "i < MT_N" for i
    proof -
      have "mt_refill (mt st) ! i = mt_seq ((!) (mt st)) (MT_N + i)"
        by (rule mt_refill_seq(2) [OF len that])
      also have "\<dots> = mt_seq (\<lambda>i. mt_seq x (q + i)) (MT_N + i)"
        by (rule mt_seq_cong) (rule q(1))
      also have "\<dots> = mt_seq x (q + (MT_N + i))" by (rule mt_seq_shift)
      finally show ?thesis using q(2) eq by (simp add: ac_simps)
    qed
    have n: "0 < MT_N" by (simp add: MT_N_def)
    show ?thesis
      unfolding g using r n mt_refill_seq(1) [OF len]
      by (auto simp: mt_at_def add.commute intro!: exI [of _ "n + MT_N"])
  qed
qed

lemma genrand_list_at:
  "mt_at x n st \<Longrightarrow> fst (genrand_list k st) = map (\<lambda>i. mt_temper (mt_seq x (MT_N + n + i))) [0..<k]"
proof (induction k arbitrary: n st)
  case (Suc k)
  obtain st' where st': "genrand_int32 st = (mt_temper (mt_seq x (MT_N + n)), st')" "mt_at x (n + 1) st'"
    using genrand_int32_at [OF Suc.prems] by blast
  have "map (\<lambda>i. mt_temper (mt_seq x (MT_N + n + i))) [0..<Suc k] =
      mt_temper (mt_seq x (MT_N + n)) # map (\<lambda>i. mt_temper (mt_seq x (MT_N + (n + 1) + i))) [0..<k]"
    by (simp add: upt_conv_Cons map_Suc_upt [symmetric] del: upt_Suc)
  then show ?case using st'(1) Suc.IH [OF st'(2)] by (simp add: case_prod_unfold Let_def)
qed simp

lemma mt_at_start:
  assumes "length (mt st) = MT_N" "mti st = MT_N"
  shows "mt_at ((!) (mt st)) 0 st"
  using assms by (auto simp: mt_at_def mt_seq.simps intro!: exI [of _ 0])

lemma mt_refill_words32:
  assumes "words32 a"
  shows "words32 (mt_refill a)"
proof -
  have "word32 (mt_refill a ! i)" if "i < MT_N" for i
    using mt_refill_seq(2) [OF _ that, of a] word32_mt_seq [of "(!) a"] assms by simp
  then show ?thesis using mt_refill_seq(1) [of a] assms by (simp add: all_set_conv_all_nth)
qed

lemma genrand_int32_ok:
  assumes "mt_ok st"
  shows "word32 (fst (genrand_int32 st))" "mt_ok (snd (genrand_int32 st))"
proof -
  define st0 where "st0 = (if mti st = MT_N + 1 then init_genrand 5489 st else st)"
  define st1 where "st1 = (if mti st \<ge> MT_N then \<lparr>mt = mt_refill (mt st0), mti = 0\<rparr> else st)"
  have "words32 (mt st0)"
    using assms init_genrand_ok(1) [of st 5489] by (auto simp: st0_def mt_ok_def)
  from mt_refill_words32 [OF this] have st1: "words32 (mt st1)" "mti st1 < MT_N"
    using assms by (auto simp: st1_def mt_ok_def MT_N_def)
  have "genrand_int32 st = (mt_temper (mt st1 ! mti st1), st1\<lparr>mti := mti st1 + 1\<rparr>)"
    by (simp add: genrand_int32_def st1_def st0_def Let_def)
  then show "word32 (fst (genrand_int32 st))" "mt_ok (snd (genrand_int32 st))"
    using st1 words32_nth [OF st1(1), of "mti st1"] by (auto simp: mt_ok_def)
qed

subsection \<open>Tempering is a bijection\<close>

lemma drop_bit_self: "0 < k \<Longrightarrow> d = drop_bit k d \<Longrightarrow> (d :: u64) = 0"
proof (rule bit_eqI)
  fix n assume k: "0 < k" "d = drop_bit k d"
  have "\<not> bit d i" for i
  proof (induction "64 - i" arbitrary: i rule: less_induct)
    case less
    show ?case
    proof (cases "i < 64")
      case True
      then have "\<not> bit d (k + i)" using k(1) by (intro less) simp
      then show ?thesis using k(2) by (metis bit_drop_bit_eq comp_apply)
    next
      case False
      then show ?thesis using bit_imp_le_length [of d i] by auto
    qed
  qed
  then show "bit d n = bit 0 n" by simp
qed

lemma push_bit_self: "0 < k \<Longrightarrow> d = push_bit k d AND b \<Longrightarrow> (d :: u64) = 0"
proof (rule bit_eqI)
  fix n assume k: "0 < k" "d = push_bit k d AND b"
  have "\<not> bit d i" for i
  proof (induction i rule: less_induct)
    case (less i)
    have "bit d i \<Longrightarrow> k \<le> i \<and> bit d (i - k)"
      using arg_cong [OF k(2), of "\<lambda>w. bit w i"] by (auto simp: bit_and_iff bit_push_bit_iff)
    then show ?case using less [of "i - k"] k(1) by (cases "k \<le> i") auto
  qed
  then show "bit d n = bit 0 n" by simp
qed

lemma xor_eq_swap:
  assumes "y XOR a = z XOR (c :: u64)"
  shows "y XOR z = a XOR c"
proof (rule bit_eqI)
  fix n
  show "bit (y XOR z) n = bit (a XOR c) n"
    using arg_cong [OF assms, of "\<lambda>w. bit w n"] by (auto simp: bit_xor_iff)
qed

lemma xor_zero: "y XOR z = (0 :: u64) \<Longrightarrow> y = z"
  using xor_eq_swap [of y z 0 0] by simp

lemma xor_shr_inj: "0 < k \<Longrightarrow> xor_shr k y = xor_shr k z \<Longrightarrow> y = z"
proof -
  assume k: "0 < k" and eq: "xor_shr k y = xor_shr k z"
  have "y XOR z = drop_bit k y XOR drop_bit k z" by (rule xor_eq_swap [OF eq [unfolded xor_shr_def]])
  also have "\<dots> = drop_bit k (y XOR z)" by (simp add: drop_bit_xor)
  finally have "y XOR z = 0" by (rule drop_bit_self [OF k])
  then show "y = z" by (rule xor_zero)
qed

lemma xor_shl_inj: "0 < k \<Longrightarrow> xor_shl k b y = xor_shl k b z \<Longrightarrow> y = z"
proof -
  assume k: "0 < k" and eq: "xor_shl k b y = xor_shl k b z"
  have "y XOR z = (push_bit k y AND b) XOR (push_bit k z AND b)"
    by (rule xor_eq_swap [OF eq [unfolded xor_shl_def]])
  also have "\<dots> = push_bit k (y XOR z) AND b" by (rule bit_eqI) (auto simp: bit_simps)
  finally have "y XOR z = 0" by (rule push_bit_self [OF k])
  then show "y = z" by (rule xor_zero)
qed

lemma mt_temper_inj: "mt_temper y = mt_temper z \<Longrightarrow> y = z"
  unfolding mt_temper_steps
  by (drule xor_shr_inj [rotated], simp, drule xor_shl_inj [rotated], simp,
      drule xor_shl_inj [rotated], simp, drule xor_shr_inj [rotated], simp, assumption)

subsection \<open>Properties\<close>

text \<open>
  C8 (\<^verbatim>\<open>genrand_int32\<close> computes the recurrence): after seeding with any seed, the outputs
  are the tempered words of the sequence given by the recurrence over 624 words. The
  in-place refill, with its three cases of wrapped indices, and the position \<^verbatim>\<open>mti\<close> do
  not show. A program that never seeds gets the outputs of the seed 5489.
\<close>

theorem genrand_recurrence:
  assumes "length (mt st) = MT_N"
  shows "fst (genrand_list k (init_genrand s st)) =
      map (\<lambda>i. mt_temper (mt_seq ((!) (mt (init_genrand s st))) (MT_N + i))) [0..<k] \<and>
    fst (genrand_list k mt_static) = fst (genrand_list k (init_genrand 5489 mt_static))"
proof
  have "mt_at ((!) (mt (init_genrand s st))) 0 (init_genrand s st)"
    using init_genrand_ok [OF assms, of s] by (intro mt_at_start) (simp_all add: mt_ok_def)
  from genrand_list_at [OF this, of k]
  show "fst (genrand_list k (init_genrand s st)) =
      map (\<lambda>i. mt_temper (mt_seq ((!) (mt (init_genrand s st))) (MT_N + i))) [0..<k]" by simp
  have "mti (init_genrand 5489 mt_static) = MT_N"
    by (rule init_genrand_ok) (simp add: mt_static_def)
  then have "genrand_int32 mt_static = genrand_int32 (init_genrand 5489 mt_static)"
    by (simp add: genrand_int32_def mt_static_def)
  then show "fst (genrand_list k mt_static) = fst (genrand_list k (init_genrand 5489 mt_static))"
    by (cases k) simp_all
qed

theorem genrand_recurrence_witness:
  "fst (genrand_list 2 (init_genrand 1 mt_static)) =
     [mt_temper (mt_seq ((!) (mt (init_genrand 1 mt_static))) 624),
      mt_temper (mt_seq ((!) (mt (init_genrand 1 mt_static))) 625)]"
  using genrand_recurrence [of mt_static 2 1] by (simp add: mt_static_def MT_N_def upt_rec)

text \<open>
  \<^verbatim>\<open>init_by_array\<close>: with a key of positive length inside its array, no access is out of
  bounds, although the two indices wrap independently; the result is a valid state
  whose first word is \<^verbatim>\<open>0x80000000\<close>, so the state is never all zero.
\<close>

theorem init_by_array_safe:
  assumes "0 < key_length" "key_length \<le> length init_key" "length (mt st) = MT_N"
  shows "\<exists>st'. init_by_array init_key key_length st = Some st' \<and> mt_ok st' \<and> mti st' = MT_N \<and>
    mt st' ! 0 = 0x80000000"
proof -
  let ?st1 = "init_genrand 19650218 st"
  have st1: "words32 (mt ?st1)" "mti ?st1 = MT_N" using init_genrand_ok [OF assms(3)] by (auto simp: mt_ok_def)
  have n: "1 < MT_N" by (simp add: MT_N_def)
  obtain a1 i1 where a1: "mix_key_loop init_key key_length (max MT_N key_length) (mt ?st1) 1 0 = Some (a1, i1)"
      "words32 a1" "1 \<le> i1" "i1 < MT_N"
    using mix_key_loop_ok [OF st1(1) _ n assms(1,2)] by blast
  obtain a2 i2 where a2: "mix_loop (MT_N - 1) a1 i1 = Some (a2, i2)" "words32 a2"
    using mix_loop_ok [OF a1(2-4)] by blast
  have "word32 0x80000000" by (simp add: word32_def WORD_MASK_def)
  from words32_update [OF a2(2) this, of 0] show ?thesis
    using a1(1) a2 st1(2) n by (simp add: init_by_array_def mt_ok_def)
qed

theorem init_by_array_safe_witness:
  "\<exists>st'. init_by_array [0x123, 0x234, 0x345, 0x456] 4 mt_static = Some st' \<and> mt_ok st' \<and>
    mti st' = MT_N \<and> mt st' ! 0 = 0x80000000"
  by (rule init_by_array_safe) (simp_all add: mt_static_def)

lemma genrand_next:
  assumes "mt_ok st"
  obtains y st' where "genrand_int32 st = (y, st')" "unat y < 2 ^ 32" "word32 y" "mt_ok st'"
  using genrand_int32_ok [OF assms] word32_unat by (cases "genrand_int32 st") auto

lemma sint_small: "unat (x :: u64) < 2 ^ 63 \<Longrightarrow> sint x = int (unat x)"
proof -
  assume "unat x < 2 ^ 63"
  then have "uint x < 2 ^ 63" unfolding unat_eq_nat_uint by (simp only: zless_nat_eq_int_zless nat_less_iff uint_ge_0 of_nat_power of_nat_numeral)
  moreover have "- (2 ^ 63) \<le> uint x" by (rule order_trans [OF _ uint_ge_0]) simp
  ultimately have "signed_take_bit 63 (uint x) = uint x" by (intro signed_take_bit_int_eq_self)
  then show "sint x = int (unat x)" by (simp add: sint_uint)
qed

lemma unat_shr: "unat (drop_bit k (x :: u64)) = unat x div 2 ^ k"
  unfolding unat_drop_bit_eq by (rule drop_bit_eq_div)

lemma unat_shr_less: "unat (x :: u64) < 2 ^ (k + n) \<Longrightarrow> unat (drop_bit k x) < 2 ^ n"
  unfolding unat_shr by (rule less_mult_imp_div_less) (simp add: power_add mult.commute)

lemma real_less_numeral: "n < 2 ^ k \<Longrightarrow> real n < 2 ^ k"
  by (metis of_nat_less_iff of_nat_numeral of_nat_power)

lemma res53_bound:
  assumes "unat (x :: u64) < 2 ^ 32" "unat (y :: u64) < 2 ^ 32"
  shows "real (unat (drop_bit 5 x)) * 67108864 + real (unat (drop_bit 6 y)) < 9007199254740992"
proof -
  define a b where "a = unat (drop_bit 5 x)" and "b = unat (drop_bit 6 y)"
  have "a < 2 ^ 27" "b < 2 ^ 26"
    using assms unat_shr_less [of x 5 27] unat_shr_less [of y 6 26] by (simp_all add: a_def b_def)
  then have "a * 67108864 + b < 2 ^ 53" by simp
  from real_less_numeral [OF this] show ?thesis unfolding a_def [symmetric] b_def [symmetric] by simp
qed

text \<open>
  Ranges: on a valid state every generator returns a value in its documented
  interval and leaves a valid state: \<^verbatim>\<open>genrand_int32\<close> in [0, 0xffffffff], \<^verbatim>\<open>genrand_int31\<close> in
  [0, 0x7fffffff], \<^verbatim>\<open>genrand_real2\<close> and \<^verbatim>\<open>genrand_res53\<close> in [0, 1), \<^verbatim>\<open>genrand_real3\<close> in (0, 1).
\<close>

theorem genrand_ranges:
  assumes "mt_ok st"
  shows "(case genrand_int32 st of (y, st') \<Rightarrow> unat y \<le> 0xffffffff \<and> mt_ok st') \<and>
    (case genrand_int31 st of (y, st') \<Rightarrow> 0 \<le> y \<and> y \<le> 0x7fffffff \<and> mt_ok st') \<and>
    (case genrand_real2 st of (r, st') \<Rightarrow> 0 \<le> r \<and> r < 1 \<and> mt_ok st') \<and>
    (case genrand_real3 st of (r, st') \<Rightarrow> 0 < r \<and> r < 1 \<and> mt_ok st') \<and>
    (case genrand_res53 st of (r, st') \<Rightarrow> 0 \<le> r \<and> r < 1 \<and> mt_ok st')"
proof -
  obtain y st1 where y: "genrand_int32 st = (y, st1)" "unat y < 2 ^ 32" "word32 y" "mt_ok st1"
    by (rule genrand_next [OF assms])
  obtain z st2 where z: "genrand_int32 st1 = (z, st2)" "unat z < 2 ^ 32" "mt_ok st2"
    by (rule genrand_next [OF y(4)]) (rule that)
  define n where "n = unat y"
  define h where "h = unat (drop_bit 1 y)"
  have h: "h < 2 ^ 31" unfolding h_def using y(2) by (intro unat_shr_less) simp
  have s: "sint (drop_bit 1 y) = int h" unfolding h_def using h by (intro sint_small) (simp add: h_def)
  have n: "n < 2 ^ 32" using y(2) by (simp add: n_def)
  define r where "r = real (unat (drop_bit 5 y)) * 67108864 + real (unat (drop_bit 6 z))"
  have r: "0 \<le> r" "r < 9007199254740992" unfolding r_def by (intro add_nonneg_nonneg mult_nonneg_nonneg of_nat_0_le_iff) (simp, rule res53_bound [OF y(2) z(2)])
  show ?thesis
    unfolding genrand_int31_def genrand_real2_def genrand_real3_def genrand_res53_def y(1) z(1)
      Let_def prod.case s n_def [symmetric] r_def [symmetric]
    using y(4) z(3) h n r real_less_numeral [OF n] by simp
qed

theorem genrand_ranges_witness:
  "mt_ok mt_static \<and> (case genrand_int31 mt_static of (y, st') \<Rightarrow> 0 \<le> y \<and> y \<le> 0x7fffffff \<and> mt_ok st')"
proof -
  have ok: "mt_ok mt_static" by (simp add: mt_ok_def mt_static_def)
  from genrand_ranges [OF ok] show ?thesis by (intro conjI ok) (elim conjE)
qed

subsection \<open>Rounding\<close>

lemma div_round_error:
  assumes "0 < d"
  shows "\<bar>real_of_int (div_round n d) * of_int d - of_int n\<bar> \<le> of_int d / 2"
proof -
  define q r where qr: "q = n div d" "r = n mod d"
  have n: "real_of_int n = of_int q * of_int d + of_int r" unfolding qr by (metis of_int_add of_int_mult div_mult_mod_eq)
  have r: "0 \<le> r" "r < d" using assms by (simp_all add: qr)
  show ?thesis
  proof (cases "2 * r < d \<or> (2 * r = d \<and> even q)")
    case True
    then have "div_round n d = q" by (simp add: div_round_def qr Let_def)
    then show ?thesis using n r True by auto
  next
    case False
    then have "div_round n d = q + 1" "d \<le> 2 * r" by (auto simp: div_round_def qr Let_def)
    then show ?thesis using n r by (auto simp: algebra_simps)
  qed
qed

lemma round_double_error:
  "0 \<le> n \<Longrightarrow> \<bar>double_val (round_double n e) - of_int n * 2 powi e\<bar> \<le> of_int n * 2 powi e / 2 ^ 53"
proof (cases "bitlen n \<le> 53")
  case True
  assume "0 \<le> n"
  with True show ?thesis by (simp add: round_double_def double_val_def)
next
  case False
  assume n: "0 \<le> n"
  define s where "s = nat (bitlen n - 53)"
  have b: "bitlen n = int s + 53" "0 < n" using False n by (auto simp: s_def order_le_less)
  have v: "double_val (round_double n e) = of_int (div_round n (2 ^ s)) * 2 ^ s * 2 powi e"
    using False b by (simp add: round_double_def double_val_def s_def [symmetric] power_int_add mult_ac)
  have "2 ^ nat (bitlen n - 1) \<le> n" by (rule bitlen_bounds [THEN conjunct1, OF b(2)])
  then have "2 ^ (s + 52) \<le> n" by (simp add: b(1) nat_add_distrib add.commute)
  then have "real_of_int (2 ^ (s + 52)) \<le> of_int n" by (simp only: of_int_le_iff)
  then have big: "2 ^ s / 2 \<le> real_of_int n / 2 ^ 53" by (simp add: power_add)
  have "\<bar>of_int (div_round n (2 ^ s)) * 2 ^ s - real_of_int n\<bar> \<le> 2 ^ s / 2"
    using div_round_error [of "2 ^ s" n] by simp
  then have "\<bar>of_int (div_round n (2 ^ s)) * 2 ^ s - real_of_int n\<bar> * 2 powi e \<le> real_of_int n / 2 ^ 53 * 2 powi e"
    using big by (intro mult_right_mono) auto
  moreover have "\<bar>of_int (div_round n (2 ^ s)) * 2 ^ s * 2 powi e - real_of_int n * 2 powi e\<bar> =
    \<bar>of_int (div_round n (2 ^ s)) * 2 ^ s - real_of_int n\<bar> * 2 powi e"
    by (simp add: abs_mult flip: left_diff_distrib)
  ultimately show ?thesis unfolding v by simp
qed

lemma real1_constant: "double_div (1, 0) (4294967295, 0) = (4503599628419072, - 84)"
  by code_simp

lemma real1_one: "real1_of 4294967295 = 1"
proof -
  have "double_mul (round_double 4294967295 0) (4503599628419072, - 84) = (9007199254740992, - 53)"
    by code_simp
  then show ?thesis by (simp add: real1_of_def real1_constant double_val_def power_int_minus)
qed

lemma real1_error:
  assumes "0 \<le> y" "y < 2 ^ 32"
  shows "\<bar>real1_of y - of_int y * (4294967297 / 2 ^ 64)\<bar> \<le> of_int y * (4294967297 / 2 ^ 64) / 2 ^ 53"
proof -
  have "bitlen y \<le> 32" using bitlen_le_iff_power [of y 32] assms by simp
  then have y: "round_double y 0 = (y, 0)" by (simp add: round_double_def)
  have p: "real_of_int (y * 4503599628419072) * 2 powi (- 84) = of_int y * (4294967297 / 2 ^ 64)"
    by (simp add: power_int_minus)
  show ?thesis
    using round_double_error [of "y * 4503599628419072" "- 84"] assms(1) unfolding p
    by (simp only: real1_of_def real1_constant double_mul_def y fst_conv snd_conv) simp
qed

lemma real1_bounds:
  assumes "0 \<le> y" "y < 2 ^ 32"
  shows "real1_of y \<le> of_int y * (4294967297 * (1 + 1 / 2 ^ 53) / 2 ^ 64)"
    "of_int y * (4294967297 * (1 - 1 / 2 ^ 53) / 2 ^ 64) \<le> real1_of y"
    "0 \<le> real_of_int y" "real_of_int y \<le> 4294967295"
proof -
  show "0 \<le> real_of_int y" "real_of_int y \<le> 4294967295" using assms by simp_all
  define p where "p = real_of_int y * (4294967297 / 2 ^ 64)"
  have e: "\<bar>real1_of y - p\<bar> \<le> p / 2 ^ 53" unfolding p_def by (rule real1_error [OF assms])
  have "real_of_int y * (4294967297 * (1 + 1 / 2 ^ 53) / 2 ^ 64) = p + p / 2 ^ 53"
    "real_of_int y * (4294967297 * (1 - 1 / 2 ^ 53) / 2 ^ 64) = p - p / 2 ^ 53"
    by (simp_all add: p_def)
  then show "real1_of y \<le> of_int y * (4294967297 * (1 + 1 / 2 ^ 53) / 2 ^ 64)"
    "of_int y * (4294967297 * (1 - 1 / 2 ^ 53) / 2 ^ 64) \<le> real1_of y"
    using e by (simp_all only: abs_le_iff) linarith+
qed

lemma real1_of_correct:
  assumes "0 \<le> y" "y < 2 ^ 32"
  shows "0 \<le> real1_of y" "real1_of y \<le> 1" "real1_of y = 1 \<longleftrightarrow> y = 4294967295" "real1_of y = 0 \<longleftrightarrow> y = 0"
    "\<bar>real1_of y - of_int y / 4294967295\<bar> \<le> 1 / 2 ^ 52"
proof -
  note b = real1_bounds [OF assms]
  have less: "real1_of y < 1" if "y \<noteq> 4294967295"
  proof -
    have "real_of_int y \<le> 4294967294" using that assms by simp
    then show ?thesis using b by simp
  qed
  show "real1_of y = 1 \<longleftrightarrow> y = 4294967295" "real1_of y \<le> 1" using less real1_one by fastforce+
  have "0 < real1_of y" if "y \<noteq> 0"
  proof -
    have "1 \<le> real_of_int y" using that assms by simp
    then show ?thesis using b by simp
  qed
  moreover have "real1_of 0 = 0" using real1_error [of 0] by simp
  ultimately show "0 \<le> real1_of y" "real1_of y = 0 \<longleftrightarrow> y = 0" by fastforce+
  have "real1_of y - of_int y / 4294967295 \<le> 1 / 2 ^ 52" "of_int y / 4294967295 - real1_of y \<le> 1 / 2 ^ 52"
    using b by simp_all
  then show "\<bar>real1_of y - of_int y / 4294967295\<bar> \<le> 1 / 2 ^ 52" by (simp only: abs_le_iff) simp
qed

lemma real1_of_mono:
  assumes "0 \<le> y" "y < z" "z < 2 ^ 32"
  shows "real1_of y < real1_of z"
proof -
  have "real_of_int y + 1 \<le> of_int z" using assms(2) by linarith
  then show ?thesis
    using real1_bounds [of y] real1_bounds [of z] assms by simp
qed
text \<open>
  C27 (\<^verbatim>\<open>genrand_real1\<close> in double precision): with the rounding of both the constant and the product,
  the result is in [0, 1], differs from the quotient by 2^32 - 1 by at most 2^-52, is 0 and 1 exactly for the least and the
  greatest word, and a greater word gives a greater result.
\<close>

theorem genrand_real1_rounded:
  assumes "mt_ok st" "mt_ok st'"
  shows "(case (genrand_int32 st, genrand_real1 st) of ((y, st1), (r, st2)) \<Rightarrow>
      st1 = st2 \<and> mt_ok st2 \<and> 0 \<le> r \<and> r \<le> 1 \<and> \<bar>r - real (unat y) / (2 ^ 32 - 1)\<bar> \<le> 1 / 2 ^ 52 \<and>
      (r = 0 \<longleftrightarrow> y = 0) \<and> (r = 1 \<longleftrightarrow> y = 2 ^ 32 - 1)) \<and>
    (fst (genrand_int32 st) < fst (genrand_int32 st') \<longrightarrow> fst (genrand_real1 st) < fst (genrand_real1 st'))"
proof -
  obtain y st1 where y: "genrand_int32 st = (y, st1)" "unat y < 2 ^ 32" "word32 y" "mt_ok st1"
    by (rule genrand_next [OF assms(1)])
  obtain z st2 where z: "genrand_int32 st' = (z, st2)" "unat z < 2 ^ 32" "word32 z" "mt_ok st2"
    by (rule genrand_next [OF assms(2)])
  have "int (unat y) < int (2 ^ 32)" "int (unat z) < int (2 ^ 32)" using y(2) z(2) by (simp_all only: of_nat_less_iff)
  then have b: "0 \<le> uint y" "uint y < 2 ^ 32" "uint z < 2 ^ 32" by simp_all
  note c = real1_of_correct [OF b(1,2)]
  have "y = 0 \<longleftrightarrow> uint y = 0" "y = 2 ^ 32 - 1 \<longleftrightarrow> uint y = 4294967295"
    by (simp_all add: word_uint_eq_iff)
  moreover have "real (unat y) = of_int (uint y)" by (metis of_int_of_nat_eq uint_nat)
  moreover have "real1_of (uint y) < real1_of (uint z)" if "y < z"
    using that b by (intro real1_of_mono) (simp_all add: word_less_def)
  ultimately show ?thesis using y z c by (simp add: genrand_real1_def)
qed

theorem genrand_real1_rounded_witness:
  "mt_ok mt_static \<and> 0 \<le> fst (genrand_real1 mt_static) \<and> fst (genrand_real1 mt_static) \<le> 1"
proof -
  have ok: "mt_ok mt_static" by (simp add: mt_ok_def mt_static_def)
  from genrand_real1_rounded [OF ok ok] ok show ?thesis
    by (cases "genrand_int32 mt_static", cases "genrand_real1 mt_static") simp
qed

text \<open>
  Tempering: the output transformation is a bijection on 32-bit words, so an
  output determines the state word it came from and no output value is favoured.
\<close>

theorem mt_temper_bijective: "bij_betw mt_temper {y. unat y < 2 ^ 32} {y. unat y < 2 ^ 32}"
proof -
  let ?S = "{y :: u64. unat y < 2 ^ 32}"
  have S: "y \<in> ?S \<longleftrightarrow> word32 y" for y by (simp add: word32_less word_less_nat_alt)
  have inj: "inj_on mt_temper ?S" by (auto intro: inj_onI mt_temper_inj)
  moreover have "mt_temper ` ?S \<subseteq> ?S" using S word32_temper by blast
  ultimately have "mt_temper ` ?S = ?S" by (intro endo_inj_surj) simp_all
  with inj show ?thesis by (simp add: bij_betw_def)
qed

end
