(* ===== verification/Produce_Consume.thy ===== *)
theory Produce_Consume
  imports Mt19937 "HOL-Library.Multiset" "HOL-Library.Monad_Syntax"
begin

text \<open>
  The producer and the consumer of \<^verbatim>\<open>src/concurrency/concurrency1/produce_consume.c\<close>:
  the bounded stack, the random numbers, and the two threads as a step relation in
  which every lock operation and every access to the shared stack is a step.
  Accesses out of bounds and division by zero are \<^term>\<open>None\<close>. The instructions
  \<^verbatim>\<open>cpuid\<close> and \<^verbatim>\<open>rdrand\<close> are parameters (\<open>cpu\<close>). The mutex is the field \<open>stop\<close>: a thread
  takes its lock step only when the mutex is free. \<open>printf\<close> output is a list of
  messages. The fields \<open>produced\<close> and \<open>consumed\<close> are ghost state.
\<close>

subsection \<open>The stack\<close>

definition BUFFSIZE :: int where
  "BUFFSIZE = 32"

record buffer_entry =
  num :: int
  work_time :: int

datatype thread = Producer | Consumer

record buffer_arr =
  entries :: "buffer_entry list"
  bsize :: int
  stop :: "thread option"

datatype message = Stack_full | Empty_stack | Produced int int | Consumed int int

definition push :: "buffer_arr \<Rightarrow> buffer_entry \<Rightarrow> (buffer_arr \<times> message list) option" where
  "push b e =
     (if bsize b < BUFFSIZE
      then (if 0 \<le> bsize b \<and> nat (bsize b) < length (entries b)
            then Some (b\<lparr>entries := (entries b)[nat (bsize b) := e], bsize := bsize b + 1\<rparr>, [])
            else None)
      else Some (b, [Stack_full]))"

definition pop :: "buffer_arr \<Rightarrow> (buffer_entry \<times> buffer_arr \<times> message list) option" where
  "pop b =
     (let b1 = (if bsize b > 0 then b\<lparr>bsize := bsize b - 1\<rparr> else b);
          ms = (if bsize b > 0 then [] else [Empty_stack])
      in if 0 \<le> bsize b1 \<and> nat (bsize b1) < length (entries b1)
         then Some (entries b1 ! nat (bsize b1), b1, ms)
         else None)"

subsection \<open>Random numbers\<close>

record cpu =
  cpuid_ecx :: u32
  rdrand :: "nat \<Rightarrow> u32 \<times> u8"

record rng =
  rdrand_calls :: nat
  gen :: mt_state

definition asm_rand :: "cpu \<Rightarrow> rng \<Rightarrow> int \<times> int \<times> rng" where
  "asm_rand c r =
     (let (v, carry) = rdrand c (rdrand_calls r)
      in (uint carry, sint v, r\<lparr>rdrand_calls := rdrand_calls r + 1\<rparr>))"

definition c_abs :: "int \<Rightarrow> int" where
  "c_abs x = (if x = - (2 ^ 31) then x else \<bar>x\<bar>)"

text \<open>\<open>smod\<close> is the remainder of C: it has the sign of the dividend.\<close>

definition clamp_random :: "int \<Rightarrow> int \<Rightarrow> int \<Rightarrow> int option" where
  "clamp_random tmp mn mx =
     (if mx - mn = 0 then None
      else (let t = c_abs tmp smod (mx - mn) in Some (if t < mn then mn else t)))"

definition random_num :: "cpu \<Rightarrow> rng \<Rightarrow> int \<Rightarrow> int \<Rightarrow> (int \<times> rng) option" where
  "random_num c r mn mx =
     (let (tmp, r1) =
            (if cpuid_ecx c AND push_bit 30 1 \<noteq> 0
             then (let (check, v, r1) = asm_rand c r in (v, r1))
             else (let (y, g) = genrand_int32 (gen r) in (sint (ucast y :: u32), r\<lparr>gen := g\<rparr>)))
      in map_option (\<lambda>t. (t, r1)) (clamp_random tmp mn mx))"

subsection \<open>The threads\<close>

text \<open>The part of the producer's loop before the lock: waiting time and entry.\<close>

definition produce_entry :: "cpu \<Rightarrow> rng \<Rightarrow> (int \<times> buffer_entry \<times> rng) option" where
  "produce_entry c r =
     do { (wait, r1) \<leftarrow> random_num c r 3 7;
          (w, r2) \<leftarrow> random_num c r1 2 9;
          (n, r3) \<leftarrow> random_num c r2 0 10;
          Some (wait, \<lparr>num = n, work_time = w\<rparr>, r3) }"

datatype produce_pc = P_start | P_lock int buffer_entry | P_test int buffer_entry | P_unlock

datatype consume_pc = C_lock | C_test | C_work buffer_entry | C_unlock

record system =
  buf :: buffer_arr
  rands :: rng
  ppc :: produce_pc
  cpc :: consume_pc
  out :: "message list"
  produced :: "buffer_entry list"
  consumed :: "buffer_entry list"

inductive produce :: "cpu \<Rightarrow> system \<Rightarrow> system \<Rightarrow> bool" for c where
  p_random: "ppc s = P_start \<Longrightarrow> produce_entry c (rands s) = Some (wait, e, r) \<Longrightarrow>
    produce c s (s\<lparr>rands := r, ppc := P_lock wait e\<rparr>)"
| p_lock: "ppc s = P_lock wait e \<Longrightarrow> stop (buf s) = None \<Longrightarrow>
    produce c s (s\<lparr>buf := (buf s)\<lparr>stop := Some Producer\<rparr>, ppc := P_test wait e\<rparr>)"
| p_push: "ppc s = P_test wait e \<Longrightarrow> bsize (buf s) < BUFFSIZE \<Longrightarrow> push (buf s) e = Some (b, ms) \<Longrightarrow>
    produce c s (s\<lparr>buf := b, ppc := P_unlock, out := out s @ ms @ [Produced (num e) wait],
                   produced := produced s @ [e]\<rparr>)"
| p_full: "ppc s = P_test wait e \<Longrightarrow> \<not> bsize (buf s) < BUFFSIZE \<Longrightarrow>
    produce c s (s\<lparr>ppc := P_unlock\<rparr>)"
| p_unlock: "ppc s = P_unlock \<Longrightarrow>
    produce c s (s\<lparr>buf := (buf s)\<lparr>stop := None\<rparr>, ppc := P_start\<rparr>)"

inductive consume :: "system \<Rightarrow> system \<Rightarrow> bool" where
  c_lock: "cpc s = C_lock \<Longrightarrow> stop (buf s) = None \<Longrightarrow>
    consume s (s\<lparr>buf := (buf s)\<lparr>stop := Some Consumer\<rparr>, cpc := C_test\<rparr>)"
| c_pop: "cpc s = C_test \<Longrightarrow> bsize (buf s) > 0 \<Longrightarrow> pop (buf s) = Some (e, b, ms) \<Longrightarrow>
    consume s (s\<lparr>buf := b, cpc := C_work e, out := out s @ ms\<rparr>)"
| c_empty: "cpc s = C_test \<Longrightarrow> \<not> bsize (buf s) > 0 \<Longrightarrow> consume s (s\<lparr>cpc := C_unlock\<rparr>)"
| c_work: "cpc s = C_work e \<Longrightarrow>
    consume s (s\<lparr>cpc := C_unlock, out := out s @ [Consumed (work_time e) (num e)],
                 consumed := consumed s @ [e]\<rparr>)"
| c_unlock: "cpc s = C_unlock \<Longrightarrow>
    consume s (s\<lparr>buf := (buf s)\<lparr>stop := None\<rparr>, cpc := C_lock\<rparr>)"

definition pc_step :: "cpu \<Rightarrow> system \<Rightarrow> system \<Rightarrow> bool" where
  "pc_step c s t \<longleftrightarrow> produce c s t \<or> consume s t"

text \<open>\<^verbatim>\<open>main\<close>: an empty stack over uninitialised entries, a free mutex, both threads started.\<close>

definition pc_main :: "system \<Rightarrow> bool" where
  "pc_main s \<longleftrightarrow>
     length (entries (buf s)) = 32 \<and> bsize (buf s) = 0 \<and> stop (buf s) = None \<and>
     gen (rands s) = mt_static \<and> ppc s = P_start \<and> cpc s = C_lock \<and>
     out s = [] \<and> produced s = [] \<and> consumed s = []"

subsection \<open>The random numbers\<close>

lemma clamp_random_range:
  assumes "0 < mx - mn"
  obtains t where "clamp_random tmp mn mx = Some t" "mn \<le> t" "t = mn \<or> t < mx - mn"
proof -
  have "c_abs tmp smod (mx - mn) < mx - mn"
    using smod_int_range [of "mx - mn" "c_abs tmp"] assms by auto
  then show thesis using assms that by (auto simp: clamp_random_def Let_def)
qed

lemma clamp_random_Some:
  assumes "0 < mx - mn" "clamp_random tmp mn mx = Some t"
  shows "mn \<le> t \<and> (t = mn \<or> t < mx - mn)"
  by (rule clamp_random_range [OF assms(1), of tmp]) (use assms(2) in auto)

lemma clamp_random_self: "0 \<le> v \<Longrightarrow> mn \<le> v \<Longrightarrow> v < mx - mn \<Longrightarrow> clamp_random v mn mx = Some v"
  by (simp add: clamp_random_def c_abs_def smod_int_alt_def sgn_if Let_def)

lemma random_num_range:
  assumes "0 < mx - mn" "mt_ok (gen r)"
  obtains t r' where "random_num c r mn mx = Some (t, r')" "mn \<le> t" "t = mn \<or> t < mx - mn" "mt_ok (gen r')"
proof -
  obtain tmp r' where tmp: "random_num c r mn mx = map_option (\<lambda>t. (t, r')) (clamp_random tmp mn mx)"
      "mt_ok (gen r')"
  proof (cases "cpuid_ecx c AND push_bit 30 1 \<noteq> 0")
    case True
    obtain v carry where v: "rdrand c (rdrand_calls r) = (v, carry)" by (cases "rdrand c (rdrand_calls r)")
    show thesis
      by (rule that [of "r\<lparr>rdrand_calls := rdrand_calls r + 1\<rparr>" "sint v"])
        (use True assms(2) v in \<open>simp_all add: random_num_def asm_rand_def\<close>)
  next
    case False
    obtain y g where y: "genrand_int32 (gen r) = (y, g)" by (cases "genrand_int32 (gen r)")
    show thesis
      by (rule that [of "r\<lparr>gen := g\<rparr>" "sint (ucast y :: u32)"])
        (use False y genrand_int32_ok(2) [OF assms(2)] in \<open>simp_all add: random_num_def\<close>)
  qed
  obtain t where "clamp_random tmp mn mx = Some t" "mn \<le> t" "t = mn \<or> t < mx - mn"
    by (rule clamp_random_range [OF assms(1)])
  then show thesis using tmp by (intro that) simp_all
qed

definition good_entry :: "buffer_entry \<Rightarrow> bool" where
  "good_entry e \<longleftrightarrow> 0 \<le> num e \<and> num e \<le> 9 \<and> 2 \<le> work_time e \<and> work_time e \<le> 6"

lemma produce_entry_ok:
  assumes "mt_ok (gen r)"
  obtains e r' where "produce_entry c r = Some (3, e, r')" "good_entry e" "mt_ok (gen r')"
proof -
  obtain w r1 where 1: "random_num c r 3 7 = Some (w, r1)" "3 \<le> w" "w = 3 \<or> w < 7 - 3" "mt_ok (gen r1)"
    by (rule random_num_range [of 7 3 r c]) (use assms in auto)
  obtain t r2 where 2: "random_num c r1 2 9 = Some (t, r2)" "2 \<le> t" "t = 2 \<or> t < 9 - 2" "mt_ok (gen r2)"
    by (rule random_num_range [of 9 2 r1 c]) (use 1 in auto)
  obtain n r3 where 3: "random_num c r2 0 10 = Some (n, r3)" "0 \<le> n" "n = 0 \<or> n < 10 - 0" "mt_ok (gen r3)"
    by (rule random_num_range [of 10 0 r2 c]) (use 2 in auto)
  show thesis
    by (rule that [of "\<lparr>num = n, work_time = t\<rparr>" r3])
      (use 1 2 3 in \<open>auto simp: produce_entry_def good_entry_def\<close>)
qed

subsection \<open>The invariant of the threads\<close>

definition stacked :: "buffer_arr \<Rightarrow> buffer_entry list" where
  "stacked b = take (nat (bsize b)) (entries b)"

definition in_work :: "consume_pc \<Rightarrow> buffer_entry list" where
  "in_work p = (case p of C_work e \<Rightarrow> [e] | _ \<Rightarrow> [])"

definition holder :: "system \<Rightarrow> thread option" where
  "holder s =
     (case ppc s of P_test _ _ \<Rightarrow> Some Producer | P_unlock \<Rightarrow> Some Producer
      | _ \<Rightarrow> (case cpc s of C_lock \<Rightarrow> None | _ \<Rightarrow> Some Consumer))"

definition buffer_ok :: "buffer_arr \<Rightarrow> bool" where
  "buffer_ok b \<longleftrightarrow> length (entries b) = 32 \<and> 0 \<le> bsize b \<and> bsize b \<le> BUFFSIZE"

definition pc_inv :: "system \<Rightarrow> bool" where
  "pc_inv s \<longleftrightarrow>
     buffer_ok (buf s) \<and> mt_ok (gen (rands s)) \<and> stop (buf s) = holder s \<and>
     ((\<exists>w e. ppc s = P_test w e) \<or> ppc s = P_unlock \<longrightarrow> cpc s = C_lock) \<and>
     (\<forall>w e. ppc s = P_lock w e \<or> ppc s = P_test w e \<longrightarrow> w = 3 \<and> good_entry e) \<and>
     list_all good_entry (produced s) \<and>
     mset (produced s) = mset (stacked (buf s)) + mset (in_work (cpc s)) + mset (consumed s) \<and>
     Stack_full \<notin> set (out s) \<and> Empty_stack \<notin> set (out s)"

lemma push_ok:
  assumes "buffer_ok b" "bsize b < BUFFSIZE"
  obtains b' where "push b e = Some (b', [])" "buffer_ok b'" "stacked b' = stacked b @ [e]"
    "stop b' = stop b"
proof (rule that)
  let ?b = "b\<lparr>entries := (entries b)[nat (bsize b) := e], bsize := bsize b + 1\<rparr>"
  have n: "nat (bsize b) < length (entries b)" using assms by (simp add: buffer_ok_def BUFFSIZE_def)
  show "push b e = Some (?b, [])" using assms n by (simp add: push_def buffer_ok_def)
  show "buffer_ok ?b" using assms by (simp add: buffer_ok_def)
  have "nat (bsize b + 1) = Suc (nat (bsize b))" using assms by (auto simp: buffer_ok_def)
  then show "stacked ?b = stacked b @ [e]" using n by (simp add: stacked_def take_Suc_conv_app_nth)
  show "stop ?b = stop b" by simp
qed

lemma pop_ok:
  assumes "buffer_ok b" "bsize b > 0"
  obtains e b' where "pop b = Some (e, b', [])" "buffer_ok b'" "stacked b = stacked b' @ [e]"
    "stop b' = stop b" "e = last (stacked b)"
proof (rule that)
  let ?b = "b\<lparr>bsize := bsize b - 1\<rparr>" and ?e = "entries b ! nat (bsize b - 1)"
  have n: "nat (bsize b - 1) < length (entries b)" using assms by (auto simp: buffer_ok_def BUFFSIZE_def)
  show "pop b = Some (?e, ?b, [])" using assms n by (simp add: pop_def)
  show "buffer_ok ?b" using assms by (simp add: buffer_ok_def)
  have "nat (bsize b) = Suc (nat (bsize b - 1))" using assms by simp
  then show "stacked b = stacked ?b @ [?e]" using n by (simp add: stacked_def take_Suc_conv_app_nth)
  then show "?e = last (stacked b)" by simp
  show "stop ?b = stop b" by simp
qed

lemma stacked_stop [simp]: "stacked (b\<lparr>stop := x\<rparr>) = stacked b" "buffer_ok (b\<lparr>stop := x\<rparr>) = buffer_ok b"
  by (simp_all add: stacked_def buffer_ok_def)

lemma produce_inv:
  assumes "produce c s t" "pc_inv s"
  shows "pc_inv t"
  using assms
proof (cases rule: produce.cases)
  case (p_random wait e r)
  obtain e' r' where "produce_entry c (rands s) = Some (3, e', r')" "good_entry e'" "mt_ok (gen r')"
    using assms(2) by (auto simp: pc_inv_def intro: produce_entry_ok)
  then show ?thesis using p_random assms(2) by (simp add: pc_inv_def holder_def)
next
  case (p_lock wait e)
  then show ?thesis using assms(2) by (auto simp: pc_inv_def holder_def split: consume_pc.splits)
next
  case (p_push wait e b ms)
  have "buffer_ok (buf s)" using assms(2) by (simp add: pc_inv_def)
  then obtain b' where "push (buf s) e = Some (b', [])" "buffer_ok b'" "stacked b' = stacked (buf s) @ [e]"
      "stop b' = stop (buf s)"
    by (rule push_ok [OF _ p_push(3)])
  then show ?thesis using p_push assms(2) by (simp add: pc_inv_def holder_def)
qed (auto simp: pc_inv_def holder_def)

lemma consume_inv:
  assumes "consume s t" "pc_inv s"
  shows "pc_inv t"
  using assms
proof (cases rule: consume.cases)
  case c_lock
  then show ?thesis
    using assms(2) by (auto simp: pc_inv_def holder_def in_work_def split: produce_pc.splits)
next
  case (c_pop e b ms)
  have "buffer_ok (buf s)" using assms(2) by (simp add: pc_inv_def)
  then obtain e' b' where "pop (buf s) = Some (e', b', [])" "buffer_ok b'" "stacked (buf s) = stacked b' @ [e']"
      "stop b' = stop (buf s)"
    by (rule pop_ok [OF _ c_pop(3)])
  then show ?thesis
    using c_pop assms(2) by (auto simp: pc_inv_def holder_def in_work_def split: produce_pc.splits)
next
  case c_empty
  then show ?thesis
    using assms(2) by (auto simp: pc_inv_def holder_def in_work_def split: produce_pc.splits)
next
  case (c_work e)
  then show ?thesis
    using assms(2) by (auto simp: pc_inv_def holder_def in_work_def split: produce_pc.splits)
next
  case c_unlock
  then show ?thesis
    using assms(2) by (auto simp: pc_inv_def holder_def in_work_def split: produce_pc.splits)
qed

lemma pc_main_inv: "pc_main s \<Longrightarrow> pc_inv s"
  by (auto simp: pc_main_def pc_inv_def buffer_ok_def stacked_def in_work_def holder_def BUFFSIZE_def
      mt_ok_def mt_static_def)

interpretation pc: invariant_system pc_main "pc_step c" pc_inv for c
  by unfold_locales (auto simp: pc_step_def intro: pc_main_inv produce_inv consume_inv)

subsection \<open>Progress\<close>

text \<open>Whatever the state, the consumer can be driven to consume one more entry.\<close>

lemma run_consume: "consume s t \<Longrightarrow> run (pc_step c) s t"
  by (rule run_one) (simp add: pc_step_def)

lemma run_produce: "produce c s t \<Longrightarrow> run (pc_step c) s t"
  by (rule run_one) (simp add: pc_step_def)

text \<open>A thread in its critical section can leave it.\<close>

definition outside :: "system \<Rightarrow> bool" where
  "outside s \<longleftrightarrow> cpc s = C_lock \<and> holder s = None"

lemma producer_leaves:
  assumes "pc_inv s" "holder s = Some Producer"
  shows "\<exists>t. run (pc_step c) s t \<and> outside t \<and> consumed t = consumed s"
proof -
  have cpc: "cpc s = C_lock" and ok: "buffer_ok (buf s)"
    using assms by (auto simp: pc_inv_def holder_def split: produce_pc.splits consume_pc.splits)
  have unlock: ?thesis if "run (pc_step c) s u" "ppc u = P_unlock" "cpc u = C_lock" "consumed u = consumed s" for u
    using run_trans [OF that(1) run_produce [OF p_unlock [OF that(2)]]] that(3,4)
    by (intro exI [of _ "u\<lparr>buf := (buf u)\<lparr>stop := None\<rparr>, ppc := P_start\<rparr>"]) (simp add: outside_def holder_def)
  consider w e where "ppc s = P_test w e" | "ppc s = P_unlock"
    using assms(2) by (auto simp: holder_def split: produce_pc.splits consume_pc.splits)
  then show ?thesis
  proof cases
    case (1 w e)
    show ?thesis
    proof (cases "bsize (buf s) < BUFFSIZE")
      case True
      obtain b where "push (buf s) e = Some (b, [])" by (rule push_ok [OF ok True])
      from run_produce [OF p_push [OF 1 True this]] show ?thesis by (rule unlock) (use cpc in simp_all)
    next
      case False
      from run_produce [OF p_full [OF 1 False]] show ?thesis by (rule unlock) (use cpc in simp_all)
    qed
  next
    case 2
    show ?thesis by (rule unlock [OF run.run_refl 2 cpc refl])
  qed
qed

abbreviation consumes_more :: "cpu \<Rightarrow> system \<Rightarrow> buffer_entry list \<Rightarrow> bool" where
  "consumes_more c s es \<equiv> \<exists>t e. run (pc_step c) s t \<and> consumed t = es @ [e]"

lemma consumes_later: "run (pc_step c) s t \<Longrightarrow> consumes_more c t es \<Longrightarrow> consumes_more c s es"
  by (blast intro: run_trans)

lemma worker_finishes: "cpc s = C_work e \<Longrightarrow> consumes_more c s (consumed s)"
  by (drule c_work, drule run_consume) force

lemma tester_finishes:
  assumes "pc_inv s" "cpc s = C_test" "bsize (buf s) > 0"
  shows "consumes_more c s (consumed s)"
proof -
  have "buffer_ok (buf s)" using assms(1) by (simp add: pc_inv_def)
  then obtain e b where e: "pop (buf s) = Some (e, b, [])" by (rule pop_ok [OF _ assms(3)])
  let ?t = "s\<lparr>buf := b, cpc := C_work e, out := out s @ []\<rparr>"
  have "consumes_more c ?t (consumed s)" using worker_finishes [of ?t e] by simp
  then show ?thesis by (rule consumes_later [OF run_consume [OF c_pop [OF assms(2,3) e]]])
qed

lemma outside_nonempty:
  assumes "pc_inv s" "outside s" "bsize (buf s) > 0"
  shows "consumes_more c s (consumed s)"
proof -
  have free: "cpc s = C_lock" "stop (buf s) = None" using assms by (auto simp: outside_def pc_inv_def)
  note step = c_lock [OF free]
  let ?t = "s\<lparr>buf := (buf s)\<lparr>stop := Some Consumer\<rparr>, cpc := C_test\<rparr>"
  have "pc_inv ?t" by (rule consume_inv [OF step assms(1)])
  then have "consumes_more c ?t (consumed s)" using tester_finishes [of ?t] assms(3) by simp
  then show ?thesis by (rule consumes_later [OF run_consume [OF step]])
qed

text \<open>With an empty stack the producer can fill it.\<close>

lemma ready_producer:
  assumes "pc_inv s" "outside s" "ppc s = P_lock w e" "bsize (buf s) = 0"
  shows "consumes_more c s (consumed s)"
proof -
  have free: "stop (buf s) = None" and cpc: "cpc s = C_lock" using assms by (auto simp: outside_def pc_inv_def)
  define s1 where "s1 = s\<lparr>buf := (buf s)\<lparr>stop := Some Producer\<rparr>, ppc := P_test w e\<rparr>"
  have 1: "produce c s s1" unfolding s1_def by (rule p_lock [OF assms(3) free])
  have inv1: "pc_inv s1" by (rule produce_inv [OF 1 assms(1)])
  have t1: "ppc s1 = P_test w e" "bsize (buf s1) < BUFFSIZE" "cpc s1 = C_lock" "consumed s1 = consumed s"
    using assms(4) cpc by (simp_all add: s1_def BUFFSIZE_def)
  have "buffer_ok (buf s1)" using inv1 by (simp add: pc_inv_def)
  then obtain b where b: "push (buf s1) e = Some (b, [])" "stacked b = stacked (buf s1) @ [e]"
    by (rule push_ok [OF _ t1(2)])
  define s2 where "s2 = s1\<lparr>buf := b, ppc := P_unlock, out := out s1 @ [] @ [Produced (num e) w],
      produced := produced s1 @ [e]\<rparr>"
  have 2: "produce c s1 s2" unfolding s2_def by (rule p_push [OF t1(1,2) b(1)])
  define s3 where "s3 = s2\<lparr>buf := (buf s2)\<lparr>stop := None\<rparr>, ppc := P_start\<rparr>"
  have 3: "produce c s2 s3" unfolding s3_def by (rule p_unlock) (simp add: s2_def)
  have inv3: "pc_inv s3" by (rule produce_inv [OF 3 produce_inv [OF 2 inv1]])
  have "stacked (buf s3) \<noteq> []" using b(2) by (simp add: s3_def s2_def)
  then have "bsize (buf s3) > 0" by (auto simp: stacked_def)
  moreover have "outside s3" using t1(3) by (simp add: s3_def s2_def outside_def holder_def)
  moreover have "consumed s3 = consumed s" using t1(4) by (simp add: s3_def s2_def)
  ultimately have "consumes_more c s3 (consumed s)" using outside_nonempty [OF inv3] by simp
  then show ?thesis
    by (rule consumes_later [OF run_trans [OF run_produce [OF 1] run_trans [OF run_produce [OF 2] run_produce [OF 3]]]])
qed

lemma outside_consumes:
  assumes "pc_inv s" "outside s"
  shows "consumes_more c s (consumed s)"
proof (cases "bsize (buf s) > 0")
  case False
  then have empty: "bsize (buf s) = 0" using assms(1) by (simp add: pc_inv_def buffer_ok_def)
  show ?thesis
  proof (cases "ppc s")
    case P_start
    obtain e r where r: "produce_entry c (rands s) = Some (3, e, r)"
      using assms(1) by (auto simp: pc_inv_def intro: produce_entry_ok)
    note step = p_random [OF P_start r]
    let ?t = "s\<lparr>rands := r, ppc := P_lock 3 e\<rparr>"
    have "pc_inv ?t" by (rule produce_inv [OF step assms(1)])
    moreover have "outside ?t" using assms(2) by (simp add: outside_def holder_def)
    ultimately have "consumes_more c ?t (consumed s)" using ready_producer [of ?t 3 e] empty by simp
    then show ?thesis by (rule consumes_later [OF run_produce [OF step]])
  next
    case (P_lock w e)
    show ?thesis by (rule ready_producer [OF assms P_lock empty])
  qed (use assms(2) in \<open>simp_all add: outside_def holder_def\<close>)
qed (rule outside_nonempty [OF assms])

lemma unlocker_consumes:
  assumes "pc_inv s" "cpc s = C_unlock"
  shows "consumes_more c s (consumed s)"
proof -
  note step = c_unlock [OF assms(2)]
  let ?t = "s\<lparr>buf := (buf s)\<lparr>stop := None\<rparr>, cpc := C_lock\<rparr>"
  have inv: "pc_inv ?t" by (rule consume_inv [OF step assms(1)])
  then have "outside ?t" by (simp add: outside_def pc_inv_def)
  from outside_consumes [OF inv this, of c] show ?thesis
    using consumes_later [OF run_consume [OF step, of c]] by simp
qed

lemma always_consumes:
  assumes "pc_inv s"
  shows "consumes_more c s (consumed s)"
proof (cases "cpc s")
  case C_lock
  show ?thesis
  proof (cases "holder s")
    case None
    then show ?thesis using C_lock by (intro outside_consumes [OF assms]) (simp add: outside_def)
  next
    case (Some h)
    then have "holder s = Some Producer"
      using C_lock by (cases h) (auto simp: holder_def split: produce_pc.splits)
    from producer_leaves [OF assms this, of c] obtain t where t: "run (pc_step c) s t" "outside t" "consumed t = consumed s"
      by blast
    have "consumes_more c t (consumed s)" using outside_consumes [OF pc.run_inv [OF t(1) assms] t(2), of c] t(3) by simp
    then show ?thesis by (rule consumes_later [OF t(1)])
  qed
next
  case C_test
  show ?thesis
  proof (cases "bsize (buf s) > 0")
    case True
    then show ?thesis by (rule tester_finishes [OF assms C_test])
  next
    case False
    note step = c_empty [OF C_test False]
    have "consumes_more c (s\<lparr>cpc := C_unlock\<rparr>) (consumed s)"
      using unlocker_consumes [OF consume_inv [OF step assms], of c] by simp
    then show ?thesis by (rule consumes_later [OF run_consume [OF step]])
  qed
next
  case (C_work e)
  then show ?thesis by (rule worker_finishes)
next
  case C_unlock
  then show ?thesis by (rule unlocker_consumes [OF assms])
qed

subsection \<open>Properties\<close>

text \<open>
  C7 (safety of the threads): in every reachable state the stack holds between 0 and 32
  entries inside its array, at most one thread is in its critical section and it is the
  one that owns the mutex, every entry produced is on the stack, in work or consumed,
  exactly once, with a work time of 2 to 6 and a number of 0 to 9, and neither of the
  messages \<^verbatim>\<open>error, stack full\<close> and \<^verbatim>\<open>cannot pop. empty stack\<close> is ever printed.
\<close>

theorem pc_safe:
  assumes "reach pc_main (pc_step c) s"
  shows "0 \<le> bsize (buf s) \<and> bsize (buf s) \<le> BUFFSIZE \<and> length (entries (buf s)) = 32 \<and>
    (((\<exists>w e. ppc s = P_test w e) \<or> ppc s = P_unlock) \<longleftrightarrow> stop (buf s) = Some Producer) \<and>
    (cpc s \<noteq> C_lock \<longleftrightarrow> stop (buf s) = Some Consumer) \<and>
    mset (produced s) = mset (stacked (buf s)) + mset (in_work (cpc s)) + mset (consumed s) \<and>
    list_all good_entry (produced s) \<and>
    Stack_full \<notin> set (out s) \<and> Empty_stack \<notin> set (out s)"
proof -
  have "pc_inv s" by (rule pc.reach_inv [OF assms])
  then show ?thesis
    by (auto simp: pc_inv_def buffer_ok_def holder_def split: produce_pc.splits consume_pc.splits)
qed

definition demo_cpu :: cpu where
  "demo_cpu = \<lparr>cpuid_ecx = 0x40000000, rdrand = (\<lambda>n. (of_nat n, 1))\<rparr>"

definition demo_system :: system where
  "demo_system =
     \<lparr>buf = \<lparr>entries = replicate 32 \<lparr>num = 0, work_time = 0\<rparr>, bsize = 0, stop = None\<rparr>,
      rands = \<lparr>rdrand_calls = 0, gen = mt_static\<rparr>, ppc = P_start, cpc = C_lock, out = [],
      produced = [], consumed = []\<rparr>"

lemma demo_main: "pc_main demo_system"
  by (simp add: pc_main_def demo_system_def)

lemma demo_system_reach:
  "reach pc_main (pc_step demo_cpu) (demo_system\<lparr>buf := (buf demo_system)\<lparr>stop := Some Consumer\<rparr>, cpc := C_test\<rparr>)"
  by (rule reach.later [OF reach.start [of pc_main, OF demo_main]])
    (unfold pc_step_def, rule disjI2, rule c_lock, simp_all add: demo_system_def)

theorem pc_safe_witness:
  "stop (buf (demo_system\<lparr>buf := (buf demo_system)\<lparr>stop := Some Consumer\<rparr>, cpc := C_test\<rparr>)) = Some Consumer \<and>
   mset (produced (demo_system\<lparr>buf := (buf demo_system)\<lparr>stop := Some Consumer\<rparr>, cpc := C_test\<rparr>)) = {#}"
  using pc_safe [OF demo_system_reach] by (simp add: demo_system_def)

text \<open>
  C25 (progress): no reachable state is a deadlock, and from every reachable state the
  threads can go on so that one more entry is consumed.
\<close>

theorem pc_progress:
  assumes "reach pc_main (pc_step c) s"
  shows "(\<exists>t. pc_step c s t) \<and> (\<exists>t e. run (pc_step c) s t \<and> consumed t = consumed s @ [e])"
proof -
  have more: "\<exists>t e. run (pc_step c) s t \<and> consumed t = consumed s @ [e]"
    by (rule always_consumes [OF pc.reach_inv [OF assms]])
  then obtain t e where "run (pc_step c) s t" "consumed t = consumed s @ [e]" by blast
  then have "\<exists>t. pc_step c s t" by (cases rule: run.cases) auto
  with more show ?thesis by blast
qed

theorem pc_progress_witness:
  "\<exists>t e. run (pc_step demo_cpu) demo_system t \<and> consumed t = consumed demo_system @ [e]"
  using pc_progress [of demo_cpu demo_system] reach.start [of pc_main, OF demo_main] by blast

text \<open>
  C26 (\<^verbatim>\<open>random_num\<close>): whatever the processor delivers, including the value whose absolute
  value overflows, the three calls of the producer return, and over all values of the
  source the results are exactly: the wait is always 3, the work time is in 2..6 and the
  number in 0..9.
\<close>

theorem random_num_values:
  "{t. \<exists>tmp\<in>{- (2 ^ 31) ..< 2 ^ 31}. clamp_random tmp 3 7 = Some t} = {3} \<and>
   {t. \<exists>tmp\<in>{- (2 ^ 31) ..< 2 ^ 31}. clamp_random tmp 2 9 = Some t} = {2..6} \<and>
   {t. \<exists>tmp\<in>{- (2 ^ 31) ..< 2 ^ 31}. clamp_random tmp 0 10 = Some t} = {0..9} \<and>
   (\<forall>c r. mt_ok (gen r) \<longrightarrow> (\<exists>w e r'. produce_entry c r = Some (w, e, r') \<and> w = 3 \<and> good_entry e))"
proof (intro conjI set_eqI iffI allI impI)
  fix t
  show "t \<in> {3}" if "t \<in> {t. \<exists>tmp\<in>{- (2 ^ 31) ..< 2 ^ 31}. clamp_random tmp 3 7 = Some t}"
    using that by (auto dest!: clamp_random_Some [rotated])
  show "t \<in> {2..6}" if "t \<in> {t. \<exists>tmp\<in>{- (2 ^ 31) ..< 2 ^ 31}. clamp_random tmp 2 9 = Some t}"
    using that by (auto dest!: clamp_random_Some [rotated])
  show "t \<in> {0..9}" if "t \<in> {t. \<exists>tmp\<in>{- (2 ^ 31) ..< 2 ^ 31}. clamp_random tmp 0 10 = Some t}"
    using that by (auto dest!: clamp_random_Some [rotated])
  show "t \<in> {t. \<exists>tmp\<in>{- (2 ^ 31) ..< 2 ^ 31}. clamp_random tmp 3 7 = Some t}" if "t \<in> {3}"
    using that clamp_random_self [of 3 3 7] by (auto intro!: bexI [of _ 3])
  show "t \<in> {t. \<exists>tmp\<in>{- (2 ^ 31) ..< 2 ^ 31}. clamp_random tmp 2 9 = Some t}" if "t \<in> {2..6}"
    using that clamp_random_self [of t 2 9] by (auto intro!: bexI [of _ t])
  show "t \<in> {t. \<exists>tmp\<in>{- (2 ^ 31) ..< 2 ^ 31}. clamp_random tmp 0 10 = Some t}" if "t \<in> {0..9}"
    using that clamp_random_self [of t 0 10] by (auto intro!: bexI [of _ t])
next
  fix c and r :: rng assume "mt_ok (gen r)"
  then show "\<exists>w e r'. produce_entry c r = Some (w, e, r') \<and> w = 3 \<and> good_entry e"
    by (rule produce_entry_ok) blast
qed

theorem random_num_values_witness:
  "clamp_random (- (2 ^ 31)) 2 9 = Some 2 \<and> clamp_random 13 2 9 = Some 6 \<and>
   (\<exists>w e r'. produce_entry demo_cpu (rands demo_system) = Some (w, e, r') \<and> w = 3 \<and> good_entry e)"
proof -
  have "mt_ok (gen (rands demo_system))" by (simp add: demo_system_def mt_ok_def mt_static_def)
  moreover have "clamp_random (- (2 ^ 31)) 2 9 = Some 2" "clamp_random 13 2 9 = Some 6"
    by (simp_all add: clamp_random_def c_abs_def smod_int_alt_def)
  ultimately show ?thesis using random_num_values by blast
qed

text \<open>
  Stack discipline: pushing onto a stack that is not full and popping gives the
  entry back and the old contents; a full stack refuses a push and an empty one a pop,
  with the message and without a change.
\<close>

theorem push_pop_lifo:
  assumes "buffer_ok b"
  shows "(bsize b < BUFFSIZE \<longrightarrow> (\<exists>b1 b2. push b e = Some (b1, []) \<and> buffer_ok b1 \<and>
        stacked b1 = stacked b @ [e] \<and> pop b1 = Some (e, b2, []) \<and> buffer_ok b2 \<and> stacked b2 = stacked b)) \<and>
    (bsize b = BUFFSIZE \<longrightarrow> push b e = Some (b, [Stack_full])) \<and>
    (bsize b = 0 \<longrightarrow> (\<exists>x. pop b = Some (x, b, [Empty_stack])))"
proof (intro conjI impI)
  assume "bsize b < BUFFSIZE"
  then obtain b1 where b1: "push b e = Some (b1, [])" "buffer_ok b1" "stacked b1 = stacked b @ [e]"
    using push_ok [OF assms] by metis
  then have "bsize b1 > 0" by (cases "bsize b1 > 0") (auto simp: stacked_def)
  then obtain x b2 where "pop b1 = Some (x, b2, [])" "buffer_ok b2" "stacked b1 = stacked b2 @ [x]"
    using pop_ok [OF b1(2)] by metis
  then show "\<exists>b1 b2. push b e = Some (b1, []) \<and> buffer_ok b1 \<and> stacked b1 = stacked b @ [e] \<and>
      pop b1 = Some (e, b2, []) \<and> buffer_ok b2 \<and> stacked b2 = stacked b"
    using b1 by auto
qed (use assms in \<open>auto simp: push_def pop_def buffer_ok_def\<close>)

theorem push_pop_lifo_witness:
  "\<exists>b1 b2. push (buf demo_system) \<lparr>num = 1, work_time = 2\<rparr> = Some (b1, []) \<and>
     pop b1 = Some (\<lparr>num = 1, work_time = 2\<rparr>, b2, [])"
proof -
  have "buffer_ok (buf demo_system)" by (simp add: demo_system_def buffer_ok_def BUFFSIZE_def)
  moreover have "bsize (buf demo_system) < BUFFSIZE" by (simp add: demo_system_def BUFFSIZE_def)
  ultimately show ?thesis using push_pop_lifo [of "buf demo_system"] by blast
qed

end
