(* ===== verification/Philosophers.thy ===== *)
theory Philosophers
  imports Prelude
begin

text \<open>
  The dining philosophers of \<^verbatim>\<open>src/concurrency/concurrency2/philosophers.java\<close>: five threads over five chopsticks,
  each a Java monitor with an owner, a clean flag and a binary semaphore. A philosopher is a
  function from the state to the next one, which is None while the thread is blocked; there is one
  step per entry of a monitor, per semaphore operation, per test of the loop of \<^verbatim>\<open>grabChopstick\<close> and per message
  on the console. The lengths of the sleeps do not matter to the state.
  A philosopher's number stands for its name: the names are distinct and the code compares the references of one
  array. No thread is ever interrupted, so the handlers of \<^verbatim>\<open>InterruptedException\<close> do not run. A
  waiting thread may also wake up without a notification, as the Java library allows.
\<close>

subsection \<open>State\<close>

record chopstick =
  chop_id :: nat
  mainuser :: nat
  sem :: nat
  clean :: bool
  monitor :: "nat option"

datatype side = Rt | Lt

datatype grab_pc = G_enter | G_test | G_take | G_give | G_wait

datatype think_pc = T_begin | T_end

datatype eat_pc = E_acq side | E_eat | E_rel side | E_done

datatype philo_pc = Think think_pc | Grab side grab_pc | Eating eat_pc | Put side

text \<open>The lines that the program prints, with philosophers and chopsticks by number, and their text.\<close>

datatype message =
  Holds nat nat | Receives nat nat nat | Refused nat nat |
  Thinking nat | FinishedThinking nat | EatingNow nat | FinishedEating nat

definition philo_names :: "string list" where
  "philo_names = [''Todd Howard'', ''Phil Spencer'', ''David Dague'', ''Hideo Kojima'', ''Shigeru Miyamoto'']"

fun decimal :: "nat \<Rightarrow> string" where
  "decimal n = (if n < 10 then [''0123456789'' ! n] else decimal (n div 10) @ [''0123456789'' ! (n mod 10)])"

fun println :: "message \<Rightarrow> string" where
  "println (Holds u i) = philo_names ! u @ '' holds chopstick '' @ decimal i"
| "println (Receives u i v) = philo_names ! u @ '' receives Chopstick '' @ decimal i @ '' from '' @ philo_names ! v"
| "println (Refused v u) =
     ''Attempt to give Chopstick from '' @ philo_names ! v @ '' to '' @ philo_names ! u @ '' failed.''"
| "println (Thinking u) = philo_names ! u @ '': thinking...''"
| "println (FinishedThinking u) = philo_names ! u @ '': finished thinking''"
| "println (EatingNow u) = philo_names ! u @ '': eating...''"
| "println (FinishedEating u) = philo_names ! u @ '': finished eating''"

record table =
  chopsticks :: "nat \<Rightarrow> chopstick"
  philos :: "nat \<Rightarrow> philo_pc"
  console :: "message list"

subsection \<open>Chopsticks\<close>

definition new_Chopstick :: "nat \<Rightarrow> nat \<Rightarrow> chopstick" where
  "new_Chopstick i user = \<lparr>chop_id = i, mainuser = user, sem = 1, clean = False, monitor = None\<rparr>"

definition acq :: "chopstick \<Rightarrow> chopstick option" where
  "acq c = (if sem c = 0 then None else Some (c\<lparr>sem := sem c - 1\<rparr>))"

definition rel :: "chopstick \<Rightarrow> chopstick" where
  "rel c = c\<lparr>sem := sem c + 1\<rparr>"

text \<open>The chopsticks a philosopher is constructed with.\<close>

fun stick :: "nat \<Rightarrow> side \<Rightarrow> nat" where
  "stick j Rt = j"
| "stick j Lt = (j + 1) mod 5"

definition upd_stick :: "nat \<Rightarrow> chopstick \<Rightarrow> table \<Rightarrow> table" where
  "upd_stick i c s = s\<lparr>chopsticks := (chopsticks s)(i := c)\<rparr>"

definition upd_philo :: "nat \<Rightarrow> philo_pc \<Rightarrow> table \<Rightarrow> table" where
  "upd_philo j p s = s\<lparr>philos := (philos s)(j := p)\<rparr>"

definition say :: "message \<Rightarrow> table \<Rightarrow> table" where
  "say m s = s\<lparr>console := console s @ [m]\<rparr>"

definition grabChopstick :: "nat \<Rightarrow> side \<Rightarrow> grab_pc \<Rightarrow> table \<Rightarrow> table option" where
  "grabChopstick j d g s =
     (let i = stick j d; c = chopsticks s i in
      case g of
        G_enter \<Rightarrow>
          (if monitor c = None then Some (upd_philo j (Grab d G_test) (upd_stick i (c\<lparr>monitor := Some j\<rparr>) s))
           else None)
      | G_test \<Rightarrow>
          (if mainuser c = j then
             Some (upd_philo j (if d = Rt then Grab Lt G_enter else Eating (E_acq Rt)) (upd_stick i (c\<lparr>monitor := None\<rparr>) s))
           else if \<not> clean c then Some (upd_philo j (Grab d G_take) s)
           else Some (say (Refused (mainuser c) j) (upd_philo j (Grab d G_wait) (upd_stick i (c\<lparr>monitor := None\<rparr>) s))))
      | G_take \<Rightarrow>
          (case acq c of
             None \<Rightarrow> None
           | Some c' \<Rightarrow>
               Some (say (Receives j (chop_id c) (mainuser c))
                      (upd_philo j (Grab d G_give) (upd_stick i (c'\<lparr>clean := True, mainuser := j\<rparr>) s))))
      | G_give \<Rightarrow> Some (upd_philo j (Grab d G_test) (upd_stick i (rel c) s))
      | G_wait \<Rightarrow> None)"

text \<open>\<^verbatim>\<open>notifyAll\<close>: the philosophers that wait for the chopstick \<open>i\<close> go for its monitor again.\<close>

definition notifyAll :: "nat \<Rightarrow> table \<Rightarrow> table" where
  "notifyAll i s =
     s\<lparr>philos := (\<lambda>k. case philos s k of
                      Grab d G_wait \<Rightarrow> if stick k d = i then Grab d G_enter else philos s k
                    | _ \<Rightarrow> philos s k)\<rparr>"

definition setChopstick :: "nat \<Rightarrow> table \<Rightarrow> table option" where
  "setChopstick i s =
     (let c = chopsticks s i in
      if monitor c = None then Some (notifyAll i (upd_stick i (c\<lparr>clean := False\<rparr>) s)) else None)"

subsection \<open>Philosophers\<close>

definition think :: "nat \<Rightarrow> think_pc \<Rightarrow> table \<Rightarrow> table" where
  "think j t s =
     (case t of
        T_begin \<Rightarrow> say (Thinking j) (upd_philo j (Think T_end) s)
      | T_end \<Rightarrow> say (FinishedThinking j) (upd_philo j (Grab Rt G_enter) s))"

definition eat :: "nat \<Rightarrow> eat_pc \<Rightarrow> table \<Rightarrow> table option" where
  "eat j e s =
     (case e of
        E_acq d \<Rightarrow>
          (case acq (chopsticks s (stick j d)) of
             None \<Rightarrow> None
           | Some c \<Rightarrow>
               Some (upd_philo j (Eating (if d = Rt then E_acq Lt else E_eat)) (upd_stick (stick j d) c s)))
      | E_eat \<Rightarrow> Some (say (EatingNow j) (upd_philo j (Eating (E_rel Rt)) s))
      | E_rel d \<Rightarrow>
          Some (upd_philo j (Eating (if d = Rt then E_rel Lt else E_done))
                 (upd_stick (stick j d) (rel (chopsticks s (stick j d))) s))
      | E_done \<Rightarrow> Some (say (FinishedEating j) (upd_philo j (Put Rt) s)))"

definition philo_run :: "nat \<Rightarrow> table \<Rightarrow> table option" where
  "philo_run j s =
     (case philos s j of
        Think t \<Rightarrow> Some (think j t s)
      | Grab d g \<Rightarrow> grabChopstick j d g s
      | Eating e \<Rightarrow> eat j e s
      | Put d \<Rightarrow> map_option (upd_philo j (if d = Rt then Put Lt else Think T_begin)) (setChopstick (stick j d) s))"

text \<open>A wake-up without a notification.\<close>

definition spurious :: "nat \<Rightarrow> table \<Rightarrow> table option" where
  "spurious j s =
     (case philos s j of Grab d G_wait \<Rightarrow> Some (upd_philo j (Grab d G_enter) s) | _ \<Rightarrow> None)"

definition first_user :: "nat \<Rightarrow> nat" where
  "first_user i = (let k = (i + 4) mod 5 in if i < k then i else k)"

definition dinner :: table where
  "dinner =
     \<lparr>chopsticks = (\<lambda>i. new_Chopstick i (first_user i)), philos = (\<lambda>_. Think T_begin),
      console = map (\<lambda>i. Holds (first_user i) i) [0..<5]\<rparr>"

definition dine_init :: "table \<Rightarrow> bool" where
  "dine_init s \<longleftrightarrow> s = dinner"

definition dine_step :: "table \<Rightarrow> table \<Rightarrow> bool" where
  "dine_step s t \<longleftrightarrow> (\<exists>j<5. philo_run j s = Some t \<or> spurious j s = Some t)"

fun dine_runs :: "nat list \<Rightarrow> table \<Rightarrow> table option" where
  "dine_runs [] s = Some s"
| "dine_runs (j # js) s =
     (if j < 5 then (case philo_run j s of None \<Rightarrow> None | Some t \<Rightarrow> dine_runs js t) else None)"

subsection \<open>The invariant\<close>

text \<open>The semaphores, the monitor and the chopsticks of their own that a philosopher has at each point.\<close>

fun has_sem :: "philo_pc \<Rightarrow> side \<Rightarrow> bool" where
  "has_sem (Grab d G_give) e \<longleftrightarrow> d = e"
| "has_sem (Eating (E_acq d)) e \<longleftrightarrow> d = Lt \<and> e = Rt"
| "has_sem (Eating E_eat) e \<longleftrightarrow> True"
| "has_sem (Eating (E_rel d)) e \<longleftrightarrow> d = Rt \<or> e = Lt"
| "has_sem (Eating E_done) e \<longleftrightarrow> False"
| "has_sem _ e \<longleftrightarrow> False"

fun inside :: "philo_pc \<Rightarrow> side \<Rightarrow> bool" where
  "inside (Grab d g) e \<longleftrightarrow> d = e \<and> g \<in> {G_test, G_take, G_give}"
| "inside _ e \<longleftrightarrow> False"

fun mid_turn :: "philo_pc \<Rightarrow> side \<Rightarrow> bool" where
  "mid_turn (Think t) e \<longleftrightarrow> False"
| "mid_turn (Grab d g) e \<longleftrightarrow> (d = Lt \<and> e = Rt) \<or> (d = e \<and> g \<in> {G_test, G_give})"
| "mid_turn (Eating x) e \<longleftrightarrow> True"
| "mid_turn (Put d) e \<longleftrightarrow> d = Rt \<or> e = Lt"

definition left_user :: "nat \<Rightarrow> nat" where
  "left_user i = (i + 4) mod 5"

definition sems_ok :: "table \<Rightarrow> bool" where
  "sems_ok s \<longleftrightarrow>
     (\<forall>i<5. sem (chopsticks s i) + (if has_sem (philos s i) Rt then 1 else 0)
              + (if has_sem (philos s (left_user i)) Lt then 1 else 0) = 1)"

definition monitors_ok :: "table \<Rightarrow> bool" where
  "monitors_ok s \<longleftrightarrow> (\<forall>j<5. \<forall>d. inside (philos s j) d \<longrightarrow> monitor (chopsticks s (stick j d)) = Some j)"

text \<open>The philosopher \<open>k\<close> uses the chopstick \<open>i\<close> and has still to put it down in this turn.\<close>

definition held_by :: "table \<Rightarrow> nat \<Rightarrow> nat \<Rightarrow> bool" where
  "held_by s i k \<longleftrightarrow> k < 5 \<and> (\<exists>d. stick k d = i \<and> mid_turn (philos s k) d)"

definition clean_ok :: "table \<Rightarrow> bool" where
  "clean_ok s \<longleftrightarrow> (\<forall>i<5. clean (chopsticks s i) \<longrightarrow> held_by s i (mainuser (chopsticks s i)))"

definition waiters_ok :: "table \<Rightarrow> bool" where
  "waiters_ok s \<longleftrightarrow>
     (\<forall>j<5. \<forall>d. philos s j = Grab d G_wait \<longrightarrow>
        clean (chopsticks s (stick j d)) \<and> mainuser (chopsticks s (stick j d)) \<noteq> j)"

text \<open>
  The console read back: \<open>owners\<close> follows the chopsticks, and refuses a chopstick that is laid twice or that is
  handed over by someone who does not have it; \<open>phase j\<close> follows the philosopher \<open>j\<close> through its
  turn, and refuses a message out of order.
\<close>

fun hear :: "message \<Rightarrow> (nat \<rightharpoonup> nat) \<Rightarrow> (nat \<rightharpoonup> nat) option" where
  "hear (Holds u i) w = (if w i = None then Some (w(i \<mapsto> u)) else None)"
| "hear (Receives u i v) w = (if w i = Some v \<and> u \<noteq> v then Some (w(i \<mapsto> u)) else None)"
| "hear _ w = Some w"

definition owners :: "message list \<Rightarrow> (nat \<rightharpoonup> nat) option" where
  "owners ms = fold (\<lambda>m r. Option.bind r (hear m)) ms (Some (\<lambda>_. None))"

fun follow :: "nat \<Rightarrow> message \<Rightarrow> nat \<Rightarrow> nat option" where
  "follow j (Thinking u) n = (if u \<noteq> j then Some n else if n = 0 then Some 1 else None)"
| "follow j (FinishedThinking u) n = (if u \<noteq> j then Some n else if n = 1 then Some 2 else None)"
| "follow j (Receives u i v) n = (if u \<noteq> j \<or> n = 2 then Some n else None)"
| "follow j (Refused v u) n = (if u \<noteq> j \<or> n = 2 then Some n else None)"
| "follow j (EatingNow u) n = (if u \<noteq> j then Some n else if n = 2 then Some 3 else None)"
| "follow j (FinishedEating u) n = (if u \<noteq> j then Some n else if n = 3 then Some 0 else None)"
| "follow j (Holds u i) n = Some n"

definition phase :: "nat \<Rightarrow> message list \<Rightarrow> nat option" where
  "phase j ms = fold (\<lambda>m r. Option.bind r (follow j m)) ms (Some 0)"

fun phase_of :: "philo_pc \<Rightarrow> nat" where
  "phase_of (Think T_begin) = 0"
| "phase_of (Think T_end) = 1"
| "phase_of (Grab d g) = 2"
| "phase_of (Eating (E_acq d)) = 2"
| "phase_of (Eating E_eat) = 2"
| "phase_of (Eating (E_rel d)) = 3"
| "phase_of (Eating E_done) = 3"
| "phase_of (Put d) = 0"

definition takers_ok :: "table \<Rightarrow> bool" where
  "takers_ok s \<longleftrightarrow> (\<forall>j<5. \<forall>d. philos s j = Grab d G_take \<longrightarrow> mainuser (chopsticks s (stick j d)) \<noteq> j)"

definition owned_by :: "table \<Rightarrow> nat \<rightharpoonup> nat" where
  "owned_by s i = (if i < 5 then Some (mainuser (chopsticks s i)) else None)"

definition console_ok :: "table \<Rightarrow> bool" where
  "console_ok s \<longleftrightarrow>
     (\<forall>i. chop_id (chopsticks s i) = i) \<and> takers_ok s \<and> owners (console s) = Some (owned_by s) \<and>
     (\<forall>j. phase j (console s) = Some (phase_of (philos s j)))"

definition dine_inv :: "table \<Rightarrow> bool" where
  "dine_inv s \<longleftrightarrow> sems_ok s \<and> monitors_ok s \<and> clean_ok s \<and> waiters_ok s \<and> console_ok s"

text \<open>
  A schedule: every philosopher takes its chopsticks one after the other, from dirty to clean, and then all of
  them acquire the right semaphore.
\<close>

definition all_sit_down :: "nat list" where
  "all_sit_down =
     replicate 6 0 @ replicate 9 1 @ replicate 9 2 @ replicate 9 3 @ replicate 12 4 @ [0, 1, 2, 3, 4]"

text \<open>As above, but then philosopher 0 eats and its neighbour after it.\<close>

definition overlapping :: "nat list" where
  "overlapping =
     replicate 6 0 @ replicate 9 1 @ replicate 9 2 @ replicate 9 3 @ replicate 12 4 @
     replicate 5 0 @ replicate 3 1 @ [0]"

definition seated :: "nat list \<Rightarrow> table" where
  "seated js = the (dine_runs js dinner)"

subsection \<open>Who uses a chopstick\<close>

lemma stick_less [simp]: "j < 5 \<Longrightarrow> stick j d < 5"
  by (cases d) auto

lemma left_user_less [simp]: "left_user i < 5"
  by (simp add: left_user_def)

lemma less_5: "(i :: nat) < 5 \<longleftrightarrow> i = 0 \<or> i = 1 \<or> i = 2 \<or> i = 3 \<or> i = 4"
  by auto

lemma left_user_other: "i < 5 \<Longrightarrow> left_user i \<noteq> i"
  unfolding less_5 left_user_def by (elim disjE) simp_all

lemma stick_Lt: "i < 5 \<Longrightarrow> j < 5 \<Longrightarrow> stick j Lt = i \<longleftrightarrow> j = left_user i"
  unfolding less_5 left_user_def by (elim disjE) simp_all

lemma stick_inj: "j < 5 \<Longrightarrow> k < 5 \<Longrightarrow> stick j d = stick k d \<longleftrightarrow> j = k"
  unfolding less_5 by (cases d; elim disjE) simp_all

lemma stick_sides: "j < 5 \<Longrightarrow> stick j d = stick j e \<longleftrightarrow> d = e"
  unfolding less_5 by (cases d; cases e; elim disjE) simp_all

lemma side_not: "d \<noteq> Rt \<longleftrightarrow> d = Lt"
  by (cases d) auto

declare stick.simps [simp del]

lemmas dine_defs = philo_run_def think_def grabChopstick_def eat_def setChopstick_def Let_def acq_def rel_def
lemmas dine_splits = philo_pc.splits think_pc.splits grab_pc.splits eat_pc.splits option.splits if_splits

lemma upd_simps [simp]:
  "chopsticks (upd_stick i c s) = (chopsticks s)(i := c)" "philos (upd_stick i c s) = philos s"
  "chopsticks (upd_philo j p s) = chopsticks s" "philos (upd_philo j p s) = (philos s)(j := p)"
  "chopsticks (notifyAll i s) = chopsticks s"
  "chopsticks (say m s) = chopsticks s" "philos (say m s) = philos s"
  "console (upd_stick i c s) = console s" "console (upd_philo j p s) = console s" "console (notifyAll i s) = console s"
  "console (say m s) = console s @ [m]"
  by (simp_all add: upd_stick_def upd_philo_def notifyAll_def say_def)

lemma notify_pc:
  "philos (notifyAll i s) k = philos s k \<or>
   (\<exists>d. philos s k = Grab d G_wait \<and> stick k d = i \<and> philos (notifyAll i s) k = Grab d G_enter)"
  by (auto simp: notifyAll_def split: philo_pc.splits grab_pc.splits)

lemma notify_wait [simp]:
  "philos (notifyAll i s) k = Grab d G_wait \<longleftrightarrow> philos s k = Grab d G_wait \<and> stick k d \<noteq> i"
  by (auto simp: notifyAll_def split: philo_pc.splits grab_pc.splits)

lemma notify_take [simp]: "philos (notifyAll i s) k = Grab d G_take \<longleftrightarrow> philos s k = Grab d G_take"
  by (auto simp: notifyAll_def split: philo_pc.splits grab_pc.splits)

lemma notify_views [simp]:
  "has_sem (philos (notifyAll i s) k) d = has_sem (philos s k) d"
  "inside (philos (notifyAll i s) k) d = inside (philos s k) d"
  "mid_turn (philos (notifyAll i s) k) d = mid_turn (philos s k) d"
  "phase_of (philos (notifyAll i s) k) = phase_of (philos s k)"
  using notify_pc [of i s k] by auto

subsection \<open>Semaphores\<close>

lemma sems_step:
  assumes "sems_ok s" "j < 5"
    and pcs: "\<And>k e. k \<noteq> j \<Longrightarrow> has_sem (philos t k) e = has_sem (philos s k) e"
    and own: "\<And>d. sem (chopsticks t (stick j d)) + (if has_sem (philos t j) d then 1 else 0) =
                   sem (chopsticks s (stick j d)) + (if has_sem (philos s j) d then 1 else 0)"
    and rest: "\<And>i. (\<And>d. i \<noteq> stick j d) \<Longrightarrow> sem (chopsticks t i) = sem (chopsticks s i)"
  shows "sems_ok t"
  unfolding sems_ok_def
proof (intro allI impI)
  fix i :: nat assume i: "i < 5"
  note old = assms(1) [unfolded sems_ok_def, rule_format, OF i]
  show "sem (chopsticks t i) + (if has_sem (philos t i) Rt then 1 else 0)
    + (if has_sem (philos t (left_user i)) Lt then 1 else 0) = 1"
  proof (cases "i = j")
    case True
    then show ?thesis using old own [of Rt, unfolded stick.simps] pcs [of "left_user i" Lt] left_user_other [OF i] by simp
  next
    case False
    show ?thesis
    proof (cases "left_user i = j")
      case True
      then have "stick j Lt = i" using stick_Lt [OF i assms(2)] by simp
      then show ?thesis using old own [of Lt] pcs [of i Rt] False True by simp
    next
      case other: False
      have "i \<noteq> stick j d" for d using False other stick_Lt [OF i assms(2)] by (cases d) (auto simp: stick.simps)
      then show ?thesis using old rest [of i] pcs False other by simp
    qed
  qed
qed

lemma sem_positive:
  assumes "sems_ok s" "j < 5" "has_sem (philos s j) d"
  shows "sem (chopsticks s (stick j d)) = 0"
proof (cases d)
  case Rt
  then show ?thesis using assms by (auto simp: sems_ok_def stick.simps dest!: spec [of _ j])
next
  case Lt
  let ?i = "stick j Lt"
  have "left_user ?i = j" using stick_Lt [OF stick_less [OF assms(2), of Lt] assms(2)] by simp
  moreover have "sem (chopsticks s ?i) + (if has_sem (philos s ?i) Rt then 1 else 0)
    + (if has_sem (philos s (left_user ?i)) Lt then 1 else 0) = 1"
    using assms(1) stick_less [OF assms(2)] unfolding sems_ok_def by blast
  ultimately show ?thesis using assms(3) Lt by simp
qed

lemma neighbours_exclude:
  assumes "sems_ok s" "j < 5" "k < 5" "stick j d = stick k e" "has_sem (philos s j) d" "has_sem (philos s k) e"
  shows "j = k"
proof (rule ccontr)
  assume jk: "j \<noteq> k"
  then have "d \<noteq> e" using assms(4) stick_inj [OF assms(2,3)] by auto
  then obtain a b where ab: "a < 5" "b < 5" "stick a Rt = stick b Lt" "has_sem (philos s a) Rt" "has_sem (philos s b) Lt"
    using assms by (cases d; cases e) auto
  then have "left_user a = b" using stick_Lt [of a b] by (simp add: stick.simps)
  then show False using assms(1) ab by (auto simp: sems_ok_def dest!: spec [of _ a])
qed

lemma sems_run:
  assumes "sems_ok s" "j < 5" "philo_run j s = Some t"
  shows "sems_ok t"
proof (rule sems_step [OF assms(1,2)])
  show "k \<noteq> j \<Longrightarrow> has_sem (philos t k) e = has_sem (philos s k) e" for k e
    using assms(3) by (auto simp: dine_defs split: dine_splits)
  show "sem (chopsticks t (stick j d)) + (if has_sem (philos t j) d then 1 else 0) =
    sem (chopsticks s (stick j d)) + (if has_sem (philos s j) d then 1 else 0)" for d
    using assms(3) by (auto simp: dine_defs stick_sides [OF assms(2)] side_not split: dine_splits)
  show "(\<And>d. i \<noteq> stick j d) \<Longrightarrow> sem (chopsticks t i) = sem (chopsticks s i)" for i
    using assms(3) by (auto simp: dine_defs split: dine_splits)
qed

subsection \<open>Monitors, clean chopsticks and waiting\<close>

lemma monitors_okD: "monitors_ok s \<Longrightarrow> j < 5 \<Longrightarrow> inside (philos s j) d \<Longrightarrow> monitor (chopsticks s (stick j d)) = Some j"
  unfolding monitors_ok_def by blast

lemma monitors_run:
  assumes "monitors_ok s" "j < 5" "philo_run j s = Some t"
  shows "monitors_ok t"
  unfolding monitors_ok_def
proof (intro allI impI)
  fix k e assume k: "k < 5" and "inside (philos t k) e"
  note own = monitors_okD [OF assms(1,2)]
  show "monitor (chopsticks t (stick k e)) = Some k"
  proof (cases "k = j")
    case True
    then show ?thesis using assms(3) \<open>inside (philos t k) e\<close> own [of e] stick_sides [OF assms(2)]
      by (auto simp: dine_defs split: dine_splits)
  next
    case False
    then have "inside (philos s k) e" using assms(3) \<open>inside (philos t k) e\<close>
      by (auto simp: dine_defs split: dine_splits)
    then have "monitor (chopsticks s (stick k e)) = Some k" by (rule monitors_okD [OF assms(1) k])
    then show ?thesis using assms(3) own False by (auto simp: dine_defs split: dine_splits)
  qed
qed

lemma held_step:
  assumes "held_by s i k" "philo_run j s = Some t" "j < 5"
    and "k = j \<Longrightarrow> clean (chopsticks t i) \<and> mainuser (chopsticks s i) = k"
  shows "held_by t i k"
proof -
  obtain d where d: "k < 5" "stick k d = i" "mid_turn (philos s k) d" using assms(1) unfolding held_by_def by blast
  have "mid_turn (philos t k) d"
  proof (cases "k = j")
    case True
    then show ?thesis using assms(2) assms(4) [OF True] d stick_sides [OF assms(3)]
      by (auto simp: dine_defs side_not split: dine_splits)
  next
    case False
    then show ?thesis using assms(2) d(3) by (auto simp: dine_defs split: dine_splits)
  qed
  then show ?thesis using d unfolding held_by_def by blast
qed

lemma clean_change:
  assumes "philo_run j s = Some t" "clean (chopsticks t i)"
  shows "(clean (chopsticks s i) \<and> mainuser (chopsticks t i) = mainuser (chopsticks s i)) \<or>
    (mainuser (chopsticks t i) = j \<and> (\<exists>d. stick j d = i \<and> philos t j = Grab d G_give))"
  using assms by (auto simp: dine_defs split: dine_splits)

lemma clean_run:
  assumes "clean_ok s" "j < 5" "philo_run j s = Some t"
  shows "clean_ok t"
  unfolding clean_ok_def
proof (intro allI impI)
  fix i :: nat assume i: "i < 5" and c: "clean (chopsticks t i)"
  from clean_change [OF assms(3) c] show "held_by t i (mainuser (chopsticks t i))"
  proof (elim disjE conjE exE)
    assume old: "clean (chopsticks s i)" and same: "mainuser (chopsticks t i) = mainuser (chopsticks s i)"
    have "held_by s i (mainuser (chopsticks s i))" using assms(1) old i unfolding clean_ok_def by blast
    then show ?thesis unfolding same by (rule held_step [OF _ assms(3,2)]) (use c in simp)
  next
    fix d assume "mainuser (chopsticks t i) = j" "stick j d = i" "philos t j = Grab d G_give"
    then show ?thesis using assms(2) unfolding held_by_def by auto
  qed
qed

lemma waiters_run:
  assumes "waiters_ok s" "philo_run j s = Some t"
  shows "waiters_ok t"
  unfolding waiters_ok_def
proof (intro allI impI)
  fix k e assume k: "k < 5" and w: "philos t k = Grab e G_wait"
  show "clean (chopsticks t (stick k e)) \<and> mainuser (chopsticks t (stick k e)) \<noteq> k"
  proof (cases "k = j")
    case True
    then show ?thesis using assms(2) w by (auto simp: dine_defs split: dine_splits)
  next
    case False
    then have ws: "philos s k = Grab e G_wait" using assms(2) w
      by (auto simp: dine_defs split: dine_splits)
    then have "clean (chopsticks s (stick k e))" "mainuser (chopsticks s (stick k e)) \<noteq> k"
      using assms(1) k unfolding waiters_ok_def by blast+
    then show ?thesis using assms(2) w ws False
      by (auto simp: dine_defs split: dine_splits)
  qed
qed

subsection \<open>The console\<close>

lemma owners_snoc [simp]: "owners (ms @ [m]) = Option.bind (owners ms) (hear m)"
  by (simp add: owners_def)

lemma phase_snoc [simp]: "phase j (ms @ [m]) = Option.bind (phase j ms) (follow j m)"
  by (simp add: phase_def)

lemma ids_run: "philo_run j s = Some t \<Longrightarrow> chop_id (chopsticks t i) = chop_id (chopsticks s i)"
  by (auto simp: dine_defs split: dine_splits)

lemma takers_run:
  assumes "takers_ok s" "philo_run j s = Some t"
  shows "takers_ok t"
  unfolding takers_ok_def
proof (intro allI impI)
  fix k e assume k: "k < 5" and w: "philos t k = Grab e G_take"
  show "mainuser (chopsticks t (stick k e)) \<noteq> k"
  proof (cases "k = j")
    case True
    then show ?thesis using assms(2) w by (auto simp: dine_defs split: dine_splits)
  next
    case False
    then have "philos s k = Grab e G_take" using assms(2) w
      by (auto simp: dine_defs split: dine_splits)
    then have "mainuser (chopsticks s (stick k e)) \<noteq> k" using assms(1) k unfolding takers_ok_def by blast
    then show ?thesis using assms(2) False by (auto simp: dine_defs split: dine_splits)
  qed
qed

lemma phase_run:
  assumes "phase k (console s) = Some (phase_of (philos s k))" "philo_run j s = Some t"
  shows "phase k (console t) = Some (phase_of (philos t k))"
  using assms by (cases "k = j") (auto simp: dine_defs split: dine_splits)

lemma owners_run:
  assumes "owners (console s) = Some (owned_by s)" "takers_ok s" "\<And>i. chop_id (chopsticks s i) = i"
    "j < 5" "philo_run j s = Some t"
  shows "owners (console t) = Some (owned_by t)"
proof (cases "\<exists>d. philos s j = Grab d G_take")
  case True
  then obtain d where d: "philos s j = Grab d G_take" by blast
  then have "mainuser (chopsticks s (stick j d)) \<noteq> j" using assms(2,4) unfolding takers_ok_def by blast
  then have "owners (console t) = Some ((owned_by s)(stick j d \<mapsto> j))"
    using assms d by (auto simp: dine_defs owned_by_def split: if_splits)
  moreover have "(owned_by s)(stick j d \<mapsto> j) = owned_by t"
    by (rule ext) (use assms(4,5) d in \<open>auto simp: dine_defs owned_by_def split: if_splits\<close>)
  ultimately show ?thesis by simp
next
  case False
  then have "owned_by t = owned_by s"
    using assms(5) by (auto simp: dine_defs owned_by_def split: dine_splits)
  moreover have "owners (console t) = Some (owned_by s)"
    using assms(1,5) False by (auto simp: dine_defs split: dine_splits)
  ultimately show ?thesis by simp
qed

lemma console_run:
  assumes "console_ok s" "j < 5" "philo_run j s = Some t"
  shows "console_ok t"
  using assms takers_run [OF _ assms(3)] phase_run [OF _ assms(3)] owners_run [OF _ _ _ assms(2,3)] ids_run [OF assms(3)]
  unfolding console_ok_def by simp

lemma spurious_ok:
  assumes "dine_inv s" "spurious j s = Some t"
  shows "dine_inv t"
proof -
  obtain d where d: "philos s j = Grab d G_wait" "t = upd_philo j (Grab d G_enter) s"
    using assms(2) by (auto simp: spurious_def split: philo_pc.splits grab_pc.splits)
  have views: "has_sem (philos t k) e = has_sem (philos s k) e" "inside (philos t k) e = inside (philos s k) e"
    "mid_turn (philos t k) e = mid_turn (philos s k) e" "chopsticks t = chopsticks s" for k e
    using d by auto
  have wait: "philos t k = Grab e G_wait \<Longrightarrow> philos s k = Grab e G_wait" for k e using d by (auto split: if_splits)
  have "sems_ok t = sems_ok s" "monitors_ok t = monitors_ok s" "clean_ok t = clean_ok s"
    unfolding sems_ok_def monitors_ok_def clean_ok_def held_by_def views by (rule HOL.refl)+
  moreover have "waiters_ok t" using assms(1) wait unfolding dine_inv_def waiters_ok_def views by blast
  moreover have "console_ok t"
    using assms(1) d by (auto simp: dine_inv_def console_ok_def takers_ok_def owned_by_def fun_eq_iff split: if_splits)
  ultimately show ?thesis using assms(1) unfolding dine_inv_def by blast
qed

lemma laid_out:
  "owners (map (\<lambda>i. Holds (f i) i) [0..<n]) = Some (\<lambda>i. if i < n then Some (f i) else None)"
  "phase j (map (\<lambda>i. Holds (f i) i) [0..<n]) = Some 0"
  by (induction n) (auto simp: owners_def phase_def fun_eq_iff less_Suc_eq)

lemma dinner_console: "console_ok dinner"
proof -
  have "owned_by dinner = (\<lambda>i. if i < 5 then Some (first_user i) else None)"
    by (rule ext) (simp add: owned_by_def dinner_def new_Chopstick_def)
  then show ?thesis
    unfolding console_ok_def by (simp add: dinner_def laid_out takers_ok_def new_Chopstick_def)
qed

interpretation dine: invariant_system dine_init dine_step dine_inv
proof
  show "dine_inv s" if "dine_init s" for s
    using that dinner_console by (simp add: dine_init_def) (simp add: dinner_def new_Chopstick_def dine_inv_def sems_ok_def monitors_ok_def
        clean_ok_def waiters_ok_def)
next
  fix s t assume inv: "dine_inv s" and "dine_step s t"
  then obtain j where j: "j < 5" "philo_run j s = Some t \<or> spurious j s = Some t" unfolding dine_step_def by blast
  then show "dine_inv t"
    using inv spurious_ok [OF inv] sems_run [of s j t] monitors_run [of s j t] clean_run [of s j t]
      waiters_run [of s j t] console_run [of s j t] unfolding dine_inv_def by blast
qed

lemma dine_runs_run: "dine_runs js s = Some t \<Longrightarrow> run dine_step s t"
proof (induction js arbitrary: s)
  case Nil
  then show ?case using run.run_refl [of dine_step s] by simp
next
  case (Cons j js)
  then obtain u where u: "j < 5" "philo_run j s = Some u" "dine_runs js u = Some t"
    by (auto split: if_splits option.splits)
  then have "dine_step s u" unfolding dine_step_def by blast
  then show ?case using Cons.IH [OF u(3)] run.run_more [of dine_step s u t] by blast
qed

lemma dine_runs_reach: "dine_runs js dinner = Some t \<Longrightarrow> reach dine_init dine_step t"
  by (rule reach_run [OF dine_runs_run]) (auto simp: dine_init_def intro: reach.start)

lemma seated_reach:
  assumes "dine_runs js dinner \<noteq> None"
  shows "reach dine_init dine_step (seated js)"
  using assms by (intro dine_runs_reach [of js]) (auto simp: seated_def)

subsection \<open>Properties\<close>

text \<open>
  C14 (neighbours never eat together). In every reachable state, two philosophers that share a chopstick
  do not both hold its semaphore; in particular neighbours are not both eating.
\<close>

theorem dine_exclusive:
  assumes "reach dine_init dine_step s" "j < 5" "k < 5" "j \<noteq> k" "stick j d = stick k e"
  shows "\<not> (has_sem (philos s j) d \<and> has_sem (philos s k) e) \<and>
    \<not> (philos s j = Eating E_eat \<and> philos s k = Eating E_eat)"
proof -
  have "sems_ok s" using dine.reach_inv [OF assms(1)] unfolding dine_inv_def by blast
  then show ?thesis using neighbours_exclude [of s j k d e] assms by auto
qed

theorem dine_exclusive_witness:
  "philos (seated (replicate 8 0)) 0 = Eating E_eat \<and> philos (seated (replicate 8 0)) 1 \<noteq> Eating E_eat"
proof -
  have "dine_runs (replicate 8 0) dinner \<noteq> None" by code_simp
  note reach = seated_reach [OF this]
  have "philos (seated (replicate 8 0)) 0 = Eating E_eat" by code_simp
  moreover have "stick 0 Lt = stick 1 Rt" by (simp add: stick.simps)
  ultimately show ?thesis using dine_exclusive [OF reach, of 0 1 Lt Rt] by simp
qed

text \<open>
  C36 (no lost wake-up). In every reachable state a philosopher inside \<^verbatim>\<open>wait()\<close> waits for a chopstick that is
  clean and whose owner is another philosopher who uses it and has still to call \<^verbatim>\<open>setChopstick\<close> on it
  in this turn; and a clean chopstick always has such an owner. The notification is still to come.
\<close>

theorem dine_no_lost_wakeup:
  assumes "reach dine_init dine_step s" "j < 5" "philos s j = Grab d G_wait"
  shows "clean (chopsticks s (stick j d)) \<and> mainuser (chopsticks s (stick j d)) \<noteq> j \<and>
    held_by s (stick j d) (mainuser (chopsticks s (stick j d)))"
proof -
  have inv: "clean_ok s" "waiters_ok s" using dine.reach_inv [OF assms(1)] unfolding dine_inv_def by blast+
  then show ?thesis using assms(2,3) stick_less [OF assms(2)] unfolding clean_ok_def waiters_ok_def by blast
qed

theorem dine_no_lost_wakeup_witness:
  "philos (seated (replicate 7 1 @ replicate 6 0)) 0 = Grab Lt G_wait \<and>
   held_by (seated (replicate 7 1 @ replicate 6 0)) 1 1"
proof -
  let ?s = "seated (replicate 7 1 @ replicate 6 0)"
  have "dine_runs (replicate 7 1 @ replicate 6 0) dinner \<noteq> None" by code_simp
  note reach = seated_reach [OF this]
  have "philos ?s 0 = Grab Lt G_wait \<and> mainuser (chopsticks ?s 1) = 1" by code_simp
  moreover have "stick 0 Lt = 1" by (simp add: stick.simps)
  ultimately show ?thesis using dine_no_lost_wakeup [OF reach, of 0 Lt] by simp
qed

text \<open>
  C38 (the dinner can deadlock). There is a reachable state in which every philosopher holds the semaphore
  of its right chopstick and is blocked on that of its left one, and no step is possible. An owner passes
  \<^verbatim>\<open>grabChopstick\<close> without cleaning its dirty chopstick, so its neighbour takes it away before the owner eats, and
  all five enter \<^verbatim>\<open>eat\<close> at once: the precedence of the Chandy and Misra solution is lost.
\<close>

theorem dine_can_deadlock:
  "reach dine_init dine_step (seated all_sit_down) \<and>
   map (philos (seated all_sit_down)) [0..<5] = replicate 5 (Eating (E_acq Lt)) \<and>
   (\<nexists>t. dine_step (seated all_sit_down) t)"
proof -
  have "dine_runs all_sit_down dinner \<noteq> None" by code_simp
  then have "reach dine_init dine_step (seated all_sit_down)" by (rule seated_reach)
  moreover have "map (philos (seated all_sit_down)) [0..<5] = replicate 5 (Eating (E_acq Lt))" by code_simp
  moreover have "\<forall>j\<in>set [0..<5]. philos (seated all_sit_down) j = Eating (E_acq Lt)" by code_simp
  then have pcs: "j < 5 \<Longrightarrow> philos (seated all_sit_down) j = Eating (E_acq Lt)" for j by simp
  have "\<forall>j\<in>set [0..<5]. philo_run j (seated all_sit_down) = None" by code_simp
  then have stuck: "j < 5 \<Longrightarrow> philo_run j (seated all_sit_down) = None" for j by simp
  have "\<nexists>t. dine_step (seated all_sit_down) t"
    using pcs stuck unfolding dine_step_def spurious_def by fastforce
  ultimately show ?thesis by blast
qed

text \<open>
  C37 (the console can be believed). In every reachable state the lines printed so far, read in order, give the
  owner of every chopstick: a chopstick is laid once, and is handed over only by the philosopher the earlier lines
  say has it, to another. For each philosopher the lines come in the order of its turn, thinking, finished
  thinking, receiving or being refused, eating, finished eating, and say where in its turn it is.
\<close>

theorem dine_console:
  assumes "reach dine_init dine_step s"
  shows "owners (console s) = Some (\<lambda>i. if i < 5 then Some (mainuser (chopsticks s i)) else None) \<and>
    (\<forall>j. phase j (console s) = Some (phase_of (philos s j)))"
  using dine.reach_inv [OF assms] unfolding dine_inv_def console_ok_def owned_by_def fun_eq_iff by auto

theorem dine_console_witness:
  "map println (drop 5 (console (seated (replicate 7 1)))) =
     [''Phil Spencer: thinking...'', ''Phil Spencer: finished thinking'',
      ''Phil Spencer receives Chopstick 1 from Todd Howard''] \<and>
   (\<exists>w. owners (console (seated (replicate 7 1))) = Some w \<and> w 1 = Some 1) \<and>
   phase 1 (console (seated (replicate 7 1))) = Some 2"
proof -
  have "dine_runs (replicate 7 1) dinner \<noteq> None" by code_simp
  note all = dine_console [OF seated_reach [OF this]]
  have "mainuser (chopsticks (seated (replicate 7 1)) 1) = 1" "phase_of (philos (seated (replicate 7 1)) 1) = 2"
    "map println (drop 5 (console (seated (replicate 7 1)))) =
     [''Phil Spencer: thinking...'', ''Phil Spencer: finished thinking'',
      ''Phil Spencer receives Chopstick 1 from Todd Howard'']" by code_simp+
  then show ?thesis using all by simp
qed

text \<open>
  The order of the lines of two philosophers. The line that ends a meal is printed after the semaphores are
  released, so a neighbour can print that it eats before it, although the two never eat together.
\<close>

theorem dine_console_overlap:
  "reach dine_init dine_step (seated overlapping) \<and>
   drop (length (console (seated overlapping)) - 3) (console (seated overlapping)) =
     [EatingNow 0, EatingNow 1, FinishedEating 0] \<and>
   stick 0 Lt = stick 1 Rt"
proof -
  have "dine_runs overlapping dinner \<noteq> None" by code_simp
  then have "reach dine_init dine_step (seated overlapping)" by (rule seated_reach)
  moreover have "drop (length (console (seated overlapping)) - 3) (console (seated overlapping)) =
     [EatingNow 0, EatingNow 1, FinishedEating 0]" by code_simp
  ultimately show ?thesis by (simp add: stick.simps)
qed

end
