(* ===== verification/Con3.thy ===== *)
theory Con3
  imports Prelude
begin

text \<open>
  The linked-list program of \<^verbatim>\<open>src/concurrency/concurrency3/con3.c\<close>: searching, inserting and
  deleting threads over one list. The heap maps addresses to nodes and forgets freed ones; a
  thread that reads, writes or frees an address that is not allocated is recorded in \<open>fault\<close> and
  stops the program. Every thread is a function from the state to the next one, with one step
  per lock operation and per access to the list or to \<^verbatim>\<open>head\<close>; the scheduler picks the thread,
  the result of \<^verbatim>\<open>rand() % 10\<close> and what \<^verbatim>\<open>malloc\<close> returns: NULL or an address not in use.
  The counting of \<^verbatim>\<open>linked_list_size\<close> takes no lock; it is one step per node of the thread that counts. What
  the threads print is kept newest first, each message with the thread that printed it.
\<close>

subsection \<open>State\<close>

type_synonym addr = nat

record list_node =
  nval :: int
  nnext :: "addr option"

datatype thread3 = Search nat | Insert nat | Delete nat

datatype message3 =
  New_item int | Value_deleted int | List_is_empty | Searching_list | Item int | Newline

datatype search_pc = S_try | S_got | S_walk "addr option" | S_unlock

datatype insert_pc =
  I_start | I_size "addr option" nat | I_try | I_alloc | I_link addr | I_walk addr addr | I_write addr addr | I_unlock

datatype delete_pc =
  D_start | D_size "addr option" nat | D_try1 | D_try2 | D_got | D_walk int "addr option" "addr option"
| D_free addr | D_unlock2 | D_unlock1

record con3 =
  nodes :: "addr \<rightharpoonup> list_node"
  head :: "addr option"
  search_lock :: "thread3 option"
  insert_lock :: "thread3 option"
  spc :: "nat \<Rightarrow> search_pc"
  ipc :: "nat \<Rightarrow> insert_pc"
  dpc :: "nat \<Rightarrow> delete_pc"
  fault :: "thread3 option"
  out :: "(thread3 \<times> message3) list"

subsection \<open>The threads\<close>

definition set_spc :: "nat \<Rightarrow> search_pc \<Rightarrow> con3 \<Rightarrow> con3" where
  "set_spc i p s = s\<lparr>spc := (spc s)(i := p)\<rparr>"

definition set_ipc :: "nat \<Rightarrow> insert_pc \<Rightarrow> con3 \<Rightarrow> con3" where
  "set_ipc i p s = s\<lparr>ipc := (ipc s)(i := p)\<rparr>"

definition set_dpc :: "nat \<Rightarrow> delete_pc \<Rightarrow> con3 \<Rightarrow> con3" where
  "set_dpc i p s = s\<lparr>dpc := (dpc s)(i := p)\<rparr>"

definition print3 :: "thread3 \<Rightarrow> message3 \<Rightarrow> con3 \<Rightarrow> con3" where
  "print3 t x s = s\<lparr>out := (t, x) # out s\<rparr>"

text \<open>One round of the loop of \<^verbatim>\<open>linked_list_size\<close>, at the node \<open>c\<close> with \<open>n\<close> nodes counted.\<close>

datatype size_round = Size_done nat | Size_next "addr option" nat | Size_fault

definition linked_list_size :: "(addr \<rightharpoonup> list_node) \<Rightarrow> addr option \<Rightarrow> nat \<Rightarrow> size_round" where
  "linked_list_size m c n =
     (case c of
        None \<Rightarrow> Size_done n
      | Some p \<Rightarrow> (case m p of None \<Rightarrow> Size_fault | Some x \<Rightarrow> Size_next (nnext x) (n + 1)))"

definition con3_search :: "nat \<Rightarrow> con3 \<Rightarrow> con3" where
  "con3_search i s =
     (case spc s i of
        S_try \<Rightarrow> (if search_lock s = None then set_spc i S_got (s\<lparr>search_lock := Some (Search i)\<rparr>) else s)
      | S_got \<Rightarrow> (case head s of
                     None \<Rightarrow> set_spc i S_try (print3 (Search i) List_is_empty s)
                   | Some p \<Rightarrow> set_spc i (S_walk (Some p)) (print3 (Search i) Searching_list s))
      | S_walk None \<Rightarrow> set_spc i S_unlock (print3 (Search i) Newline s)
      | S_walk (Some p) \<Rightarrow>
          (case nodes s p of
             None \<Rightarrow> s\<lparr>fault := Some (Search i)\<rparr>
           | Some n \<Rightarrow> set_spc i (S_walk (nnext n)) (print3 (Search i) (Item (nval n)) s))
      | S_unlock \<Rightarrow> set_spc i S_try (s\<lparr>search_lock := None\<rparr>))"

definition con3_insert :: "nat \<Rightarrow> int \<Rightarrow> addr option \<Rightarrow> con3 \<Rightarrow> con3" where
  "con3_insert i v a s =
     (case ipc s i of
        I_start \<Rightarrow> set_ipc i (I_size (head s) 0) s
      | I_size c n \<Rightarrow>
          (case linked_list_size (nodes s) c n of
             Size_fault \<Rightarrow> s\<lparr>fault := Some (Insert i)\<rparr>
           | Size_next c' n' \<Rightarrow> set_ipc i (I_size c' n') s
           | Size_done k \<Rightarrow> set_ipc i (if k < 25 then I_try else I_start) s)
      | I_try \<Rightarrow>
          (if insert_lock s = None then set_ipc i I_alloc (s\<lparr>insert_lock := Some (Insert i)\<rparr>)
           else set_ipc i I_start s)
      | I_alloc \<Rightarrow>
          (case a of
             None \<Rightarrow> s\<lparr>fault := Some (Insert i)\<rparr>
           | Some b \<Rightarrow>
               set_ipc i (I_link b) (print3 (Insert i) (New_item v)
                 (s\<lparr>nodes := (nodes s)(b \<mapsto> \<lparr>nval = v, nnext = None\<rparr>)\<rparr>)))
      | I_link b \<Rightarrow> (case head s of None \<Rightarrow> set_ipc i I_unlock s | Some p \<Rightarrow> set_ipc i (I_walk b p) s)
      | I_walk b p \<Rightarrow>
          (case nodes s p of
             None \<Rightarrow> s\<lparr>fault := Some (Insert i)\<rparr>
           | Some x \<Rightarrow> (case nnext x of None \<Rightarrow> set_ipc i (I_write b p) s | Some q \<Rightarrow> set_ipc i (I_walk b q) s))
      | I_write b p \<Rightarrow>
          (case nodes s p of
             None \<Rightarrow> s\<lparr>fault := Some (Insert i)\<rparr>
           | Some x \<Rightarrow> set_ipc i I_unlock (s\<lparr>nodes := (nodes s)(p \<mapsto> x\<lparr>nnext := Some b\<rparr>)\<rparr>))
      | I_unlock \<Rightarrow> set_ipc i I_start (s\<lparr>insert_lock := None\<rparr>))"

text \<open>
  Taking the node \<open>p\<close> out. Its predecessor is the local \<open>prev\<close>, which is None while the loop
  has not assigned it; the result is None when the store goes to no allocated node.
\<close>

definition unlink :: "addr option \<Rightarrow> addr \<Rightarrow> list_node \<Rightarrow> con3 \<Rightarrow> con3 option" where
  "unlink prev p x s =
     (if head s = Some p then Some (s\<lparr>head := nnext x\<rparr>)
      else (case prev of
              None \<Rightarrow> None
            | Some q \<Rightarrow> (case nodes s q of
                           None \<Rightarrow> None
                         | Some y \<Rightarrow> Some (s\<lparr>nodes := (nodes s)(q \<mapsto> y\<lparr>nnext := nnext x\<rparr>)\<rparr>))))"

definition con3_delete :: "nat \<Rightarrow> int \<Rightarrow> con3 \<Rightarrow> con3" where
  "con3_delete i v s =
     (case dpc s i of
        D_start \<Rightarrow> set_dpc i (D_size (head s) 0) s
      | D_size c n \<Rightarrow>
          (case linked_list_size (nodes s) c n of
             Size_fault \<Rightarrow> s\<lparr>fault := Some (Delete i)\<rparr>
           | Size_next c' n' \<Rightarrow> set_dpc i (D_size c' n') s
           | Size_done k \<Rightarrow> set_dpc i (if k > 1 then D_try1 else D_start) s)
      | D_try1 \<Rightarrow>
          (if insert_lock s = None then set_dpc i D_try2 (s\<lparr>insert_lock := Some (Delete i)\<rparr>)
           else set_dpc i D_start s)
      | D_try2 \<Rightarrow>
          (if search_lock s = None then set_dpc i D_got (s\<lparr>search_lock := Some (Delete i)\<rparr>)
           else set_dpc i D_unlock1 s)
      | D_got \<Rightarrow> set_dpc i (D_walk v None (head s)) s
      | D_walk w prev None \<Rightarrow> set_dpc i D_unlock2 s
      | D_walk w prev (Some p) \<Rightarrow>
          (case nodes s p of
             None \<Rightarrow> s\<lparr>fault := Some (Delete i)\<rparr>
           | Some x \<Rightarrow>
               if nval x = w then
                 (case unlink prev p x s of
                    None \<Rightarrow> s\<lparr>fault := Some (Delete i)\<rparr>
                  | Some u \<Rightarrow> set_dpc i (D_free p) (print3 (Delete i) (Value_deleted w) u))
               else set_dpc i (D_walk w (Some p) (nnext x)) s)
      | D_free p \<Rightarrow>
          (case nodes s p of
             None \<Rightarrow> s\<lparr>fault := Some (Delete i)\<rparr>
           | Some x \<Rightarrow> set_dpc i D_unlock2 (s\<lparr>nodes := (nodes s)(p := None)\<rparr>))
      | D_unlock2 \<Rightarrow> set_dpc i D_unlock1 (s\<lparr>search_lock := None\<rparr>)
      | D_unlock1 \<Rightarrow> set_dpc i D_start (s\<lparr>insert_lock := None\<rparr>))"

text \<open>\<^verbatim>\<open>main\<close> starts three threads of each kind over a list of one node.\<close>

definition con3_main :: "addr \<Rightarrow> int \<Rightarrow> con3" where
  "con3_main a v =
     \<lparr>nodes = [a \<mapsto> \<lparr>nval = v, nnext = None\<rparr>], head = Some a, search_lock = None, insert_lock = None,
      spc = (\<lambda>_. S_try), ipc = (\<lambda>_. I_start), dpc = (\<lambda>_. D_start), fault = None, out = []\<rparr>"

definition unused :: "addr option \<Rightarrow> con3 \<Rightarrow> bool" where
  "unused a s \<longleftrightarrow> (case a of None \<Rightarrow> True | Some b \<Rightarrow> nodes s b = None)"

fun con3_exec :: "thread3 \<times> int \<times> addr option \<Rightarrow> con3 \<Rightarrow> con3 option" where
  "con3_exec (t, v, a) s =
     (if fault s \<noteq> None \<or> \<not> (0 \<le> v \<and> v < 10) \<or> \<not> unused a s then None
      else (case t of
              Search i \<Rightarrow> if i < 3 then Some (con3_search i s) else None
            | Insert i \<Rightarrow> if i < 3 then Some (con3_insert i v a s) else None
            | Delete i \<Rightarrow> if i < 3 then Some (con3_delete i v s) else None))"

definition con3_step :: "con3 \<Rightarrow> con3 \<Rightarrow> bool" where
  "con3_step s t \<longleftrightarrow> (\<exists>c. con3_exec c s = Some t)"

definition con3_init :: "con3 \<Rightarrow> bool" where
  "con3_init s \<longleftrightarrow> (\<exists>a v. 0 \<le> v \<and> v < 10 \<and> s = con3_main a v)"

fun con3_run :: "(thread3 \<times> int \<times> addr option) list \<Rightarrow> con3 \<Rightarrow> con3 option" where
  "con3_run [] s = Some s"
| "con3_run (c # cs) s = (case con3_exec c s of None \<Rightarrow> None | Some t \<Rightarrow> con3_run cs t)"

text \<open>A thread that runs alone takes its turns one after the other.\<close>

definition turn :: "thread3 \<Rightarrow> con3 \<Rightarrow> con3 \<Rightarrow> bool" where
  "turn r s t \<longleftrightarrow> (\<exists>v a. con3_exec (r, v, a) s = Some t)"

lemma linked_list_size_simps [simp]:
  "linked_list_size m None n = Size_done n"
  "linked_list_size m (Some p) n = (case m p of None \<Rightarrow> Size_fault | Some x \<Rightarrow> Size_next (nnext x) (n + 1))"
  by (simp_all add: linked_list_size_def)

lemma linked_list_size_fault:
  "linked_list_size m c n = Size_fault \<longleftrightarrow> (\<exists>p. c = Some p \<and> m p = None)"
  by (cases c) (auto split: option.splits)

lemma con3_run_run: "con3_run cs s = Some t \<Longrightarrow> run con3_step s t"
proof (induction cs arbitrary: s)
  case Nil
  then show ?case using run.run_refl [of con3_step s] by simp
next
  case (Cons c cs)
  then obtain u where "con3_exec c s = Some u" "con3_run cs u = Some t" by (auto split: option.splits)
  moreover have "con3_step s u" using calculation(1) unfolding con3_step_def by blast
  ultimately show ?case using Cons.IH run.run_more [of con3_step s u t] by blast
qed

lemma con3_run_reach: "con3_run cs s = Some t \<Longrightarrow> reach con3_init con3_step s \<Longrightarrow> reach con3_init con3_step t"
  by (rule reach_run [OF con3_run_run])

subsection \<open>The list\<close>

text \<open>\<open>lpath m h xs\<close>: the nodes reached from \<open>h\<close> are \<open>xs\<close>.\<close>

fun lpath :: "(addr \<rightharpoonup> list_node) \<Rightarrow> addr option \<Rightarrow> addr list \<Rightarrow> bool" where
  "lpath m h [] \<longleftrightarrow> h = None"
| "lpath m h (a # xs) \<longleftrightarrow> h = Some a \<and> (\<exists>x. m a = Some x \<and> lpath m (nnext x) xs)"

lemma lpath_fun: "lpath m h xs \<Longrightarrow> lpath m h ys \<Longrightarrow> xs = ys"
proof (induction xs arbitrary: h ys)
  case Nil
  then show ?case by (cases ys) auto
next
  case (Cons a xs)
  then show ?case by (cases ys) auto
qed

lemma lpath_append: "lpath m h (xs @ a # ys) \<Longrightarrow> lpath m (Some a) (a # ys)"
  by (induction xs arbitrary: h) auto

lemma lpath_distinct: "lpath m h xs \<Longrightarrow> distinct xs"
proof (induction xs arbitrary: h)
  case (Cons a xs)
  have "a \<notin> set xs"
  proof
    assume "a \<in> set xs"
    then obtain ys zs where xs: "xs = ys @ a # zs" by (auto dest: split_list)
    have "lpath m (Some a) (a # ys @ a # zs)" using Cons.prems xs by auto
    moreover have "lpath m (Some a) (a # zs)" using lpath_append [of m h "a # ys" a zs] Cons.prems xs by simp
    ultimately have "a # ys @ a # zs = a # zs" by (rule lpath_fun)
    then show False by (metis append_Cons append_self_conv2 list.distinct(1) self_append_conv2 append_is_Nil_conv append_same_eq list.sel(3))
  qed
  then show ?case using Cons by auto
qed simp

lemma lpath_cong: "lpath m h xs \<Longrightarrow> (\<And>a. a \<in> set xs \<Longrightarrow> m' a = m a) \<Longrightarrow> lpath m' h xs"
  by (induction xs arbitrary: h) auto

lemma lpath_dom: "lpath m h xs \<Longrightarrow> a \<in> set xs \<Longrightarrow> \<exists>x. m a = Some x"
  by (induction xs arbitrary: h) auto

lemma lpath_next: "lpath m h xs \<Longrightarrow> a \<in> set xs \<Longrightarrow> m a = Some x \<Longrightarrow> nnext x = Some b \<Longrightarrow> b \<in> set xs"
proof (induction xs arbitrary: h)
  case (Cons c xs)
  then show ?case by (cases xs) auto
qed simp

lemma lpath_hd: "lpath m (Some a) xs \<Longrightarrow> a \<in> set xs"
  by (cases xs) auto

end
