(* ===== verification/Con3_Correct.thy ===== *)
theory Con3_Correct
  imports Con3
begin

text \<open>
  The invariant of the linked-list program and what follows from it: who holds which lock,
  the list the heap represents, where the walking threads stand on it, and the abstract
  list of values that every step leaves alone, appends to or removes one value from.
\<close>

subsection \<open>Critical sections\<close>

fun s_in :: "search_pc \<Rightarrow> bool" where
  "s_in S_try = False"
| "s_in _ = True"

fun i_in :: "insert_pc \<Rightarrow> bool" where
  "i_in I_start = False"
| "i_in (I_size c n) = False"
| "i_in I_try = False"
| "i_in _ = True"

fun d_in1 :: "delete_pc \<Rightarrow> bool" where
  "d_in1 D_start = False"
| "d_in1 (D_size c n) = False"
| "d_in1 D_try1 = False"
| "d_in1 _ = True"

fun d_in2 :: "delete_pc \<Rightarrow> bool" where
  "d_in2 D_got = True"
| "d_in2 (D_walk v q c) = True"
| "d_in2 (D_free p) = True"
| "d_in2 D_unlock2 = True"
| "d_in2 _ = False"

definition con3_locks :: "con3 \<Rightarrow> bool" where
  "con3_locks s \<longleftrightarrow>
     (\<forall>i. s_in (spc s i) \<longrightarrow> search_lock s = Some (Search i)) \<and>
     (\<forall>i. insert_lock s = Some (Insert i) \<longleftrightarrow> i_in (ipc s i)) \<and>
     (\<forall>i. insert_lock s = Some (Delete i) \<longleftrightarrow> d_in1 (dpc s i)) \<and>
     (\<forall>i. search_lock s = Some (Delete i) \<longleftrightarrow> d_in2 (dpc s i)) \<and>
     (\<forall>i. insert_lock s \<noteq> Some (Search i)) \<and> (\<forall>i. search_lock s \<noteq> Some (Insert i)) \<and>
     (\<forall>i\<ge>3. \<not> i_in (ipc s i) \<and> \<not> d_in1 (dpc s i))"

subsection \<open>Positions on the list\<close>

definition value_at :: "(addr \<rightharpoonup> list_node) \<Rightarrow> addr \<Rightarrow> int" where
  "value_at m a = nval (the (m a))"

definition first_of :: "addr list \<Rightarrow> addr option" where
  "first_of xs = (case xs of [] \<Rightarrow> None | x # _ \<Rightarrow> Some x)"

definition last_of :: "addr list \<Rightarrow> addr option" where
  "last_of xs = (if xs = [] then None else Some (last xs))"

text \<open>The values the searcher \<open>i\<close> has printed since it last announced a search.\<close>

fun pass :: "nat \<Rightarrow> (thread3 \<times> message3) list \<Rightarrow> int list" where
  "pass i [] = []"
| "pass i ((t, x) # ms) =
     (if t = Search i then
        (case x of Searching_list \<Rightarrow> [] | Item v \<Rightarrow> pass i ms @ [v] | _ \<Rightarrow> pass i ms)
      else pass i ms)"

fun search_at :: "(addr \<rightharpoonup> list_node) \<Rightarrow> addr list \<Rightarrow> int list \<Rightarrow> search_pc \<Rightarrow> bool" where
  "search_at m xs vs (S_walk c) \<longleftrightarrow>
     (\<exists>ys zs. xs = ys @ zs \<and> vs = map (value_at m) ys \<and> (c = None \<or> c = first_of zs))"
| "search_at m xs vs _ \<longleftrightarrow> True"

definition fresh_node :: "(addr \<rightharpoonup> list_node) \<Rightarrow> addr list \<Rightarrow> addr \<Rightarrow> bool" where
  "fresh_node m xs b \<longleftrightarrow> b \<notin> set xs \<and> (\<exists>n. m b = Some n \<and> nnext n = None)"

fun insert_at :: "(addr \<rightharpoonup> list_node) \<Rightarrow> addr list \<Rightarrow> insert_pc \<Rightarrow> bool" where
  "insert_at m xs (I_link b) \<longleftrightarrow> fresh_node m xs b"
| "insert_at m xs (I_walk b p) \<longleftrightarrow> fresh_node m xs b \<and> p \<in> set xs"
| "insert_at m xs (I_write b p) \<longleftrightarrow>
     fresh_node m xs b \<and> p \<in> set xs \<and> (\<exists>x. m p = Some x \<and> nnext x = None)"
| "insert_at m xs _ \<longleftrightarrow> True"

fun delete_at :: "(addr \<rightharpoonup> list_node) \<Rightarrow> addr list \<Rightarrow> delete_pc \<Rightarrow> bool" where
  "delete_at m xs (D_walk w q c) \<longleftrightarrow>
     (\<exists>ys zs. xs = ys @ zs \<and> q = last_of ys \<and> c = first_of zs \<and> (\<forall>a\<in>set ys. value_at m a \<noteq> w))"
| "delete_at m xs (D_free p) \<longleftrightarrow> p \<notin> set xs \<and> m p \<noteq> None"
| "delete_at m xs _ \<longleftrightarrow> True"

definition con3_shape :: "addr list \<Rightarrow> con3 \<Rightarrow> bool" where
  "con3_shape xs s \<longleftrightarrow>
     lpath (nodes s) (head s) xs \<and>
     (\<forall>i. search_at (nodes s) xs (pass i (out s)) (spc s i)) \<and>
     (\<forall>i. insert_at (nodes s) xs (ipc s i)) \<and>
     (\<forall>i. delete_at (nodes s) xs (dpc s i))"

text \<open>A thread can fault while it counts the list, and an inserter on a failed \<^verbatim>\<open>malloc\<close>.\<close>

definition counting :: "con3 \<Rightarrow> thread3 \<Rightarrow> bool" where
  "counting s t \<longleftrightarrow>
     (case t of
        Search i \<Rightarrow> False
      | Insert i \<Rightarrow> (\<exists>p n. ipc s i = I_size (Some p) n)
      | Delete i \<Rightarrow> (\<exists>p n. dpc s i = D_size (Some p) n))"

definition allocating :: "con3 \<Rightarrow> thread3 \<Rightarrow> bool" where
  "allocating s t \<longleftrightarrow> (\<exists>i. t = Insert i \<and> ipc s i = I_alloc)"

definition con3_faults :: "con3 \<Rightarrow> bool" where
  "con3_faults s \<longleftrightarrow> (\<forall>t. fault s = Some t \<longrightarrow> counting s t \<or> allocating s t)"

text \<open>The abstract list: one value appended at the end, or the first copy of a value removed.\<close>

definition contents :: "con3 \<Rightarrow> int list \<Rightarrow> bool" where
  "contents s vs \<longleftrightarrow> (\<exists>xs. lpath (nodes s) (head s) xs \<and> vs = map (value_at (nodes s)) xs)"

definition list_step :: "int list \<Rightarrow> int list \<Rightarrow> bool" where
  "list_step vs ws \<longleftrightarrow>
     ws = vs \<or> (vs \<noteq> [] \<and> (\<exists>v. ws = vs @ [v])) \<or> (\<exists>v\<in>set vs. ws = remove1 v vs)"

definition moved :: "addr list \<Rightarrow> con3 \<Rightarrow> con3 \<Rightarrow> bool" where
  "moved xs s t \<longleftrightarrow>
     (\<exists>ys. con3_shape ys t \<and> list_step (map (value_at (nodes s)) xs) (map (value_at (nodes t)) ys))"

lemmas con3_defs = con3_search_def con3_insert_def con3_delete_def set_spc_def set_ipc_def set_dpc_def print3_def

text \<open>\<^verbatim>\<open>main\<close> has put one value on the list.\<close>

definition list_start :: "int list \<Rightarrow> bool" where
  "list_start vs \<longleftrightarrow> (\<exists>v. 0 \<le> v \<and> v < 10 \<and> vs = [v])"

definition con3_inv :: "con3 \<Rightarrow> bool" where
  "con3_inv s \<longleftrightarrow> con3_locks s \<and> con3_faults s \<and> (\<exists>xs. con3_shape xs s)"

subsection \<open>Locks\<close>

lemma con3_locksD:
  assumes "con3_locks s"
  shows "s_in (spc s i) \<Longrightarrow> search_lock s = Some (Search i)"
    "insert_lock s = Some (Insert i) \<longleftrightarrow> i_in (ipc s i)"
    "insert_lock s = Some (Delete i) \<longleftrightarrow> d_in1 (dpc s i)"
    "search_lock s = Some (Delete i) \<longleftrightarrow> d_in2 (dpc s i)"
    "3 \<le> i \<Longrightarrow> \<not> i_in (ipc s i) \<and> \<not> d_in1 (dpc s i)"
  using assms unfolding con3_locks_def by blast+

lemma con3_locks_search:
  assumes "con3_locks s"
  shows "con3_locks (con3_search i s)"
proof (cases "s_in (spc s i)")
  case True
  with con3_locksD(1) [OF assms True] assms show ?thesis
    by (cases "spc s i")
      (auto simp: con3_locks_def con3_search_def set_spc_def print3_def split: option.splits)
next
  case False
  with assms show ?thesis
    by (cases "spc s i") (auto simp: con3_locks_def con3_search_def set_spc_def)
qed

lemma con3_locks_insert:
  assumes "con3_locks s" "i < 3"
  shows "con3_locks (con3_insert i v a s)"
proof (cases "i_in (ipc s i)")
  case True
  then have "insert_lock s = Some (Insert i)" using con3_locksD(2) [OF assms(1)] by blast
  with True assms show ?thesis
    by (cases "ipc s i")
      (auto simp: con3_locks_def con3_insert_def set_ipc_def print3_def split: option.splits)
next
  case False
  with assms show ?thesis
    by (cases "ipc s i") (auto simp: con3_locks_def con3_insert_def set_ipc_def split: option.splits size_round.splits)
qed

lemma unlink_frame:
  assumes "unlink q p x s = Some u"
  shows "search_lock u = search_lock s" "insert_lock u = insert_lock s" "spc u = spc s" "ipc u = ipc s"
    "dpc u = dpc s" "fault u = fault s" "out u = out s"
  using assms by (auto simp: unlink_def split: if_splits option.splits)

lemma con3_locks_delete:
  assumes "con3_locks s" "i < 3"
  shows "con3_locks (con3_delete i v s)"
proof (cases "d_in1 (dpc s i)")
  case True
  then have "insert_lock s = Some (Delete i)" using con3_locksD(3) [OF assms(1)] by blast
  moreover have "search_lock s = Some (Delete i) \<longleftrightarrow> d_in2 (dpc s i)" by (rule con3_locksD(4) [OF assms(1)])
  ultimately show ?thesis using True assms
    by (cases "dpc s i")
      (auto simp: con3_locks_def con3_delete_def set_dpc_def print3_def unlink_frame split: option.splits)
next
  case False
  with assms show ?thesis
    by (cases "dpc s i") (auto simp: con3_locks_def con3_delete_def set_dpc_def split: option.splits size_round.splits)
qed

lemma con3_locks_main: "con3_locks (con3_main a v)"
  by (simp add: con3_locks_def con3_main_def)

subsection \<open>The list under the updates of the program\<close>

lemma first_of_simps [simp]: "first_of [] = None" "first_of (x # xs) = Some x"
  by (simp_all add: first_of_def)

lemma last_of_simps [simp]: "last_of [] = None" "last_of (xs @ [x]) = Some x"
  by (simp_all add: last_of_def)

lemma first_of_None [simp]: "first_of xs = None \<longleftrightarrow> xs = []" "None = first_of xs \<longleftrightarrow> xs = []"
  by (cases xs, simp_all)+

lemma first_of_Some: "first_of xs = Some p \<longleftrightarrow> (\<exists>zs. xs = p # zs)"
  by (cases xs) auto

lemma last_of_None [simp]: "last_of xs = None \<longleftrightarrow> xs = []"
  by (simp add: last_of_def)

lemma last_of_Some: "last_of xs = Some q \<longleftrightarrow> (\<exists>ys. xs = ys @ [q])"
  by (cases xs rule: rev_cases) (auto simp: last_of_def)

lemma lpath_first: "lpath m h xs \<Longrightarrow> h = first_of xs"
  by (cases xs) auto

lemma lpath_at: "lpath m h (ys @ p # zs) \<Longrightarrow> m p = Some x \<Longrightarrow> nnext x = first_of zs"
  by (induction ys arbitrary: h) (auto dest: lpath_first)

lemma lpath_end:
  assumes "lpath m h xs" "p \<in> set xs" "m p = Some x" "nnext x = None"
  shows "\<exists>ys. xs = ys @ [p]"
proof -
  obtain ys zs where xs: "xs = ys @ p # zs" using assms(2) by (auto dest: split_list)
  then have "first_of zs = None" using lpath_at [of m h ys p zs x] assms by simp
  then show ?thesis using xs by simp
qed

lemma lpath_append_node:
  assumes "lpath m h (ys @ [p])" "m p = Some x" "m b = Some n" "nnext n = None" "b \<notin> set (ys @ [p])"
  shows "lpath (m(p \<mapsto> x\<lparr>nnext := Some b\<rparr>)) h (ys @ [p, b])"
  using assms lpath_distinct [OF assms(1)] by (induction ys arbitrary: h) auto

lemma lpath_remove_node:
  assumes "lpath m h (ys @ q # p # zs)" "m q = Some y" "m p = Some x"
  shows "lpath (m(q \<mapsto> y\<lparr>nnext := nnext x\<rparr>)) h (ys @ q # zs)"
  using assms lpath_distinct [OF assms(1)]
proof (induction ys arbitrary: h)
  case Nil
  then have "lpath m (nnext x) zs" "q \<notin> set zs" by auto
  then have "lpath (m(q \<mapsto> y\<lparr>nnext := nnext x\<rparr>)) (nnext x) zs" by (auto intro: lpath_cong)
  then show ?case using Nil by (auto simp: fun_upd_def)
qed auto

lemma value_at_next [simp]: "m q = Some y \<Longrightarrow> value_at (m(q \<mapsto> y\<lparr>nnext := k\<rparr>)) = value_at m"
  by (auto simp: value_at_def fun_eq_iff)

lemma value_at_other [simp]: "a \<noteq> b \<Longrightarrow> value_at (m(b := z)) a = value_at m a"
  by (simp add: value_at_def)

lemma pass_other [simp]: "t \<noteq> Search i \<Longrightarrow> pass i ((t, x) # ms) = pass i ms"
  by simp

subsection \<open>Positions under the updates\<close>

text \<open>A change of the heap away from the list and from the nodes a thread holds.\<close>

lemma map_value_cong:
  assumes "\<And>a. a \<in> set xs \<Longrightarrow> m' a = m a" "set ys \<subseteq> set xs"
  shows "map (value_at m') ys = map (value_at m) ys"
  using assms by (auto simp: value_at_def subset_iff)

lemma search_at_walkI:
  "xs = ys @ zs \<Longrightarrow> vs = map (value_at m) ys \<Longrightarrow> c = None \<or> c = first_of zs \<Longrightarrow> search_at m xs vs (S_walk c)"
  unfolding search_at.simps by blast

lemma delete_at_walkI:
  "xs = ys @ zs \<Longrightarrow> q = last_of ys \<Longrightarrow> c = first_of zs \<Longrightarrow> \<forall>a\<in>set ys. value_at m a \<noteq> w \<Longrightarrow>
   delete_at m xs (D_walk w q c)"
  unfolding delete_at.simps by blast

lemma search_at_cong:
  assumes "search_at m xs vs c" "\<And>a. a \<in> set xs \<Longrightarrow> m' a = m a"
  shows "search_at m' xs vs c"
proof (cases c)
  case (S_walk k)
  with assms(1) obtain ys zs where *: "xs = ys @ zs" "vs = map (value_at m) ys" "k = None \<or> k = first_of zs"
    by auto
  have "map (value_at m') ys = map (value_at m) ys" using assms(2) *(1) by (intro map_value_cong [of xs]) auto
  then have "search_at m' xs vs (S_walk k)" using * by (intro search_at_walkI [of xs ys zs]) auto
  then show ?thesis using S_walk by simp
qed auto

lemma search_at_append:
  assumes "search_at m xs vs c"
  shows "search_at m (xs @ us) vs c"
proof (cases c)
  case (S_walk k)
  with assms obtain ys zs where *: "xs = ys @ zs" "vs = map (value_at m) ys" "k = None \<or> k = first_of zs"
    by auto
  have "k = None \<or> k = first_of (zs @ us)" using *(3) by (cases zs) auto
  then have "search_at m (xs @ us) vs (S_walk k)" using * by (intro search_at_walkI [of _ ys "zs @ us"]) auto
  then show ?thesis using S_walk by simp
qed auto

lemma search_at_next: "m q = Some y \<Longrightarrow> search_at (m(q \<mapsto> y\<lparr>nnext := k\<rparr>)) xs vs c = search_at m xs vs c"
  by (cases c) simp_all

text \<open>Outside their critical sections the threads stand nowhere.\<close>

lemma search_at_out: "\<not> s_in c \<Longrightarrow> search_at m xs vs c"
  by (cases c) auto

lemma insert_at_out: "\<not> i_in c \<Longrightarrow> insert_at m xs c"
  by (cases c) auto

lemma delete_at_out: "\<not> d_in2 c \<Longrightarrow> delete_at m xs c"
  by (cases c) auto

lemma con3_exclusion:
  assumes "con3_locks s"
  shows "i_in (ipc s i) \<Longrightarrow> \<not> d_in1 (dpc s j)" "i_in (ipc s i) \<Longrightarrow> j \<noteq> i \<Longrightarrow> \<not> i_in (ipc s j)"
    "d_in1 (dpc s i) \<Longrightarrow> j \<noteq> i \<Longrightarrow> \<not> d_in1 (dpc s j)" "d_in2 (dpc s i) \<Longrightarrow> \<not> s_in (spc s j)"
    "s_in (spc s i) \<Longrightarrow> j \<noteq> i \<Longrightarrow> \<not> s_in (spc s j)"
  using con3_locksD [OF assms] by (metis option.inject thread3.distinct thread3.inject)+

lemma d_in2_in1: "d_in2 c \<Longrightarrow> d_in1 c"
  by (cases c) auto

subsection \<open>The shape is kept\<close>

lemma con3_shapeD:
  assumes "con3_shape xs s"
  shows "lpath (nodes s) (head s) xs" "search_at (nodes s) xs (pass i (out s)) (spc s i)"
    "insert_at (nodes s) xs (ipc s i)" "delete_at (nodes s) xs (dpc s i)"
  using assms unfolding con3_shape_def by blast+

lemma con3_shape_locks [simp]:
  "con3_shape xs (s\<lparr>search_lock := l\<rparr>) = con3_shape xs s"
  "con3_shape xs (s\<lparr>insert_lock := l\<rparr>) = con3_shape xs s"
  "con3_shape xs (s\<lparr>fault := f\<rparr>) = con3_shape xs s"
  by (simp_all add: con3_shape_def)

lemma con3_shape_spc:
  "con3_shape xs s \<Longrightarrow> search_at (nodes s) xs (pass i (out s)) c \<Longrightarrow> con3_shape xs (set_spc i c s)"
  by (simp add: con3_shape_def set_spc_def)

lemma con3_shape_ipc: "con3_shape xs s \<Longrightarrow> insert_at (nodes s) xs c \<Longrightarrow> con3_shape xs (set_ipc i c s)"
  by (simp add: con3_shape_def set_ipc_def)

lemma con3_shape_dpc: "con3_shape xs s \<Longrightarrow> delete_at (nodes s) xs c \<Longrightarrow> con3_shape xs (set_dpc i c s)"
  by (simp add: con3_shape_def set_dpc_def)

lemma con3_shape_print: "con3_shape xs s \<Longrightarrow> (\<And>i. t \<noteq> Search i) \<Longrightarrow> con3_shape xs (print3 t x s)"
  by (simp add: con3_shape_def print3_def)

lemma con3_shape_say:
  assumes "con3_shape xs s" "search_at (nodes s) xs (pass i ((Search i, x) # out s)) c"
  shows "con3_shape xs (set_spc i c (print3 (Search i) x s))"
  using assms by (simp add: con3_shape_def set_spc_def print3_def)

lemma search_next:
  assumes "con3_shape xs s" "spc s i = S_walk (Some p)"
  obtains ys zs n where "xs = ys @ p # zs" "nodes s p = Some n" "nnext n = first_of zs"
    "pass i (out s) = map (value_at (nodes s)) ys"
proof -
  obtain ys us where *: "xs = ys @ us" "pass i (out s) = map (value_at (nodes s)) ys" "first_of us = Some p"
    using con3_shapeD(2) [OF assms(1), of i] assms(2) by auto
  then obtain zs where us: "us = p # zs" by (auto simp: first_of_Some)
  obtain n where n: "nodes s p = Some n" using lpath_dom [OF con3_shapeD(1) [OF assms(1)], of p] * us by auto
  have "nnext n = first_of zs" using lpath_at [of "nodes s" "head s" ys p zs n] con3_shapeD(1) [OF assms(1)] * us n by simp
  then show ?thesis using that * us n by blast
qed

lemma search_shape:
  assumes "con3_shape xs s"
  shows "con3_shape xs (con3_search i s) \<and> fault (con3_search i s) = fault s
    \<and> nodes (con3_search i s) = nodes s \<and> head (con3_search i s) = head s"
proof (cases "spc s i")
  case S_got
  have "head s = first_of xs" by (rule lpath_first [OF con3_shapeD(1) [OF assms]])
  then have "search_at (nodes s) xs (pass i ((Search i, Searching_list) # out s)) (S_walk (head s))"
    by (intro search_at_walkI [of xs "[]" xs]) simp_all
  then show ?thesis using assms S_got
    by (auto simp: con3_search_def con3_shape_say split: option.split) (auto simp: set_spc_def print3_def)
next
  case (S_walk c)
  show ?thesis
  proof (cases c)
    case None
    then show ?thesis using assms S_walk
      by (auto simp: con3_search_def con3_shape_say) (auto simp: set_spc_def print3_def)
  next
    case (Some p)
    obtain ys zs n where *: "xs = ys @ p # zs" "nodes s p = Some n" "nnext n = first_of zs"
      "pass i (out s) = map (value_at (nodes s)) ys"
      using search_next assms S_walk unfolding Some by blast
    then have "search_at (nodes s) xs (pass i ((Search i, Item (nval n)) # out s)) (S_walk (nnext n))"
      by (intro search_at_walkI [of xs "ys @ [p]" zs]) (simp_all add: value_at_def)
    then show ?thesis using assms S_walk Some *(2)
      by (auto simp: con3_search_def con3_shape_say simp del: pass.simps) (auto simp: set_spc_def print3_def)
  qed
qed (auto simp: con3_search_def con3_shape_spc assms, auto simp: set_spc_def)

lemma moved_same: "con3_shape xs t \<Longrightarrow> nodes t = nodes s \<Longrightarrow> moved xs s t"
  unfolding moved_def list_step_def by metis

lemma moved_fault: "con3_shape xs s \<Longrightarrow> moved xs s (s\<lparr>fault := f\<rparr>)"
  by (simp add: moved_same)

lemma moved_set_ipc:
  assumes "con3_shape xs s" "insert_at (nodes s) xs c"
  shows "moved xs s (set_ipc i c s)" "moved xs s (set_ipc i c (s\<lparr>insert_lock := l\<rparr>))"
  using assms con3_shape_ipc [of xs s c i] con3_shape_ipc [of xs "s\<lparr>insert_lock := l\<rparr>" c i]
  by (auto intro!: moved_same simp: set_ipc_def)

lemma others_at:
  assumes "con3_locks s" "i_in (ipc s i)"
  shows "j \<noteq> i \<Longrightarrow> insert_at m xs (ipc s j)" "delete_at m xs (dpc s k)"
  using con3_exclusion(1,2) [OF assms] d_in2_in1 insert_at_out delete_at_out by metis+

lemma alloc_shape:
  assumes "con3_shape xs s" "con3_locks s" "ipc s i = I_alloc" "nodes s b = None"
    and t: "t = set_ipc i (I_link b) (print3 (Insert i) y (s\<lparr>nodes := (nodes s)(b \<mapsto> \<lparr>nval = v, nnext = None\<rparr>)\<rparr>))"
  shows "moved xs s t"
proof -
  let ?m = "(nodes s)(b \<mapsto> \<lparr>nval = v, nnext = None\<rparr>)"
  have b: "b \<notin> set xs" using lpath_dom [OF con3_shapeD(1) [OF assms(1)], of b] assms(4) by auto
  have same: "\<And>a. a \<in> set xs \<Longrightarrow> ?m a = nodes s a" using b by auto
  have "i_in (ipc s i)" using assms(3) by simp
  note others = others_at [OF assms(2) this]
  have "lpath ?m (head s) xs" by (rule lpath_cong [OF con3_shapeD(1) [OF assms(1)] same])
  moreover have "search_at ?m xs (pass j (out s)) (spc s j)" for j
    by (rule search_at_cong [OF con3_shapeD(2) [OF assms(1)] same])
  moreover have "insert_at ?m xs (I_link b)" using b by (simp add: fresh_node_def)
  ultimately have "con3_shape xs t"
    using others(1) [of _ ?m xs] others(2) [of ?m xs] by (auto simp: con3_shape_def t set_ipc_def print3_def)
  moreover have "map (value_at (nodes t)) xs = map (value_at (nodes s)) xs"
    using same by (intro map_value_cong [of xs]) (auto simp: t set_ipc_def print3_def)
  ultimately show ?thesis unfolding moved_def list_step_def by metis
qed

lemma append_shape:
  assumes "con3_shape xs s" "con3_locks s" "ipc s i = I_write b p" "nodes s p = Some x"
    and t: "t = set_ipc i I_unlock (s\<lparr>nodes := (nodes s)(p \<mapsto> x\<lparr>nnext := Some b\<rparr>)\<rparr>)"
  shows "moved xs s t" "xs \<noteq> []" "con3_shape (xs @ [b]) t" "value_at (nodes t) = value_at (nodes s)"
proof -
  let ?m = "(nodes s)(p \<mapsto> x\<lparr>nnext := Some b\<rparr>)"
  note path = con3_shapeD(1) [OF assms(1)]
  have at: "b \<notin> set xs" "p \<in> set xs" "nnext x = None" "\<exists>n. nodes s b = Some n \<and> nnext n = None"
    using con3_shapeD(3) [OF assms(1), of i] assms(3,4) by (auto simp: fresh_node_def)
  obtain ys where xs: "xs = ys @ [p]" using lpath_end [OF path at(2) assms(4) at(3)] by blast
  have "i_in (ipc s i)" using assms(3) by simp
  note others = others_at [OF assms(2) this]
  have "lpath ?m (head s) (xs @ [b])"
    using lpath_append_node [of "nodes s" "head s" ys p x b] path at assms(4) xs by auto
  moreover have "search_at ?m (xs @ [b]) (pass j (out s)) (spc s j)" for j
    unfolding search_at_next [of "nodes s", OF assms(4)] by (rule search_at_append [OF con3_shapeD(2) [OF assms(1)]])
  ultimately show shape: "con3_shape (xs @ [b]) t"
    using others(1) [of _ ?m "xs @ [b]"] others(2) [of ?m "xs @ [b]"] by (auto simp: con3_shape_def t set_ipc_def)
  show same: "value_at (nodes t) = value_at (nodes s)" using assms(4) by (simp add: t set_ipc_def)
  show "xs \<noteq> []" using xs by simp
  then have "list_step (map (value_at (nodes s)) xs) (map (value_at (nodes t)) (xs @ [b]))"
    unfolding same list_step_def by simp
  then show "moved xs s t" using shape unfolding moved_def by blast
qed

lemma insert_next:
  assumes "con3_shape xs s" "ipc s i = I_walk b p"
  obtains x where "nodes s p = Some x" "nnext x = None \<Longrightarrow> insert_at (nodes s) xs (I_write b p)"
    "\<And>q. nnext x = Some q \<Longrightarrow> insert_at (nodes s) xs (I_walk b q)"
proof -
  have at: "fresh_node (nodes s) xs b" "p \<in> set xs" using con3_shapeD(3) [OF assms(1), of i] assms(2) by auto
  obtain x where "nodes s p = Some x" using lpath_dom [OF con3_shapeD(1) [OF assms(1)] at(2)] by blast
  then show ?thesis using that at lpath_next [OF con3_shapeD(1) [OF assms(1)] at(2)] by auto
qed

lemma insert_shape:
  assumes "con3_shape xs s" "con3_locks s" "unused a s"
  shows "moved xs s (con3_insert i v a s) \<and>
    (fault (con3_insert i v a s) = fault s \<or> con3_insert i v a s = s\<lparr>fault := Some (Insert i)\<rparr> \<and>
      (counting s (Insert i) \<or> allocating s (Insert i)))"
proof (cases "ipc s i")
  case (I_size c n)
  then show ?thesis using assms
    by (auto simp: con3_insert_def counting_def linked_list_size_fault intro!: moved_set_ipc(1) moved_fault split: size_round.splits)
      (auto simp: set_ipc_def)
next
  case I_alloc
  show ?thesis
  proof (cases a)
    case None
    then show ?thesis using assms I_alloc by (auto simp: con3_insert_def allocating_def intro!: moved_same)
  next
    case (Some b)
    have "fault (con3_insert i v a s) = fault s"
      using Some I_alloc by (simp add: con3_insert_def set_ipc_def print3_def)
    moreover have "moved xs s (con3_insert i v a s)"
      using alloc_shape [OF assms(1,2) I_alloc] Some I_alloc assms(3)
      by (simp add: con3_insert_def unused_def)
    ultimately show ?thesis by blast
  qed
next
  case (I_link b)
  have "fresh_node (nodes s) xs b" using con3_shapeD(3) [OF assms(1), of i] I_link by simp
  moreover have "head s = Some p \<Longrightarrow> p \<in> set xs" for p
    using lpath_hd con3_shapeD(1) [OF assms(1)] by metis
  ultimately show ?thesis using assms(1) I_link
    by (auto simp: con3_insert_def intro!: moved_set_ipc split: option.split) (auto simp: set_ipc_def)
next
  case (I_walk b p)
  obtain x where "nodes s p = Some x" "nnext x = None \<Longrightarrow> insert_at (nodes s) xs (I_write b p)"
    "\<And>q. nnext x = Some q \<Longrightarrow> insert_at (nodes s) xs (I_walk b q)"
    using insert_next [OF assms(1) I_walk] by blast
  then show ?thesis using assms(1) I_walk
    by (cases "nnext x") (auto simp: con3_insert_def simp del: insert_at.simps intro!: moved_set_ipc, auto simp: set_ipc_def)
next
  case (I_write b p)
  then obtain x where x: "nodes s p = Some x" using con3_shapeD(3) [OF assms(1), of i] by auto
  have "fault (con3_insert i v a s) = fault s" using I_write x by (simp add: con3_insert_def set_ipc_def)
  moreover have "moved xs s (con3_insert i v a s)"
    using append_shape(1) [OF assms(1,2) I_write x] I_write x by (simp add: con3_insert_def)
  ultimately show ?thesis by blast
qed (use assms(1) in \<open>auto simp: con3_insert_def intro!: moved_set_ipc\<close>, auto simp: set_ipc_def)

lemma moved_set_dpc:
  assumes "con3_shape xs s" "delete_at (nodes s) xs c"
  shows "moved xs s (set_dpc i c s)" "moved xs s (set_dpc i c (s\<lparr>insert_lock := l\<rparr>))"
    "moved xs s (set_dpc i c (s\<lparr>search_lock := l\<rparr>))"
  using assms con3_shape_dpc [of xs s c i] con3_shape_dpc [of xs "s\<lparr>insert_lock := l\<rparr>" c i]
    con3_shape_dpc [of xs "s\<lparr>search_lock := l\<rparr>" c i]
  by (auto intro!: moved_same simp: set_dpc_def)

lemma others_at_delete:
  assumes "con3_locks s" "d_in2 (dpc s i)"
  shows "search_at m xs vs (spc s k)" "insert_at m xs (ipc s k)" "j \<noteq> i \<Longrightarrow> delete_at m xs (dpc s j)"
proof -
  note in1 = d_in2_in1 [OF assms(2)]
  show "search_at m xs vs (spc s k)" by (rule search_at_out [OF con3_exclusion(4) [OF assms]])
  show "insert_at m xs (ipc s k)" using con3_exclusion(1) [OF assms(1)] in1 insert_at_out by metis
  show "delete_at m xs (dpc s j)" if "j \<noteq> i"
    using con3_exclusion(3) [OF assms(1) in1 that] d_in2_in1 delete_at_out by metis
qed

lemma delete_at_walk:
  assumes "con3_shape xs s" "dpc s i = D_walk w q (Some p)"
  obtains ys zs x where "xs = ys @ p # zs" "q = last_of ys" "\<forall>a\<in>set ys. value_at (nodes s) a \<noteq> w"
    "nodes s p = Some x" "nnext x = first_of zs"
proof -
  obtain ys us where *: "xs = ys @ us" "q = last_of ys" "first_of us = Some p" "\<forall>a\<in>set ys. value_at (nodes s) a \<noteq> w"
    using con3_shapeD(4) [OF assms(1), of i] assms(2) by auto
  then obtain zs where us: "us = p # zs" by (auto simp: first_of_Some)
  obtain x where x: "nodes s p = Some x" using lpath_dom [OF con3_shapeD(1) [OF assms(1)], of p] * us by auto
  have "nnext x = first_of zs" using lpath_at [of "nodes s" "head s" ys p zs x] con3_shapeD(1) [OF assms(1)] * us x by simp
  then show ?thesis using that * us x by blast
qed

lemma unlink_list:
  assumes "lpath (nodes s) (head s) (ys @ p # zs)" "nodes s p = Some x"
  obtains u where "unlink (last_of ys) p x s = Some u" "lpath (nodes u) (head u) (ys @ zs)"
    "value_at (nodes u) = value_at (nodes s)" "nodes u p \<noteq> None"
proof (cases ys rule: rev_cases)
  case Nil
  then show ?thesis using assms by (intro that [of "s\<lparr>head := nnext x\<rparr>"]) (auto simp: unlink_def)
next
  case (snoc ys' q)
  have dist: "distinct (ys' @ q # p # zs)" using lpath_distinct [OF assms(1)] snoc by simp
  have head: "head s \<noteq> Some p" using lpath_first [OF assms(1)] dist snoc by (cases ys') auto
  obtain y where y: "nodes s q = Some y" using lpath_dom [OF assms(1), of q] snoc by auto
  have "lpath ((nodes s)(q \<mapsto> y\<lparr>nnext := nnext x\<rparr>)) (head s) (ys @ zs)"
    using lpath_remove_node [of "nodes s" "head s" ys' q p zs y x] assms snoc y by simp
  then show ?thesis using head y snoc dist assms(2)
    by (intro that [of "s\<lparr>nodes := (nodes s)(q \<mapsto> y\<lparr>nnext := nnext x\<rparr>)\<rparr>"]) (auto simp: unlink_def)
qed

lemma remove1_map_first:
  "\<forall>a\<in>set ys. f a \<noteq> w \<Longrightarrow> f p = w \<Longrightarrow> remove1 w (map f (ys @ p # zs)) = map f (ys @ zs)"
  by (induction ys) auto

lemma unlink_shape:
  assumes "con3_shape xs s" "con3_locks s" "dpc s i = D_walk w q (Some p)" "nodes s p = Some x" "nval x = w"
  obtains u us where "unlink q p x s = Some u" "fault u = fault s"
    "con3_shape us (set_dpc i (D_free p) (print3 (Delete i) y u))"
    "map (value_at (nodes u)) us = remove1 w (map (value_at (nodes s)) xs)"
    "moved xs s (set_dpc i (D_free p) (print3 (Delete i) y u))"
proof -
  obtain ys zs x' where xs: "xs = ys @ p # zs" "q = last_of ys" "\<forall>a\<in>set ys. value_at (nodes s) a \<noteq> w"
    and "nodes s p = Some x'" "nnext x' = first_of zs"
    by (rule delete_at_walk [OF assms(1,3)])
  obtain u where u: "unlink q p x s = Some u" "lpath (nodes u) (head u) (ys @ zs)"
    "value_at (nodes u) = value_at (nodes s)" "nodes u p \<noteq> None"
    unfolding xs(2) by (rule unlink_list [OF con3_shapeD(1) [OF assms(1), unfolded xs(1)] assms(4)])
  note frame = unlink_frame [OF u(1)]
  have "p \<notin> set (ys @ zs)" using lpath_distinct [OF con3_shapeD(1) [OF assms(1)]] xs(1) by simp
  then have free: "delete_at (nodes u) (ys @ zs) (D_free p)" using u(4) by simp
  have "d_in2 (dpc s i)" using assms(3) by simp
  note others = others_at_delete [OF assms(2) this]
  let ?t = "set_dpc i (D_free p) (print3 (Delete i) y u)"
  have shape: "con3_shape (ys @ zs) ?t"
    using u(2) free others(1,2) others(3) [of _ "nodes u" "ys @ zs"] frame
    by (simp add: con3_shape_def set_dpc_def print3_def)
  have "value_at (nodes s) p = w" using assms(4,5) by (simp add: value_at_def)
  then have vals: "map (value_at (nodes u)) (ys @ zs) = remove1 w (map (value_at (nodes s)) xs)"
    "w \<in> set (map (value_at (nodes s)) xs)" "nodes ?t = nodes u"
    using remove1_map_first [of ys "value_at (nodes s)" w p zs] xs u(3) by (auto simp: set_dpc_def print3_def)
  then have "list_step (map (value_at (nodes s)) xs) (map (value_at (nodes ?t)) (ys @ zs))"
    unfolding list_step_def by metis
  then have "moved xs s ?t" using shape unfolding moved_def by blast
  then show ?thesis using that [OF u(1) frame(6) shape vals(1)] by blast
qed

lemma free_shape:
  assumes "con3_shape xs s" "con3_locks s" "dpc s i = D_free p"
  shows "nodes s p \<noteq> None" "moved xs s (set_dpc i D_unlock2 (s\<lparr>nodes := (nodes s)(p := None)\<rparr>))"
proof -
  have at: "p \<notin> set xs" "nodes s p \<noteq> None" using con3_shapeD(4) [OF assms(1), of i] assms(3) by auto
  then show "nodes s p \<noteq> None" by simp
  let ?m = "(nodes s)(p := None)"
  have same: "\<And>a. a \<in> set xs \<Longrightarrow> ?m a = nodes s a" using at by auto
  have "d_in2 (dpc s i)" using assms(3) by simp
  note others = others_at_delete [OF assms(2) this]
  have "lpath ?m (head s) xs" by (rule lpath_cong [OF con3_shapeD(1) [OF assms(1)] same])
  then have "con3_shape xs (set_dpc i D_unlock2 (s\<lparr>nodes := ?m\<rparr>))"
    using others(1,2) others(3) [of _ ?m xs]
    by (simp add: con3_shape_def set_dpc_def)
  moreover have "map (value_at ?m) xs = map (value_at (nodes s)) xs"
    using same by (intro map_value_cong [of xs]) auto
  ultimately show "moved xs s (set_dpc i D_unlock2 (s\<lparr>nodes := ?m\<rparr>))"
    unfolding moved_def list_step_def by (force simp: set_dpc_def)
qed

lemma delete_pass_shape:
  assumes "con3_shape xs s" "dpc s i = D_walk w q (Some p)" "nodes s p = Some x" "nval x \<noteq> w"
  shows "delete_at (nodes s) xs (D_walk w (Some p) (nnext x))"
proof -
  obtain ys zs where *: "xs = ys @ p # zs" "\<forall>a\<in>set ys. value_at (nodes s) a \<noteq> w" "nnext x = first_of zs"
    using delete_at_walk [OF assms(1,2)] assms(3) by (metis option.inject)
  moreover have "value_at (nodes s) p \<noteq> w" using assms(3,4) by (simp add: value_at_def)
  ultimately show ?thesis
    by (intro delete_at_walkI [of xs "ys @ [p]" zs]) auto
qed

lemma delete_shape:
  assumes "con3_shape xs s" "con3_locks s"
  shows "moved xs s (con3_delete i v s) \<and>
    (fault (con3_delete i v s) = fault s \<or>
     con3_delete i v s = s\<lparr>fault := Some (Delete i)\<rparr> \<and> counting s (Delete i))"
proof (cases "dpc s i")
  case (D_size c n)
  then show ?thesis using assms
    by (auto simp: con3_delete_def counting_def linked_list_size_fault intro!: moved_set_dpc(1) moved_fault split: size_round.splits)
      (auto simp: set_dpc_def)
next
  case D_got
  have "head s = first_of xs" by (rule lpath_first [OF con3_shapeD(1) [OF assms(1)]])
  then have "delete_at (nodes s) xs (D_walk v None (head s))"
    by (intro delete_at_walkI [of xs "[]" xs]) simp_all
  then show ?thesis using assms(1) D_got
    by (simp add: con3_delete_def moved_set_dpc del: delete_at.simps) (simp add: set_dpc_def)
next
  case (D_walk w q c)
  show ?thesis
  proof (cases c)
    case None
    then show ?thesis using assms(1) D_walk by (simp add: con3_delete_def moved_set_dpc) (simp add: set_dpc_def)
  next
    case (Some p)
    note at = D_walk [unfolded Some]
    obtain x where x: "nodes s p = Some x" using delete_at_walk [OF assms(1) at] by metis
    show ?thesis
    proof (cases "nval x = w")
      case True
      obtain u us where u: "unlink q p x s = Some u" "fault u = fault s"
        "moved xs s (set_dpc i (D_free p) (print3 (Delete i) (Value_deleted w) u))"
        by (rule unlink_shape [OF assms at x True])
      then have eq: "con3_delete i v s = set_dpc i (D_free p) (print3 (Delete i) (Value_deleted w) u)"
        using at x True by (simp add: con3_delete_def)
      then show ?thesis using u by (simp add: set_dpc_def print3_def)
    next
      case False
      then show ?thesis using moved_set_dpc(1) [OF assms(1) delete_pass_shape [OF assms(1) at x False]] at x
        by (simp add: con3_delete_def) (simp add: set_dpc_def)
    qed
  qed
next
  case (D_free p)
  then show ?thesis using free_shape [OF assms D_free] by (auto simp: con3_delete_def set_dpc_def)
qed (use assms(1) in \<open>auto simp: con3_delete_def intro!: moved_set_dpc\<close>, auto simp: set_dpc_def)

subsection \<open>The system\<close>

lemma con3_stepE:
  assumes "con3_step s t"
  obtains i where "t = con3_search i s" "i < 3" "fault s = None"
  | i v a where "t = con3_insert i v a s" "i < 3" "0 \<le> v" "v < 10" "unused a s" "fault s = None"
  | i v where "t = con3_delete i v s" "i < 3" "0 \<le> v" "v < 10" "fault s = None"
proof -
  obtain r v a where "con3_exec (r, v, a) s = Some t" using assms unfolding con3_step_def by auto
  then show ?thesis using that by (cases r) (auto split: if_splits)
qed

lemma con3_faults_step:
  assumes "fault t = fault s \<or> t = s\<lparr>fault := Some r\<rparr> \<and> (counting s r \<or> allocating s r)" "fault s = None"
  shows "con3_faults t"
  using assms unfolding con3_faults_def counting_def allocating_def by (auto split: thread3.splits)

lemma con3_step_moved:
  assumes "con3_step s t" "con3_locks s" "con3_shape xs s"
  shows "con3_locks t" "con3_faults t" "moved xs s t"
proof -
  have "con3_locks t \<and> con3_faults t \<and> moved xs s t"
    using assms(1)
  proof (cases rule: con3_stepE)
    case (1 i)
    then show ?thesis
      using con3_locks_search [OF assms(2), of i] search_shape [OF assms(3), of i]
      by (auto intro: moved_same simp: con3_faults_def)
  next
    case (2 i v a)
    then show ?thesis
      using con3_locks_insert [OF assms(2), of i v a] insert_shape [OF assms(3,2), of a i v]
        con3_faults_step [of t s "Insert i"] by blast
  next
    case (3 i v)
    then show ?thesis
      using con3_locks_delete [OF assms(2), of i v] delete_shape [OF assms(3,2), of i v]
        con3_faults_step [of t s "Delete i"] by blast
  qed
  then show "con3_locks t" "con3_faults t" "moved xs s t" by blast+
qed

lemma con3_main_shape: "con3_shape [a] (con3_main a v)"
  by (simp add: con3_shape_def con3_main_def)

lemma contents_shape: "con3_shape xs s \<Longrightarrow> contents s vs \<longleftrightarrow> vs = map (value_at (nodes s)) xs"
  unfolding contents_def using lpath_fun con3_shapeD(1) by metis

interpretation c3: simulation con3_init con3_step con3_inv contents list_start list_step
proof
  fix s assume "con3_init s"
  then obtain a v where s: "0 \<le> v" "v < 10" "s = con3_main a v" unfolding con3_init_def by blast
  have "con3_faults s" by (simp add: s con3_faults_def con3_main_def)
  then show "con3_inv s" using con3_main_shape con3_locks_main s unfolding con3_inv_def by blast
  have "contents s [v]" unfolding contents_shape [OF con3_main_shape [of a v, folded s(3)]]
    by (simp add: s con3_main_def value_at_def)
  then show "\<exists>vs. contents s vs \<and> list_start vs" using s unfolding list_start_def by blast
next
  fix s t assume inv: "con3_inv s" and step: "con3_step s t"
  then obtain xs where *: "con3_locks s" "con3_shape xs s" unfolding con3_inv_def by blast
  note moved = con3_step_moved [OF step *]
  obtain ys where ys: "con3_shape ys t" "list_step (map (value_at (nodes s)) xs) (map (value_at (nodes t)) ys)"
    using moved(3) unfolding moved_def by blast
  show "con3_inv t" using moved ys unfolding con3_inv_def by blast
  fix vs assume "contents s vs"
  then have "vs = map (value_at (nodes s)) xs" using contents_shape [OF *(2)] by blast
  then show "\<exists>ws. contents t ws \<and> list_step vs ws" using contents_shape [OF ys(1)] ys(2) by blast
qed

end
