(* ===== verification/Con3_Solo.thy ===== *)
theory Con3_Solo
  imports Con3_Correct
begin

text \<open>
  What one thread of the linked-list program does when the scheduler lets it run alone: its loop
  comes round, its locks are free again, and the list has changed as its comments say.
\<close>

subsection \<open>Turns\<close>

text \<open>\<open>idle r t\<close>: the thread \<open>r\<close> is back at the start of its loop, the insert lock is free and no fault happened.\<close>

definition idle :: "thread3 \<Rightarrow> con3 \<Rightarrow> bool" where
  "idle r t \<longleftrightarrow>
     fault t = None \<and>
     (case r of
        Search i \<Rightarrow> spc t i = S_try \<and> search_lock t = None
      | Insert i \<Rightarrow> ipc t i = I_start \<and> insert_lock t = None
      | Delete i \<Rightarrow> dpc t i = D_start \<and> insert_lock t = None)"

definition solo :: "thread3 \<Rightarrow> con3 \<Rightarrow> (con3 \<Rightarrow> bool) \<Rightarrow> bool" where
  "solo r s P \<longleftrightarrow> (\<exists>t. run (turn r) s t \<and> P t)"

definition inserted :: "nat \<Rightarrow> int list \<Rightarrow> con3 \<Rightarrow> bool" where
  "inserted i vs t \<longleftrightarrow> idle (Insert i) t \<and> contents t vs"

definition deleted :: "nat \<Rightarrow> int list \<Rightarrow> thread3 option \<Rightarrow> con3 \<Rightarrow> bool" where
  "deleted i vs l t \<longleftrightarrow> idle (Delete i) t \<and> contents t vs \<and> search_lock t = l"

text \<open>The searcher \<open>i\<close> has the search lock and is about to try for it again, and the list is empty.\<close>

definition lost :: "nat \<Rightarrow> con3 \<Rightarrow> bool" where
  "lost i s \<longleftrightarrow> search_lock s = Some (Search i) \<and> spc s i = S_try \<and> head s = None"

lemma solo_done: "P s \<Longrightarrow> solo r s P"
  unfolding solo_def using run.run_refl [of "turn r" s] by blast

lemma solo_step: "turn r s t \<Longrightarrow> solo r t P \<Longrightarrow> solo r s P"
  unfolding solo_def using run.run_more [of "turn r" s t] by blast

lemma turn_search: "fault s = None \<Longrightarrow> i < 3 \<Longrightarrow> turn (Search i) s (con3_search i s)"
  unfolding turn_def by (rule exI [of _ 0], rule exI [of _ None]) (simp add: unused_def)

lemma turn_alloc:
  "fault s = None \<Longrightarrow> i < 3 \<Longrightarrow> 0 \<le> v \<Longrightarrow> v < 10 \<Longrightarrow> nodes s b = None \<Longrightarrow> turn (Insert i) s (con3_insert i v (Some b) s)"
  unfolding turn_def by (rule exI [of _ v], rule exI [of _ "Some b"]) (simp add: unused_def)

lemma turn_insert: "fault s = None \<Longrightarrow> i < 3 \<Longrightarrow> turn (Insert i) s (con3_insert i 0 None s)"
  unfolding turn_def by (rule exI [of _ 0], rule exI [of _ None]) (simp add: unused_def)

lemma turn_delete: "fault s = None \<Longrightarrow> i < 3 \<Longrightarrow> 0 \<le> v \<Longrightarrow> v < 10 \<Longrightarrow> turn (Delete i) s (con3_delete i v s)"
  unfolding turn_def by (rule exI [of _ v], rule exI [of _ None]) (simp add: unused_def)

lemma inv_turn: "con3_inv s \<Longrightarrow> turn r s t \<Longrightarrow> con3_inv t"
  by (rule c3.step_inv) (auto simp only: turn_def con3_step_def)

lemma inv_shape:
  assumes "con3_inv s"
  obtains xs where "con3_locks s" "con3_shape xs s"
  using assms unfolding con3_inv_def by blast

lemma inv_set_ipc:
  assumes "con3_inv s" "\<not> i_in (ipc s i)" "\<not> i_in c" "fault s = None"
  shows "con3_inv (set_ipc i c s)"
proof -
  obtain xs where "con3_locks s" "con3_shape xs s" by (rule inv_shape [OF assms(1)])
  moreover from this have "con3_shape xs (set_ipc i c s)" by (intro con3_shape_ipc insert_at_out assms)
  ultimately show ?thesis using assms by (auto simp: con3_inv_def con3_locks_def con3_faults_def set_ipc_def)
qed

lemma inv_set_dpc:
  assumes "con3_inv s" "\<not> d_in1 (dpc s i)" "\<not> d_in1 c" "fault s = None"
  shows "con3_inv (set_dpc i c s)"
proof -
  have out: "\<not> d_in2 (dpc s i)" "\<not> d_in2 c" using assms(2,3) d_in2_in1 by blast+
  obtain xs where "con3_locks s" "con3_shape xs s" by (rule inv_shape [OF assms(1)])
  moreover from this have "con3_shape xs (set_dpc i c s)" by (intro con3_shape_dpc delete_at_out out)
  ultimately show ?thesis using assms out by (auto simp: con3_inv_def con3_locks_def con3_faults_def set_dpc_def)
qed

lemma set_pc_simps [simp]:
  "nodes (set_spc i c s) = nodes s" "head (set_spc i c s) = head s" "fault (set_spc i c s) = fault s"
  "search_lock (set_spc i c s) = search_lock s" "insert_lock (set_spc i c s) = insert_lock s"
  "spc (set_spc i c s) = (spc s)(i := c)" "out (set_spc i c s) = out s"
  "nodes (set_ipc i e s) = nodes s" "head (set_ipc i e s) = head s" "fault (set_ipc i e s) = fault s"
  "search_lock (set_ipc i e s) = search_lock s" "insert_lock (set_ipc i e s) = insert_lock s"
  "ipc (set_ipc i e s) = (ipc s)(i := e)" "out (set_ipc i e s) = out s"
  "nodes (set_dpc i d s) = nodes s" "head (set_dpc i d s) = head s" "fault (set_dpc i d s) = fault s"
  "search_lock (set_dpc i d s) = search_lock s" "insert_lock (set_dpc i d s) = insert_lock s"
  "dpc (set_dpc i d s) = (dpc s)(i := d)" "out (set_dpc i d s) = out s"
  by (simp_all add: set_spc_def set_ipc_def set_dpc_def)

lemma set_pc_same:
  "spc s i = c \<Longrightarrow> set_spc i c s = s" "ipc s i = e \<Longrightarrow> set_ipc i e s = s" "dpc s i = d \<Longrightarrow> set_dpc i d s = s"
  by (auto simp: set_spc_def set_ipc_def set_dpc_def fun_upd_idem)

lemma set_pc_twice [simp]:
  "set_spc i c (set_spc i c' s) = set_spc i c s" "set_ipc i e (set_ipc i e' s) = set_ipc i e s"
  "set_dpc i d (set_dpc i d' s) = set_dpc i d s"
  by (auto simp: set_spc_def set_ipc_def set_dpc_def)

lemma print3_simps [simp]:
  "nodes (print3 r x s) = nodes s" "head (print3 r x s) = head s" "fault (print3 r x s) = fault s"
  "search_lock (print3 r x s) = search_lock s" "insert_lock (print3 r x s) = insert_lock s"
  "spc (print3 r x s) = spc s" "ipc (print3 r x s) = ipc s" "dpc (print3 r x s) = dpc s"
  "out (print3 r x s) = (r, x) # out s"
  by (simp_all add: print3_def)

lemma contents_cong: "nodes t = nodes s \<Longrightarrow> head t = head s \<Longrightarrow> contents t vs = contents s vs"
  by (simp add: contents_def)

subsection \<open>Counting the list\<close>

lemma size_walk_insert:
  assumes "lpath (nodes s) c zs" "ipc s i = I_size c n" "fault s = None" "i < 3"
    "solo (Insert i) (set_ipc i (I_size None (n + length zs)) s) P"
  shows "solo (Insert i) s P"
  using assms
proof (induction zs arbitrary: c n s)
  case Nil
  then show ?case by (simp add: set_pc_same)
next
  case (Cons p zs)
  then obtain x where x: "c = Some p" "nodes s p = Some x" "lpath (nodes s) (nnext x) zs" by auto
  let ?t = "set_ipc i (I_size (nnext x) (n + 1)) s"
  have "con3_insert i 0 None s = ?t" using Cons.prems x by (simp add: con3_insert_def)
  moreover have "solo (Insert i) ?t P"
    by (rule Cons.IH [where n = "n + 1" and c = "nnext x"]) (use Cons.prems x in simp_all)
  ultimately show ?case using solo_step [OF turn_insert [OF Cons.prems(3,4)]] by simp
qed

lemma size_walk_delete:
  assumes "lpath (nodes s) c zs" "dpc s i = D_size c n" "fault s = None" "i < 3"
    "solo (Delete i) (set_dpc i (D_size None (n + length zs)) s) P"
  shows "solo (Delete i) s P"
  using assms
proof (induction zs arbitrary: c n s)
  case Nil
  then show ?case by (simp add: set_pc_same)
next
  case (Cons p zs)
  then obtain x where x: "c = Some p" "nodes s p = Some x" "lpath (nodes s) (nnext x) zs" by auto
  let ?t = "set_dpc i (D_size (nnext x) (n + 1)) s"
  have "con3_delete i 0 s = ?t" using Cons.prems x by (simp add: con3_delete_def)
  moreover have "solo (Delete i) ?t P"
    by (rule Cons.IH [where n = "n + 1" and c = "nnext x"]) (use Cons.prems x in simp_all)
  ultimately show ?case using solo_step [OF turn_delete [OF Cons.prems(3,4), of 0]] by simp
qed

subsection \<open>Inserting\<close>

lemma solo_unlock_insert:
  assumes "ipc s i = I_unlock" "fault s = None" "i < 3" "contents s vs"
  shows "solo (Insert i) s (inserted i vs)"
proof (rule solo_step [OF turn_insert [OF assms(2,3)]], rule solo_done)
  show "inserted i vs (con3_insert i 0 None s)"
    using assms by (simp add: inserted_def idle_def con3_insert_def contents_def)
qed

lemma solo_write:
  assumes "con3_inv s" "ipc s i = I_write b q" "fault s = None" "i < 3" "contents s vs"
  shows "solo (Insert i) s (inserted i (vs @ [value_at (nodes s) b]))"
proof -
  obtain xs where xs: "con3_locks s" "con3_shape xs s" by (rule inv_shape [OF assms(1)])
  then obtain x where x: "nodes s q = Some x" using con3_shapeD(3) [of xs s i] assms(2) by auto
  let ?t = "set_ipc i I_unlock (s\<lparr>nodes := (nodes s)(q \<mapsto> x\<lparr>nnext := Some b\<rparr>)\<rparr>)"
  have t: "con3_insert i 0 None s = ?t" using assms(2) x by (simp add: con3_insert_def)
  note app = append_shape(3,4) [OF xs(2,1) assms(2) x HOL.refl]
  have "vs = map (value_at (nodes s)) xs" using assms(5) contents_shape [OF xs(2)] by blast
  then have "contents ?t (vs @ [value_at (nodes s) b])" unfolding contents_shape [OF app(1)] app(2) by simp
  then have "solo (Insert i) ?t (inserted i (vs @ [value_at (nodes s) b]))"
    by (intro solo_unlock_insert) (simp_all add: assms)
  then show ?thesis using solo_step [OF turn_insert [OF assms(3,4)]] t by simp
qed

lemma solo_walk:
  assumes "con3_inv s" "ipc s i = I_walk b p" "fault s = None" "i < 3" "contents s vs"
    "lpath (nodes s) (Some p) zs"
  shows "solo (Insert i) s (inserted i (vs @ [value_at (nodes s) b]))"
  using assms
proof (induction zs arbitrary: p s)
  case (Cons a zs)
  then obtain x where x: "nodes s p = Some x" "lpath (nodes s) (nnext x) zs" by auto
  let ?t = "con3_insert i 0 None s"
  note go = turn_insert [OF Cons.prems(3,4)]
  note reach = inv_turn [OF Cons.prems(1) go]
  have "solo (Insert i) ?t (inserted i (vs @ [value_at (nodes ?t) b]))"
  proof (cases "nnext x")
    case None
    then show ?thesis
      using Cons.prems x by (intro solo_write [OF reach]) (simp_all add: con3_insert_def contents_def)
  next
    case (Some q)
    then show ?thesis
      using Cons.prems x by (intro Cons.IH [OF reach]) (simp_all add: con3_insert_def contents_def)
  qed
  moreover have "nodes ?t = nodes s" using Cons.prems x by (simp add: con3_insert_def split: option.split)
  ultimately show ?case using solo_step [OF go] by simp
qed simp

lemma solo_link:
  assumes "con3_inv s" "ipc s i = I_link b" "fault s = None" "i < 3" "contents s vs"
  shows "solo (Insert i) s (inserted i (if vs = [] then [] else vs @ [value_at (nodes s) b]))"
proof -
  obtain xs where xs: "lpath (nodes s) (head s) xs" "vs = map (value_at (nodes s)) xs"
    using assms(5) unfolding contents_def by blast
  let ?t = "con3_insert i 0 None s"
  note go = turn_insert [OF assms(3,4)]
  note reach = inv_turn [OF assms(1) go]
  have "solo (Insert i) ?t (inserted i (if vs = [] then [] else vs @ [value_at (nodes s) b]))"
  proof (cases xs)
    case Nil
    then show ?thesis
      using xs assms by (intro solo_unlock_insert) (simp_all add: con3_insert_def contents_def)
  next
    case (Cons p ps)
    then have h: "head s = Some p" "vs \<noteq> []" using xs by auto
    then have t: "?t = set_ipc i (I_walk b p) s" using assms(2) by (simp add: con3_insert_def)
    have "solo (Insert i) ?t (inserted i (vs @ [value_at (nodes ?t) b]))"
      by (rule solo_walk [OF reach, where zs = xs and p = p]) (use xs h assms in \<open>simp_all add: t contents_def\<close>)
    then show ?thesis using h by (simp add: t)
  qed
  then show ?thesis using solo_step [OF go] by simp
qed

lemma contents_alloc:
  assumes "contents s vs" "nodes s b = None" "nodes t = (nodes s)(b \<mapsto> n)" "head t = head s"
  shows "contents t vs"
proof -
  obtain xs where xs: "lpath (nodes s) (head s) xs" "vs = map (value_at (nodes s)) xs"
    using assms(1) unfolding contents_def by blast
  have same: "\<And>a. a \<in> set xs \<Longrightarrow> nodes t a = nodes s a" using lpath_dom [OF xs(1)] assms(2,3) by fastforce
  have "lpath (nodes t) (head t) xs" unfolding assms(4) by (rule lpath_cong [OF xs(1) same])
  moreover have "map (value_at (nodes t)) xs = map (value_at (nodes s)) xs"
    by (rule map_value_cong [OF same subset_refl])
  ultimately show ?thesis using xs(2) unfolding contents_def by metis
qed

lemma solo_alloc:
  assumes "con3_inv s" "ipc s i = I_alloc" "fault s = None" "i < 3" "contents s vs"
    "nodes s b = None" "0 \<le> v" "v < 10"
  shows "solo (Insert i) s (inserted i (if vs = [] then [] else vs @ [v]))"
proof -
  let ?t = "con3_insert i v (Some b) s"
  note go = turn_alloc [OF assms(3,4,7,8,6)]
  have t: "nodes ?t = (nodes s)(b \<mapsto> \<lparr>nval = v, nnext = None\<rparr>)" "head ?t = head s" "ipc ?t i = I_link b"
    "fault ?t = None"
    using assms(2,3) by (simp_all add: con3_insert_def)
  have "solo (Insert i) ?t (inserted i (if vs = [] then [] else vs @ [value_at (nodes ?t) b]))"
    by (rule solo_link [OF inv_turn [OF assms(1) go] t(3,4) assms(4) contents_alloc [OF assms(5,6) t(1,2)]])
  moreover have "value_at (nodes ?t) b = v" unfolding t(1) by (simp add: value_at_def)
  ultimately have "solo (Insert i) ?t (inserted i (if vs = [] then [] else vs @ [v]))"
    by (simp cong: if_cong)
  then show ?thesis by (rule solo_step [OF go])
qed

lemma solo_insert:
  assumes "con3_inv s" "ipc s i = I_start" "insert_lock s = None" "fault s = None" "i < 3"
    "contents s vs" "length vs < 25" "nodes s b = None" "0 \<le> v" "v < 10"
  shows "solo (Insert i) s (inserted i (if vs = [] then [] else vs @ [v]))"
proof -
  obtain xs where xs: "lpath (nodes s) (head s) xs" "vs = map (value_at (nodes s)) xs"
    using assms(6) unfolding contents_def by blast
  let ?P = "inserted i (if vs = [] then [] else vs @ [v])"
  let ?s1 = "set_ipc i (I_size (head s) 0) s" and ?s3 = "set_ipc i I_try s"
  let ?s2 = "set_ipc i (I_size None (0 + length xs)) ?s1"
  let ?s4 = "set_ipc i I_alloc (?s3\<lparr>insert_lock := Some (Insert i)\<rparr>)"
  have s1: "con3_insert i 0 None s = ?s1" using assms(2) by (simp add: con3_insert_def)
  have s3: "con3_insert i 0 None ?s2 = ?s3" using xs(2) assms(7) by (simp add: con3_insert_def)
  have s4: "con3_insert i 0 None ?s3 = ?s4" using assms(3) by (simp add: con3_insert_def)
  have f: "fault s = None" "fault ?s1 = None" "fault ?s2 = None" "fault ?s3 = None" "fault ?s4 = None"
    using assms(4) by simp_all
  have "con3_inv ?s3" by (rule inv_set_ipc [OF assms(1) _ _ assms(4)]) (simp_all add: assms(2))
  from inv_turn [OF this turn_insert [OF f(4) assms(5)]] have "con3_inv ?s4" unfolding s4 .
  then have "solo (Insert i) ?s4 ?P"
    by (rule solo_alloc [where b = b]) (use assms in \<open>simp_all add: contents_def\<close>)
  then have "solo (Insert i) ?s2 ?P"
    using solo_step [OF turn_insert [OF f(3) assms(5)]] solo_step [OF turn_insert [OF f(4) assms(5)]] s3 s4 by simp
  then have "solo (Insert i) ?s1 ?P"
    by (rule size_walk_insert [where zs = xs and n = 0 and c = "head s", rotated -1]) (use xs f assms in simp_all)
  then show ?thesis using solo_step [OF turn_insert [OF f(1) assms(5)]] s1 by simp
qed

subsection \<open>Deleting\<close>

lemma turn_delete0: "fault s = None \<Longrightarrow> i < 3 \<Longrightarrow> turn (Delete i) s (con3_delete i 0 s)"
  by (rule turn_delete) simp_all

lemma solo_unlock1:
  assumes "dpc s i = D_unlock1" "fault s = None" "i < 3" "contents s vs"
  shows "solo (Delete i) s (deleted i vs (search_lock s))"
proof (rule solo_step [OF turn_delete0 [OF assms(2,3)]], rule solo_done)
  show "deleted i vs (search_lock s) (con3_delete i 0 s)"
    using assms by (simp add: deleted_def idle_def con3_delete_def contents_def)
qed

lemma solo_unlock2:
  assumes "dpc s i = D_unlock2" "fault s = None" "i < 3" "contents s vs"
  shows "solo (Delete i) s (deleted i vs None)"
proof -
  let ?t = "con3_delete i 0 s"
  have t: "dpc ?t i = D_unlock1" "fault ?t = None" "contents ?t vs" "search_lock ?t = None"
    using assms by (simp_all add: con3_delete_def contents_def)
  show ?thesis using solo_step [OF turn_delete0 [OF assms(2,3)]] solo_unlock1 [OF t(1,2) assms(3) t(3)] t(4) by simp
qed

lemma solo_free:
  assumes "con3_inv s" "dpc s i = D_free p" "fault s = None" "i < 3" "contents s vs"
  shows "solo (Delete i) s (deleted i vs None)"
proof -
  let ?t = "con3_delete i 0 s"
  obtain xs where xs: "con3_locks s" "con3_shape xs s" by (rule inv_shape [OF assms(1)])
  have at: "p \<notin> set xs" "nodes s p \<noteq> None" using con3_shapeD(4) [OF xs(2), of i] assms(2) by auto
  then have t: "?t = set_dpc i D_unlock2 (s\<lparr>nodes := (nodes s)(p := None)\<rparr>)"
    using assms(2) by (auto simp: con3_delete_def)
  have same: "\<And>a. a \<in> set xs \<Longrightarrow> nodes ?t a = nodes s a" using at(1) t by auto
  have "head ?t = head s" by (simp add: t)
  then have "lpath (nodes ?t) (head ?t) xs" using lpath_cong [OF con3_shapeD(1) [OF xs(2)] same] by metis
  moreover have "vs = map (value_at (nodes s)) xs" using assms(5) contents_shape [OF xs(2)] by blast
  then have "vs = map (value_at (nodes ?t)) xs" using map_value_cong [OF same subset_refl] by simp
  ultimately have "contents ?t vs" unfolding contents_def by blast
  then have "solo (Delete i) ?t (deleted i vs None)"
    by (intro solo_unlock2) (simp_all add: t assms)
  then show ?thesis by (rule solo_step [OF turn_delete0 [OF assms(3,4)]])
qed

lemma solo_match:
  assumes "con3_inv s" "dpc s i = D_walk w q (Some p)" "nodes s p = Some x" "nval x = w"
    "fault s = None" "i < 3" "contents s vs"
  shows "solo (Delete i) s (deleted i (remove1 w vs) None)"
proof -
  let ?t = "con3_delete i 0 s"
  obtain xs where xs: "con3_locks s" "con3_shape xs s" by (rule inv_shape [OF assms(1)])
  obtain u us where u: "unlink q p x s = Some u" "fault u = fault s"
    "con3_shape us (set_dpc i (D_free p) (print3 (Delete i) (Value_deleted w) u))"
    "map (value_at (nodes u)) us = remove1 w (map (value_at (nodes s)) xs)"
    by (rule unlink_shape [OF xs(2,1) assms(2,3,4)])
  have t: "?t = set_dpc i (D_free p) (print3 (Delete i) (Value_deleted w) u)"
    using assms(2,3,4) u(1) by (simp add: con3_delete_def)
  have "vs = map (value_at (nodes s)) xs" using assms(7) contents_shape [OF xs(2)] by blast
  then have "contents ?t (remove1 w vs)" unfolding t contents_shape [OF u(3)] using u(4) by simp
  moreover have "con3_inv ?t" by (rule inv_turn [OF assms(1) turn_delete0 [OF assms(5,6)]])
  ultimately have "solo (Delete i) ?t (deleted i (remove1 w vs) None)"
    by (intro solo_free) (simp_all add: t u(2) assms)
  then show ?thesis by (rule solo_step [OF turn_delete0 [OF assms(5,6)]])
qed

lemma solo_delete_walk:
  assumes "con3_inv s" "dpc s i = D_walk w q c" "lpath (nodes s) c zs" "fault s = None" "i < 3" "contents s vs"
  shows "solo (Delete i) s (deleted i (remove1 w vs) None)"
  using assms
proof (induction zs arbitrary: s q c)
  case Nil
  obtain xs where xs: "con3_locks s" "con3_shape xs s" by (rule inv_shape [OF Nil(1)])
  obtain ys zs where "xs = ys @ zs" "first_of zs = None" "\<forall>a\<in>set ys. value_at (nodes s) a \<noteq> w"
    using con3_shapeD(4) [OF xs(2), of i] Nil.prems by auto
  then have "\<forall>a\<in>set xs. value_at (nodes s) a \<noteq> w" by simp
  moreover have "vs = map (value_at (nodes s)) xs" using Nil.prems contents_shape [OF xs(2)] by blast
  ultimately have same: "remove1 w vs = vs" by (intro remove1_idem) auto
  have "solo (Delete i) (con3_delete i 0 s) (deleted i vs None)"
    using Nil.prems by (intro solo_unlock2) (simp_all add: con3_delete_def contents_def)
  then show ?case unfolding same by (rule solo_step [OF turn_delete0 [OF Nil.prems(4,5)]])
next
  case (Cons p zs)
  then obtain x where x: "c = Some p" "nodes s p = Some x" "lpath (nodes s) (nnext x) zs" by auto
  note go = turn_delete0 [OF Cons.prems(4,5)]
  show ?case
  proof (cases "nval x = w")
    case True
    then show ?thesis by (intro solo_match [OF Cons.prems(1) _ x(2)]) (use Cons.prems x in auto)
  next
    case False
    then have t: "con3_delete i 0 s = set_dpc i (D_walk w (Some p) (nnext x)) s"
      using Cons.prems x by (simp add: con3_delete_def)
    show ?thesis
      by (rule solo_step [OF go], rule Cons.IH [OF inv_turn [OF Cons.prems(1) go]])
        (use Cons.prems x in \<open>simp_all add: t contents_def\<close>)
  qed
qed

lemma solo_got:
  assumes "con3_inv s" "dpc s i = D_got" "fault s = None" "i < 3" "contents s vs" "0 \<le> w" "w < 10"
  shows "solo (Delete i) s (deleted i (remove1 w vs) None)"
proof -
  note go = turn_delete [OF assms(3,4,6,7)]
  obtain xs where xs: "lpath (nodes s) (head s) xs" using assms(5) unfolding contents_def by blast
  have t: "con3_delete i w s = set_dpc i (D_walk w None (head s)) s" using assms(2) by (simp add: con3_delete_def)
  show ?thesis
    by (rule solo_step [OF go], rule solo_delete_walk [OF inv_turn [OF assms(1) go]])
      (use assms xs in \<open>simp_all add: t contents_def\<close>)
qed

lemma solo_delete:
  assumes "con3_inv s" "dpc s i = D_start" "insert_lock s = None" "search_lock s = None" "fault s = None" "i < 3"
    "contents s vs" "1 < length vs" "0 \<le> w" "w < 10"
  shows "solo (Delete i) s (deleted i (remove1 w vs) None)"
proof -
  obtain xs where xs: "lpath (nodes s) (head s) xs" "vs = map (value_at (nodes s)) xs"
    using assms(7) unfolding contents_def by blast
  let ?P = "deleted i (remove1 w vs) None"
  let ?s1 = "set_dpc i (D_size (head s) 0) s" and ?s3 = "set_dpc i D_try1 s"
  let ?s2 = "set_dpc i (D_size None (0 + length xs)) ?s1"
  let ?s4 = "set_dpc i D_try2 (?s3\<lparr>insert_lock := Some (Delete i)\<rparr>)"
  let ?s5 = "set_dpc i D_got (?s4\<lparr>search_lock := Some (Delete i)\<rparr>)"
  have s1: "con3_delete i 0 s = ?s1" using assms(2) by (simp add: con3_delete_def)
  have s3: "con3_delete i 0 ?s2 = ?s3" using xs(2) assms(8) by (simp add: con3_delete_def)
  have s4: "con3_delete i 0 ?s3 = ?s4" using assms(3) by (simp add: con3_delete_def)
  have s5: "con3_delete i 0 ?s4 = ?s5" using assms(4) by (simp add: con3_delete_def)
  have "fault ?s2 = None" "fault ?s3 = None" "fault ?s4 = None" using assms(5) by simp_all
  note go = this [THEN turn_delete0, OF assms(6)]
  have "con3_inv ?s3" by (rule inv_set_dpc [OF assms(1) _ _ assms(5)]) (simp_all add: assms(2))
  then have "con3_inv ?s5" using inv_turn [OF inv_turn [OF _ go(2), unfolded s4] go(3)] unfolding s5 by blast
  then have "solo (Delete i) ?s5 ?P"
    by (rule solo_got) (use assms in \<open>simp_all add: contents_def\<close>)
  then have "solo (Delete i) ?s2 ?P"
    using solo_step [OF go(1)] solo_step [OF go(2)] solo_step [OF go(3)] s3 s4 s5 by simp
  then have "solo (Delete i) ?s1 ?P"
    by (rule size_walk_delete [where zs = xs and n = 0 and c = "head s", rotated -1]) (use xs assms in simp_all)
  then show ?thesis using solo_step [OF turn_delete0 [OF assms(5,6)]] s1 by simp
qed

subsection \<open>Releasing the insert lock\<close>

lemma solo_weaken: "solo r s P \<Longrightarrow> (\<And>t. P t \<Longrightarrow> Q t) \<Longrightarrow> solo r s Q"
  unfolding solo_def by blast

lemma solo_release_insert:
  assumes "con3_inv s" "i_in (ipc s i)" "fault s = None" "i < 3" "nodes s b = None"
  shows "solo (Insert i) s (idle (Insert i))"
proof -
  obtain xs where xs: "con3_locks s" "con3_shape xs s" by (rule inv_shape [OF assms(1)])
  then have c: "contents s (map (value_at (nodes s)) xs)" using contents_shape [OF xs(2)] by blast
  have "\<exists>vs. solo (Insert i) s (inserted i vs)"
  proof (cases "ipc s i")
    case I_alloc
    then show ?thesis using solo_alloc [OF assms(1) I_alloc assms(3,4) c assms(5), of 0] by auto
  next
    case (I_link a)
    then show ?thesis using solo_link [OF assms(1) I_link assms(3,4) c] by blast
  next
    case (I_walk a p)
    then have "p \<in> set xs" using con3_shapeD(3) [OF xs(2), of i] by simp
    then obtain ys zs where "xs = ys @ p # zs" by (auto dest: split_list)
    then have "lpath (nodes s) (Some p) (p # zs)" using lpath_append con3_shapeD(1) [OF xs(2)] by blast
    then show ?thesis using solo_walk [OF assms(1) I_walk assms(3,4) c] by blast
  next
    case (I_write a p)
    then show ?thesis using solo_write [OF assms(1) I_write assms(3,4) c] by blast
  next
    case I_unlock
    then show ?thesis using solo_unlock_insert [OF I_unlock assms(3,4) c] by blast
  qed (use assms(2) in auto)
  then show ?thesis by (auto simp: inserted_def elim: solo_weaken)
qed

lemma solo_try2:
  assumes "con3_inv s" "dpc s i = D_try2" "fault s = None" "i < 3" "contents s vs"
  shows "\<exists>ws l. solo (Delete i) s (deleted i ws l)"
proof -
  let ?t = "con3_delete i 0 s"
  note go = turn_delete0 [OF assms(3,4)]
  show ?thesis
  proof (cases "search_lock s")
    case None
    then have "solo (Delete i) ?t (deleted i (remove1 0 vs) None)"
      using assms by (intro solo_got [OF inv_turn [OF assms(1) go]]) (simp_all add: con3_delete_def contents_def)
    then show ?thesis using solo_step [OF go] by blast
  next
    case (Some r)
    then have "solo (Delete i) ?t (deleted i vs (search_lock ?t))"
      using assms by (intro solo_unlock1) (simp_all add: con3_delete_def contents_def)
    then show ?thesis using solo_step [OF go] by blast
  qed
qed

lemma solo_release_delete:
  assumes "con3_inv s" "d_in1 (dpc s i)" "fault s = None" "i < 3"
  shows "solo (Delete i) s (idle (Delete i))"
proof -
  obtain xs where xs: "con3_locks s" "con3_shape xs s" by (rule inv_shape [OF assms(1)])
  then have c: "contents s (map (value_at (nodes s)) xs)" using contents_shape [OF xs(2)] by blast
  have "\<exists>vs l. solo (Delete i) s (deleted i vs l)"
  proof (cases "dpc s i")
    case D_try2
    then show ?thesis using solo_try2 [OF assms(1) D_try2 assms(3,4) c] by blast
  next
    case D_got
    then show ?thesis using solo_got [OF assms(1) D_got assms(3,4) c, of 0] by auto
  next
    case (D_walk w q k)
    obtain ys zs where *: "xs = ys @ zs" "k = first_of zs"
      using con3_shapeD(4) [OF xs(2), of i] D_walk by auto
    then have "lpath (nodes s) k zs"
      using con3_shapeD(1) [OF xs(2)] lpath_append [of "nodes s" "head s" ys] by (cases zs) auto
    then show ?thesis using solo_delete_walk [OF assms(1) D_walk _ assms(3,4) c] by blast
  next
    case (D_free p)
    then show ?thesis using solo_free [OF assms(1) D_free assms(3,4) c] by blast
  next
    case D_unlock2
    then show ?thesis using solo_unlock2 [OF D_unlock2 assms(3,4) c] by blast
  next
    case D_unlock1
    then show ?thesis using solo_unlock1 [OF D_unlock1 assms(3,4) c] by blast
  qed (use assms(2) in auto)
  then show ?thesis by (auto simp: deleted_def elim: solo_weaken)
qed

subsection \<open>A search lock that is never released\<close>

lemma lost_stable:
  assumes "con3_inv s" "lost i s" "con3_step s t"
  shows "lost i t"
proof -
  obtain xs where xs: "con3_locks s" "con3_shape xs s" by (rule inv_shape [OF assms(1)])
  have out: "\<not> s_in (spc s j)" "\<not> d_in2 (dpc s j)" for j
    using con3_locksD(1,4) [OF xs(1), of j] assms(2) unfolding lost_def by auto
  from assms(3) show ?thesis
  proof (cases rule: con3_stepE)
    case (1 j)
    then show ?thesis using assms(2) out(1) [of j] by (cases "spc s j") (auto simp: con3_search_def lost_def)
  next
    case (2 j v a)
    then show ?thesis using assms(2)
      by (auto simp: con3_insert_def lost_def set_ipc_def print3_def split: insert_pc.split option.split size_round.split)
  next
    case (3 j v)
    then show ?thesis using assms(2) out(2) [of j]
      by (cases "dpc s j") (auto simp: con3_delete_def lost_def set_dpc_def split: option.split size_round.split)
  qed
qed

lemma lost_forever: "run con3_step s t \<Longrightarrow> con3_inv s \<Longrightarrow> lost i s \<Longrightarrow> lost i t"
  by (induction rule: run.induct) (auto intro: lost_stable c3.step_inv)

end
