(* ===== verification/Con3_Props.thy ===== *)
theory Con3_Props
  imports Con3_Solo
begin

text \<open>
  The properties of the linked-list program, each with a concrete schedule on which it says
  something. The schedules start from a list with the one value 5 at the address 0.
\<close>

subsection \<open>Schedules\<close>

definition times :: "nat \<Rightarrow> thread3 \<Rightarrow> (thread3 \<times> int \<times> addr option) list" where
  "times n r = replicate n (r, 5, None)"

text \<open>An inserter adds the value 5 at the address 1; two deleters count two nodes each.\<close>

definition one_insert :: "(thread3 \<times> int \<times> addr option) list" where
  "one_insert = times 4 (Insert 0) @ [(Insert 0, 5, Some 1)] @ times 4 (Insert 0)"

definition two_counts :: "(thread3 \<times> int \<times> addr option) list" where
  "two_counts = one_insert @ times 4 (Delete 0) @ times 4 (Delete 1)"

definition emptied :: "(thread3 \<times> int \<times> addr option) list" where
  "emptied = two_counts @ times 7 (Delete 0) @ times 7 (Delete 1) @ times 1 (Search 0)"

definition late_insert :: "(thread3 \<times> int \<times> addr option) list" where
  "late_insert = times 3 (Insert 0) @ [(Insert 0, 5, Some 1)] @ times 2 (Insert 0)"

definition overlap :: "(thread3 \<times> int \<times> addr option) list" where
  "overlap = one_insert @ times 1 (Delete 0) @ times 4 (Delete 1) @ times 5 (Delete 1) @ times 1 (Delete 0)"

definition after :: "(thread3 \<times> int \<times> addr option) list \<Rightarrow> con3" where
  "after cs = the (con3_run cs (con3_main 0 5))"

lemma after_reach: "con3_run cs (con3_main 0 5) \<noteq> None \<Longrightarrow> reach con3_init con3_step (after cs)"
proof -
  assume "con3_run cs (con3_main 0 5) \<noteq> None"
  then have "con3_run cs (con3_main 0 5) = Some (after cs)" by (auto simp: after_def)
  moreover have "con3_init (con3_main 0 5)" unfolding con3_init_def by (intro exI [of _ 0] exI [of _ 5]) simp
  ultimately show ?thesis using con3_run_reach reach.start [of con3_init _ con3_step] by blast
qed

lemma contents_one: "contents (con3_main 0 5) [5]"
  unfolding contents_shape [OF con3_main_shape] by (simp add: con3_main_def value_at_def)

lemma contents_two: "contents (after one_insert) [5, 5]"
proof -
  have "lpath (nodes (after one_insert)) (head (after one_insert)) [0, 1] \<and>
    map (value_at (nodes (after one_insert))) [0, 1] = [5, 5]"
  proof -
    have "head (after one_insert) = Some 0 \<and>
      nodes (after one_insert) 0 = Some \<lparr>nval = 5, nnext = Some 1\<rparr> \<and>
      nodes (after one_insert) 1 = Some \<lparr>nval = 5, nnext = None\<rparr>"
      by code_simp
    then show ?thesis by (simp add: value_at_def)
  qed
  then show ?thesis unfolding contents_def by metis
qed

subsection \<open>Locks and the list\<close>

text \<open>
  Mutual exclusion. In every reachable state of the three searchers, three inserters and three
  deleters: while a deleter holds both locks no searcher and no inserter is in its critical
  section and no other deleter is; at most one inserter is in its critical section; and at most one searcher.
\<close>

theorem con3_exclusive:
  assumes "reach con3_init con3_step s"
  shows "(d_in2 (dpc s i) \<longrightarrow>
            (\<forall>j. \<not> s_in (spc s j)) \<and> (\<forall>j. \<not> i_in (ipc s j)) \<and> (\<forall>j. j \<noteq> i \<longrightarrow> \<not> d_in1 (dpc s j))) \<and>
         (i_in (ipc s i) \<longrightarrow> (\<forall>j. j \<noteq> i \<longrightarrow> \<not> i_in (ipc s j)) \<and> (\<forall>j. \<not> d_in1 (dpc s j))) \<and>
         (s_in (spc s i) \<longrightarrow> (\<forall>j. j \<noteq> i \<longrightarrow> \<not> s_in (spc s j)))"
proof -
  have locks: "con3_locks s" using c3.reach_inv [OF assms] unfolding con3_inv_def by blast
  show ?thesis using con3_exclusion [OF locks] d_in2_in1 by metis
qed

theorem con3_exclusive_witness:
  "d_in2 (dpc (after (two_counts @ times 3 (Delete 0))) 0) \<and>
   \<not> s_in (spc (after (two_counts @ times 3 (Delete 0))) 1) \<and>
   \<not> i_in (ipc (after (two_counts @ times 3 (Delete 0))) 2) \<and>
   \<not> d_in1 (dpc (after (two_counts @ times 3 (Delete 0))) 1)"
proof -
  let ?cs = "two_counts @ times 3 (Delete 0)"
  have "con3_run ?cs (con3_main 0 5) \<noteq> None" by code_simp
  note all = con3_exclusive [OF after_reach [OF this], of 0]
  have "d_in2 (dpc (after ?cs) 0)" by code_simp
  then show ?thesis using all by auto
qed

text \<open>
  C12 (the list is sound, and the locks protect those who hold them). In every reachable state the
  nodes reachable from \<^verbatim>\<open>head\<close> form a finite list of allocated nodes, and a thread that touched memory
  that is not allocated did so in the unlocked count of \<^verbatim>\<open>linked_list_size\<close> or because \<^verbatim>\<open>malloc\<close>
  returned NULL: no searcher, no walk of an inserter and no step of a deleter under the locks does.
\<close>

theorem con3_list_safe:
  assumes "reach con3_init con3_step s"
  shows "(\<exists>xs. lpath (nodes s) (head s) xs \<and> distinct xs \<and> set xs \<subseteq> dom (nodes s)) \<and>
    (\<forall>t. fault s = Some t \<longrightarrow> counting s t \<or> allocating s t)"
proof -
  have inv: "con3_inv s" by (rule c3.reach_inv [OF assms])
  then obtain xs where "con3_shape xs s" unfolding con3_inv_def by blast
  then have path: "lpath (nodes s) (head s) xs" by (rule con3_shapeD(1))
  then have "distinct xs" "set xs \<subseteq> dom (nodes s)" using lpath_distinct lpath_dom by blast+
  then show ?thesis using path inv unfolding con3_inv_def con3_faults_def by blast
qed

theorem con3_list_safe_witness:
  "fault (after overlap) = Some (Delete 0) \<and>
   (counting (after overlap) (Delete 0) \<or> allocating (after overlap) (Delete 0))"
proof -
  have "con3_run overlap (con3_main 0 5) \<noteq> None" by code_simp
  note all = con3_list_safe [OF after_reach [OF this]]
  have "fault (after overlap) = Some (Delete 0)" by code_simp
  then show ?thesis using all by blast
qed

text \<open>
  C13 (the threads implement a list of values). Along every run the values on the list start as one value
  and change only by appending one value to a list that is not empty or by removing the
  first copy of one value: every interleaving of the threads is a run of that abstract list.
\<close>

theorem con3_refines_list:
  assumes "reach con3_init con3_step s" "run con3_step s t" "contents s vs"
  shows "(\<exists>us. contents s us \<and> reach list_start list_step us) \<and>
    (\<exists>ws. contents t ws \<and> run list_step vs ws)"
  using c3.reach_rep [OF assms(1)] c3.run_rep [OF assms(2) c3.reach_inv [OF assms(1)] assms(3)] by blast

theorem con3_refines_list_witness:
  "\<exists>ws. contents (con3_delete 0 5 (after one_insert)) ws \<and> run list_step [5, 5] ws"
proof -
  have run: "con3_run one_insert (con3_main 0 5) \<noteq> None" by code_simp
  have "fault (after one_insert) = None" by code_simp
  then have "turn (Delete 0) (after one_insert) (con3_delete 0 5 (after one_insert))"
    by (intro turn_delete) simp_all
  then have "con3_step (after one_insert) (con3_delete 0 5 (after one_insert))"
    unfolding turn_def con3_step_def by blast
  from con3_refines_list [OF after_reach [OF run] run_one [of con3_step, OF this] contents_two]
  show ?thesis by blast
qed

text \<open>
  C34 (what a search prints). When a searcher reads the end of the list, the values it has printed since
  it announced its search are the values on the list at that moment, in order, whatever the inserters
  did while it walked.
\<close>

theorem con3_search_prints_list:
  assumes "reach con3_init con3_step s" "spc s i = S_walk (Some p)" "turn (Search i) s t" "spc t i = S_walk None"
  shows "contents t (pass i (out t))"
proof -
  obtain xs where xs: "con3_locks s" "con3_shape xs s" by (rule inv_shape [OF c3.reach_inv [OF assms(1)]])
  obtain ys zs n where at: "xs = ys @ p # zs" "nodes s p = Some n" "nnext n = first_of zs"
    "pass i (out s) = map (value_at (nodes s)) ys"
    by (rule search_next [OF xs(2) assms(2)])
  have "t = con3_search i s" using assms(3) by (auto simp: turn_def split: if_splits)
  then have t: "t = set_spc i (S_walk (nnext n)) (print3 (Search i) (Item (nval n)) s)"
    using assms(2) at(2) by (simp add: con3_search_def)
  then have "zs = []" using assms(4) at(3) by simp
  moreover have "contents t = contents s" by (simp add: t contents_def fun_eq_iff)
  ultimately show ?thesis using at t unfolding contents_shape [OF xs(2)] by (simp add: value_at_def)
qed

theorem con3_search_prints_list_witness:
  "contents (con3_search 0 (after (times 2 (Search 0)))) (pass 0 (out (con3_search 0 (after (times 2 (Search 0)))))) \<and>
   pass 0 (out (con3_search 0 (after (times 2 (Search 0))))) = [5]"
proof -
  let ?s = "after (times 2 (Search 0))"
  have "con3_run (times 2 (Search 0)) (con3_main 0 5) \<noteq> None" by code_simp
  note reach = after_reach [OF this]
  have st: "spc ?s 0 = S_walk (Some 0) \<and> fault ?s = None" by code_simp
  then have "turn (Search 0) ?s (con3_search 0 ?s)" by (intro turn_search) simp_all
  moreover have "spc (con3_search 0 ?s) 0 = S_walk None \<and> pass 0 (out (con3_search 0 ?s)) = [5]" by code_simp
  ultimately show ?thesis using con3_search_prints_list [OF reach] st by blast
qed

subsection \<open>Threads that run alone\<close>

text \<open>
  Inserting. An inserter that runs alone, from the top of its loop, with the insert lock free,
  fewer than 25 values on the list and a \<^verbatim>\<open>malloc\<close> that succeeds, comes back to the top of its loop
  with the lock free; the value is the new last one of the list, except that the empty
  list stays empty: the code compares \<^verbatim>\<open>head == insert_list\<close> there and assigns nothing.
\<close>

theorem con3_insert_alone:
  assumes "reach con3_init con3_step s" "ipc s i = I_start" "insert_lock s = None" "fault s = None" "i < 3"
    and "contents s vs" "length vs < 25" "nodes s b = None" "0 \<le> v" "v < 10"
  shows "\<exists>t. run (turn (Insert i)) s t \<and> ipc t i = I_start \<and> insert_lock t = None \<and> fault t = None \<and>
    contents t (if vs = [] then [] else vs @ [v])"
  using solo_insert [OF c3.reach_inv [OF assms(1)] assms(2-)]
  unfolding solo_def inserted_def idle_def thread3.case by metis

theorem con3_insert_alone_witness:
  "\<exists>t. run (turn (Insert 0)) (con3_main 0 5) t \<and> ipc t 0 = I_start \<and> insert_lock t = None \<and> fault t = None \<and>
     contents t [5, 7]"
proof -
  have "con3_main 0 5 = after []" by (simp add: after_def)
  then have "reach con3_init con3_step (con3_main 0 5)" using after_reach [of "[]"] by simp
  from con3_insert_alone [OF this _ _ _ _ contents_one, of 0 1 7] show ?thesis
    by (simp add: con3_main_def)
qed

text \<open>
  Deleting. A deleter that runs alone, from the top of its loop, with both locks free and at least
  two values on the list, comes back to the top of its loop with both locks free; the first copy of the
  value it drew is gone, and a value that is not on the list leaves the list as it was.
\<close>

theorem con3_delete_alone:
  assumes "reach con3_init con3_step s" "dpc s i = D_start" "insert_lock s = None" "search_lock s = None"
    and "fault s = None" "i < 3" "contents s vs" "1 < length vs" "0 \<le> w" "w < 10"
  shows "\<exists>t. run (turn (Delete i)) s t \<and> dpc t i = D_start \<and> insert_lock t = None \<and> search_lock t = None \<and>
    fault t = None \<and> contents t (remove1 w vs)"
  using solo_delete [OF c3.reach_inv [OF assms(1)] assms(2-)]
  unfolding solo_def deleted_def idle_def thread3.case by metis

theorem con3_delete_alone_witness:
  "\<exists>t. run (turn (Delete 0)) (after one_insert) t \<and> dpc t 0 = D_start \<and> insert_lock t = None \<and>
     search_lock t = None \<and> fault t = None \<and> contents t [5]"
proof -
  have "con3_run one_insert (con3_main 0 5) \<noteq> None" by code_simp
  note reach = after_reach [OF this]
  have st: "dpc (after one_insert) 0 = D_start \<and> insert_lock (after one_insert) = None \<and>
    search_lock (after one_insert) = None \<and> fault (after one_insert) = None" by code_simp
  then show ?thesis using con3_delete_alone [OF reach _ _ _ _ _ contents_two, of 0 5] by simp
qed

text \<open>
  The insert lock comes free. Whoever holds the insert lock in a reachable state gives it back
  when it is scheduled: the thread, run alone, returns to the top of its loop with the lock free,
  as long as there is memory for the node of an inserter.
\<close>

theorem con3_insert_lock_released:
  assumes "reach con3_init con3_step s" "insert_lock s = Some r" "fault s = None" "nodes s b = None"
  shows "\<exists>t. run (turn r) s t \<and> insert_lock t = None \<and> fault t = None"
proof -
  have inv: "con3_inv s" by (rule c3.reach_inv [OF assms(1)])
  then obtain xs where locks: "con3_locks s" by (rule inv_shape)
  have "solo r s (idle r)" "\<exists>i. r = Insert i \<or> r = Delete i"
  proof -
    have bound: "i < 3" if "i_in (ipc s i) \<or> d_in1 (dpc s i)" for i
      using con3_locksD(5) [OF locks, of i] that by force
    show "\<exists>i. r = Insert i \<or> r = Delete i" using locks assms(2) unfolding con3_locks_def by (cases r) auto
    then consider i where "r = Insert i" | i where "r = Delete i" by blast
    then show "solo r s (idle r)"
      using con3_locksD(2,3) [OF locks] bound assms(2) solo_release_insert [OF inv _ assms(3) _ assms(4)]
        solo_release_delete [OF inv _ assms(3)] by cases blast+
  qed
  then show ?thesis unfolding solo_def idle_def by (auto split: thread3.splits)
qed

theorem con3_insert_lock_released_witness:
  "insert_lock (after (times 4 (Insert 0))) = Some (Insert 0) \<and>
   (\<exists>t. run (turn (Insert 0)) (after (times 4 (Insert 0))) t \<and> insert_lock t = None \<and> fault t = None)"
proof -
  have "con3_run (times 4 (Insert 0)) (con3_main 0 5) \<noteq> None" by code_simp
  note reach = after_reach [OF this]
  have st: "insert_lock (after (times 4 (Insert 0))) = Some (Insert 0) \<and> fault (after (times 4 (Insert 0))) = None \<and>
    nodes (after (times 4 (Insert 0))) 1 = None" by code_simp
  then show ?thesis using con3_insert_lock_released [OF reach] by blast
qed

text \<open>
  C35 (a search of the empty list). A searcher that finds the list empty prints that, and
  its \<^verbatim>\<open>continue\<close> skips the unlock. From then on, in every run, the search lock stays taken by a searcher that
  does not know it has it, no searcher and no deleter ever enters its critical section again, and
  the list stays empty.
\<close>

theorem con3_empty_search_wedges:
  assumes "reach con3_init con3_step s" "spc s i = S_got" "head s = None" "turn (Search i) s t"
    and "run con3_step t u"
  shows "search_lock u = Some (Search i) \<and> contents u [] \<and> (\<forall>j. \<not> s_in (spc u j) \<and> \<not> d_in2 (dpc u j))"
proof -
  have inv: "con3_inv s" by (rule c3.reach_inv [OF assms(1)])
  then obtain xs where locks: "con3_locks s" by (rule inv_shape)
  have t: "t = con3_search i s" using assms(4) by (auto simp: turn_def split: if_splits)
  have "lost i t" using con3_locksD(1) [OF locks, of i] assms(2,3) by (simp add: t lost_def con3_search_def)
  then have lost: "lost i u" by (rule lost_forever [OF assms(5) inv_turn [OF inv assms(4)]])
  have "con3_inv u" by (rule c3.run_inv [OF assms(5) inv_turn [OF inv assms(4)]])
  then obtain xs where locks: "con3_locks u" by (rule inv_shape)
  have "\<not> s_in (spc u j) \<and> \<not> d_in2 (dpc u j)" for j
    using con3_locksD(1,4) [OF locks, of j] lost unfolding lost_def by auto
  moreover have "contents u []" using lost unfolding contents_def lost_def by (intro exI [of _ "[]"]) simp
  ultimately show ?thesis using lost unfolding lost_def by blast
qed

theorem con3_empty_search_wedges_witness:
  "\<exists>u. con3_run late_insert (con3_search 0 (after emptied)) = Some u \<and>
     search_lock u = Some (Search 0) \<and> contents u [] \<and> (\<forall>j. \<not> s_in (spc u j) \<and> \<not> d_in2 (dpc u j))"
proof -
  have "con3_run emptied (con3_main 0 5) \<noteq> None" by code_simp
  note reach = after_reach [OF this]
  have st: "spc (after emptied) 0 = S_got \<and> head (after emptied) = None \<and> fault (after emptied) = None"
    by code_simp
  then have "turn (Search 0) (after emptied) (con3_search 0 (after emptied))" by (intro turn_search) simp_all
  moreover have "con3_run late_insert (con3_search 0 (after emptied)) \<noteq> None" by code_simp
  then obtain u where "con3_run late_insert (con3_search 0 (after emptied)) = Some u" by blast
  ultimately show ?thesis using con3_empty_search_wedges [OF reach _ _ _ con3_run_run] st by blast
qed

subsection \<open>Counting without a lock\<close>

text \<open>
  A schedule on which \<^verbatim>\<open>linked_list_size\<close> reads a node that another thread has freed: the deleter 0 has read
  \<^verbatim>\<open>head\<close> for its count when the deleter 1 removes and frees the first node.
\<close>

lemma con3_count_use_after_free:
  "reach con3_init con3_step (after overlap) \<and> fault (after overlap) = Some (Delete 0) \<and>
   dpc (after overlap) 0 = D_size (Some 0) 0 \<and> nodes (after overlap) 0 = None"
proof -
  have "con3_run overlap (con3_main 0 5) \<noteq> None" by code_simp
  then have "reach con3_init con3_step (after overlap)" by (rule after_reach)
  moreover have "fault (after overlap) = Some (Delete 0) \<and> dpc (after overlap) 0 = D_size (Some 0) 0 \<and>
    nodes (after overlap) 0 = None" by code_simp
  ultimately show ?thesis by blast
qed

end
