(* ===== verification/Sbd.thy ===== *)
theory Sbd
  imports Prelude
begin

text \<open>
  The encrypting RAM disk of \<^verbatim>\<open>src/kernel/project3/code/sbd.c\<close>. The storage is a list of
  bytes, transfers read and write it in blocks of the cipher, and an access outside
  the storage or the buffer is the error \<open>Oops\<close>. Loops are partial: \<^term>\<open>None\<close> is a call
  that never returns. Parameters are the cipher (\<open>cipher\<close>), the block layer's functions on
  requests (\<open>blk\<close>), the results of the kernel's allocation functions, and the readable
  low memory, which \<^verbatim>\<open>print_data(dest, 15)\<close> reads because \<^verbatim>\<open>dest\<close> is declared as a byte and
  not as a pointer. \<^verbatim>\<open>unsigned long\<close> is 32 bits wide (i386), \<^verbatim>\<open>sector_t\<close> 64. A request that has been completed
  with an error is read again as it was, although the block layer may have freed it.
\<close>

subsection \<open>Parameters and state\<close>

text \<open>The cipher as it works after \<^verbatim>\<open>crypto_cipher_setkey\<close> with a key and its length.\<close>

record cipher =
  blocksize :: u32
  encrypt_one :: "u8 list \<Rightarrow> int \<Rightarrow> u8 list \<Rightarrow> u8 list"
  decrypt_one :: "u8 list \<Rightarrow> int \<Rightarrow> u8 list \<Rightarrow> u8 list"

record sbd_params =
  logical_block_size :: nat
  nsectors :: nat
  crypt_key :: "u8 list"
  crypt_keylen :: int
  crypt :: cipher
  low_mem :: "nat \<Rightarrow> u8 option"


record sbd_device =
  dev_size :: u32
  dev_addr :: u32
  dev_data :: "u8 list"

datatype sbd_error = Oops

subsection \<open>Transfers\<close>

definition slice :: "u8 list \<Rightarrow> nat \<Rightarrow> nat \<Rightarrow> u8 list option" where
  "slice xs i n = (if i + n \<le> length xs then Some (take n (drop i xs)) else None)"

definition splice :: "u8 list \<Rightarrow> nat \<Rightarrow> u8 list \<Rightarrow> u8 list option" where
  "splice xs i ys =
     (if i + length ys \<le> length xs then Some (take i xs @ ys @ drop (i + length ys) xs) else None)"

text \<open>
  Both loops: block \<open>i\<close> is read from \<open>src\<close> and its image under \<open>f\<close> written to \<open>dst\<close>. The counter \<^verbatim>\<open>i\<close> is an
  \<^verbatim>\<open>int\<close>, which the comparison converts to \<^verbatim>\<open>unsigned long\<close>; \<open>i\<close> is the converted value. From \<open>2 ^ 31\<close> on \<^verbatim>\<open>i\<close> is
  negative, and \<^verbatim>\<open>buffer + i\<close> lies before the buffer.
\<close>

partial_function (option) crypt_loop ::
  "(u8 list \<Rightarrow> u8 list) \<Rightarrow> nat \<Rightarrow> u8 list \<Rightarrow> nat \<Rightarrow> u8 list \<Rightarrow> nat \<Rightarrow> nat \<Rightarrow> nat \<Rightarrow>
   (sbd_error + u8 list) option" where
  "crypt_loop f bs src s dst d nbytes i =
     (if i < nbytes then
        (if 2 ^ 31 \<le> i then Some (Inl Oops)
         else case slice src (s + i) bs of
           None \<Rightarrow> Some (Inl Oops)
         | Some b \<Rightarrow>
             (case splice dst (d + i) (f b) of
                None \<Rightarrow> Some (Inl Oops)
              | Some dst1 \<Rightarrow> crypt_loop f bs src s dst1 d nbytes ((i + bs) mod 2 ^ 32)))
      else Some (Inr dst))"

text \<open>\<^verbatim>\<open>print_data\<close> of the 15 bytes at an address below 256.\<close>

definition print_low :: "sbd_params \<Rightarrow> u8 \<Rightarrow> bool" where
  "print_low ps dest \<longleftrightarrow> (\<forall>i<15. low_mem ps (unat dest + i) \<noteq> None)"

definition transfer_loop ::
  "sbd_params \<Rightarrow> sbd_device \<Rightarrow> nat \<Rightarrow> nat \<Rightarrow> u8 list \<Rightarrow> bool \<Rightarrow> (sbd_error + sbd_device \<times> u8 list) option" where
  "transfer_loop ps dev offset nbytes buffer write =
     (let c = crypt ps
      in if write
         then map_option (map_sum id (\<lambda>ds. (dev\<lparr>dev_data := ds\<rparr>, buffer)))
                (crypt_loop (encrypt_one c (crypt_key ps) (crypt_keylen ps)) (unat (blocksize c)) buffer 0 (dev_data dev) offset nbytes 0)
         else map_option (map_sum id (\<lambda>b. (dev, b)))
                (crypt_loop (decrypt_one c (crypt_key ps) (crypt_keylen ps)) (unat (blocksize c)) (dev_data dev) offset buffer 0 nbytes 0))"

definition sbd_crypt_transfer ::
  "sbd_params \<Rightarrow> sbd_device \<Rightarrow> u64 \<Rightarrow> u32 \<Rightarrow> u8 list \<Rightarrow> bool \<Rightarrow>
   (sbd_error + sbd_device \<times> u8 list) option" where
  "sbd_crypt_transfer ps dev sector nsect buffer write =
     (let offset = (ucast (sector * of_nat (logical_block_size ps)) :: u32);
          nbytes = nsect * of_nat (logical_block_size ps)
      in if offset + nbytes > dev_size dev then Some (Inr (dev, buffer))
         else (let dest = (ucast (dev_addr dev + offset) :: u8)
               in case transfer_loop ps dev (unat offset) (unat nbytes) buffer write of
                    None \<Rightarrow> None
                  | Some (Inl e) \<Rightarrow> Some (Inl e)
                  | Some (Inr (dev1, buffer1)) \<Rightarrow>
                      if 15 \<le> length buffer1 \<and> print_low ps dest then Some (Inr (dev1, buffer1))
                      else Some (Inl Oops)))"

subsection \<open>The request handler\<close>

record breq =
  cmd_fs :: bool
  rq_pos :: u64
  cur_sectors :: u32
  bio_data :: "u8 list"
  rq_write :: bool

record 'q blk =
  blk_fetch :: "'q \<Rightarrow> breq option \<times> 'q"
  end_request_cur :: "breq \<Rightarrow> 'q \<Rightarrow> breq option \<times> 'q"
  end_request_all :: "breq \<Rightarrow> 'q \<Rightarrow> 'q"

partial_function (option) request_loop ::
  "'q blk \<Rightarrow> sbd_params \<Rightarrow> sbd_device \<Rightarrow> 'q \<Rightarrow> breq option \<Rightarrow> (sbd_error + sbd_device \<times> 'q) option" where
  "request_loop k ps dev q r =
     (case r of
        None \<Rightarrow> Some (Inr (dev, q))
      | Some req \<Rightarrow>
          if \<not> cmd_fs req then request_loop k ps dev (end_request_all k req q) (Some req)
          else (case sbd_crypt_transfer ps dev (rq_pos req) (cur_sectors req) (bio_data req) (rq_write req) of
                  None \<Rightarrow> None
                | Some (Inl e) \<Rightarrow> Some (Inl e)
                | Some (Inr (dev1, buf)) \<Rightarrow>
                    (case end_request_cur k (req\<lparr>bio_data := buf\<rparr>) q of
                       (Some req1, q1) \<Rightarrow> request_loop k ps dev1 q1 (Some req1)
                     | (None, q1) \<Rightarrow> (let (r2, q2) = blk_fetch k q1 in request_loop k ps dev1 q2 r2))))"

definition sbd_crypt_request ::
  "'q blk \<Rightarrow> sbd_params \<Rightarrow> sbd_device \<Rightarrow> 'q \<Rightarrow> (sbd_error + sbd_device \<times> 'q) option" where
  "sbd_crypt_request k ps dev q = (let (r, q1) = blk_fetch k q in request_loop k ps dev q1 r)"

subsection \<open>Geometry, start and exit\<close>














subsection \<open>The cipher loop is electronic-codebook mode\<close>

fun ecb :: "(u8 list \<Rightarrow> u8 list) \<Rightarrow> nat \<Rightarrow> nat \<Rightarrow> u8 list \<Rightarrow> u8 list" where
  "ecb f n 0 xs = []"
| "ecb f n (Suc k) xs = f (take n xs) @ ecb f n k (drop n xs)"

definition keeps_length :: "(u8 list \<Rightarrow> u8 list) \<Rightarrow> nat \<Rightarrow> bool" where
  "keeps_length f n \<longleftrightarrow> (\<forall>b. length b = n \<longrightarrow> length (f b) = n)"

lemma length_ecb: "keeps_length f n \<Longrightarrow> k * n \<le> length xs \<Longrightarrow> length (ecb f n k xs) = k * n"
  by (induction k arbitrary: xs) (auto simp: keeps_length_def)

lemma crypt_loop_spec:
  assumes f: "keeps_length f bs"
  shows "nbytes = i + k * bs \<Longrightarrow> 0 < bs \<Longrightarrow> nbytes \<le> 2 ^ 31 \<Longrightarrow> s + nbytes \<le> length src \<Longrightarrow> d + nbytes \<le> length dst \<Longrightarrow>
    crypt_loop f bs src s dst d nbytes i =
      Some (Inr (take (d + i) dst @ ecb f bs k (drop (s + i) src) @ drop (d + nbytes) dst))"
proof (induction k arbitrary: i dst)
  case 0
  then show ?case by (subst crypt_loop.simps) simp
next
  case (Suc k)
  define b where "b = take bs (drop (s + i) src)"
  define dst1 where "dst1 = take (d + i) dst @ f b @ drop (d + i + bs) dst"
  have len: "length b = bs" using Suc.prems by (simp add: b_def)
  then have lf: "length (f b) = bs" using f by (simp add: keeps_length_def)
  have sl: "slice src (s + i) bs = Some b" using Suc.prems by (simp add: slice_def b_def)
  have sp: "splice dst (d + i) (f b) = Some dst1" using Suc.prems lf by (simp add: splice_def dst1_def)
  have "i < nbytes" "(i + bs) mod 2 ^ 32 = i + bs" using Suc.prems by simp_all
  then have "crypt_loop f bs src s dst d nbytes i = crypt_loop f bs src s dst1 d nbytes (i + bs)"
    using sl sp Suc.prems(3) by (subst crypt_loop.simps) simp
  also have "\<dots> = Some (Inr (take (d + (i + bs)) dst1 @ ecb f bs k (drop (s + (i + bs)) src) @ drop (d + nbytes) dst1))"
    using Suc.prems lf by (intro Suc.IH) (simp_all add: dst1_def)
  also have "take (d + (i + bs)) dst1 = take (d + i) dst @ f b"
    using Suc.prems lf by (simp add: dst1_def)
  also have "drop (d + nbytes) dst1 = drop (d + nbytes) dst"
    using Suc.prems lf by (simp add: dst1_def ac_simps)
  finally show ?case by (simp add: b_def ac_simps)
qed

lemma crypt_loop_returns:
  assumes "0 < bs" "bs < 2 ^ 32"
  shows "\<exists>y. crypt_loop f bs src s dst d nbytes 0 = Some y"
proof (cases "bs < 2 ^ 31")
  case small: True
  have "\<exists>y. crypt_loop f bs src s dst d nbytes i = Some y" for i
  proof (induction "nbytes - i" arbitrary: i dst rule: less_induct)
    case less
    show ?case
    proof (cases "i < nbytes \<and> i < 2 ^ 31")
      case True
      then have "nbytes - (i + bs) < nbytes - i" "(i + bs) mod 2 ^ 32 = i + bs" using assms small by auto
      with less [OF this(1)] show ?thesis
        by (subst crypt_loop.simps) (auto split: option.split)
    qed (subst crypt_loop.simps, auto)
  qed
  then show ?thesis .
next
  case False
  then have "\<exists>y. crypt_loop f bs src s dst1 d nbytes (bs mod 2 ^ 32) = Some y" for dst1
    using assms(2) by (subst crypt_loop.simps) simp
  then show ?thesis by (subst crypt_loop.simps) (auto split: option.split)
qed

lemma ecb_inverse:
  assumes f: "keeps_length f n" and g: "\<And>b. length b = n \<Longrightarrow> g (f b) = b"
  shows "k * n \<le> length xs \<Longrightarrow> ecb g n k (ecb f n k xs @ ys) = take (k * n) xs"
proof (induction k arbitrary: xs)
  case (Suc k)
  have n: "length (take n xs) = n" using Suc.prems by simp
  then have "length (f (take n xs)) = n" using f by (simp add: keeps_length_def)
  then have "ecb g n (Suc k) (ecb f n (Suc k) xs @ ys) =
      g (f (take n xs)) @ ecb g n k (ecb f n k (drop n xs) @ ys)" by simp
  also have "\<dots> = take n xs @ take (k * n) (drop n xs)"
    using Suc.prems g [OF n] Suc.IH [of "drop n xs"] by simp
  also have "\<dots> = take (Suc k * n) xs" by (simp add: take_add)
  finally show ?case .
qed simp

subsection \<open>Requests inside the device\<close>

text \<open>The documented behaviour of a block cipher.\<close>

definition cipher_ok :: "sbd_params \<Rightarrow> bool" where
  "cipher_ok ps \<longleftrightarrow>
     (let c = crypt ps; n = unat (blocksize c); enc = encrypt_one c (crypt_key ps) (crypt_keylen ps);
          dec = decrypt_one c (crypt_key ps) (crypt_keylen ps)
      in 0 < n \<and> keeps_length enc n \<and> keeps_length dec n \<and> (\<forall>b. length b = n \<longrightarrow> dec (enc b) = b))"

definition in_device :: "sbd_params \<Rightarrow> sbd_device \<Rightarrow> u64 \<Rightarrow> u32 \<Rightarrow> bool" where
  "in_device ps dev sector nsect \<longleftrightarrow>
     length (dev_data dev) = unat (dev_size dev) \<and> 0 < nsect \<and> 15 \<le> logical_block_size ps \<and>
     (unat sector + unat nsect) * logical_block_size ps \<le> unat (dev_size dev) \<and>
     unat (blocksize (crypt ps)) dvd logical_block_size ps"

abbreviation "byte_offset ps sector \<equiv> unat (sector :: u64) * logical_block_size ps"

abbreviation "byte_count ps nsect \<equiv> unat (nsect :: u32) * logical_block_size ps"

lemma in_device_words:
  assumes "in_device ps dev sector nsect"
  shows "unat (ucast (sector * of_nat (logical_block_size ps)) :: u32) = byte_offset ps sector"
    "unat (nsect * of_nat (logical_block_size ps) :: u32) = byte_count ps nsect"
    "\<not> (ucast (sector * of_nat (logical_block_size ps)) + nsect * of_nat (logical_block_size ps) :: u32) > dev_size dev"
proof -
  let ?L = "logical_block_size ps"
  have sum: "byte_offset ps sector + byte_count ps nsect \<le> unat (dev_size dev)"
    using assms by (simp add: in_device_def algebra_simps)
  have lt: "unat (dev_size dev) < 2 ^ 32" using unsigned_less [of "dev_size dev"] by simp
  have "0 < unat nsect" using assms by (simp add: in_device_def unat_gt_0 word_gt_0)
  then have "?L \<le> byte_count ps nsect" by simp
  with sum lt have L: "?L < 2 ^ 32" by linarith
  have o: "unat (sector * of_nat ?L) = byte_offset ps sector"
    using sum lt L by (simp add: unat_word_ariths unat_of_nat)
  show off: "unat (ucast (sector * of_nat ?L) :: u32) = byte_offset ps sector"
    using o sum lt by (simp add: unsigned_ucast_eq unsigned_take_bit_eq take_bit_nat_eq_self_iff)
  show cnt: "unat (nsect * of_nat ?L :: u32) = byte_count ps nsect"
    using sum lt L by (simp add: unat_word_ariths unat_of_nat)
  have "unat (ucast (sector * of_nat ?L) + nsect * of_nat ?L :: u32) = byte_offset ps sector + byte_count ps nsect"
    using off cnt sum lt by (simp add: unat_word_ariths)
  then show "\<not> (ucast (sector * of_nat ?L) + nsect * of_nat ?L :: u32) > dev_size dev"
    using sum by (simp add: word_less_nat_alt not_less)
qed

text \<open>What \<^verbatim>\<open>dest\<close> holds: the low byte of the address of the data.\<close>

abbreviation "debug_dest ps dev sector \<equiv>
  (ucast (dev_addr dev + ucast ((sector :: u64) * of_nat (logical_block_size ps))) :: u8)"

lemma transfer_in_device:
  assumes "in_device ps dev sector nsect" "15 \<le> length buffer"
    and loop: "transfer_loop ps dev (byte_offset ps sector) (byte_count ps nsect) buffer write = Some (Inr (dev1, buffer1))"
    and len: "length buffer1 = length buffer"
  shows "sbd_crypt_transfer ps dev sector nsect buffer write =
    (if print_low ps (debug_dest ps dev sector) then Some (Inr (dev1, buffer1))
     else Some (Inl Oops))"
  using assms(2) len loop in_device_words [OF assms(1)]
  unfolding sbd_crypt_transfer_def Let_def by simp

lemma in_device_count:
  assumes "in_device ps dev sector nsect"
  shows "15 \<le> byte_count ps nsect"
proof -
  have "0 < unat nsect" "15 \<le> logical_block_size ps"
    using assms by (auto simp: in_device_def unat_gt_0 word_gt_0)
  then show ?thesis by (metis One_nat_def Suc_leI le_trans mult.left_neutral mult_le_mono1)
qed

lemma blocks_dvd:
  assumes "in_device ps dev sector nsect"
  obtains k where "byte_count ps nsect = k * unat (blocksize (crypt ps))"
proof -
  obtain j where "logical_block_size ps = unat (blocksize (crypt ps)) * j" using assms by (auto simp: in_device_def)
  then show thesis by (intro that [of "unat nsect * j"]) simp
qed

lemma write_loop:
  assumes dev: "in_device ps dev sector nsect" and c: "cipher_ok ps" and len: "length buffer = byte_count ps nsect"
    and k: "byte_count ps nsect = k * unat (blocksize (crypt ps))" and small: "byte_count ps nsect \<le> 2 ^ 31"
  shows "transfer_loop ps dev (byte_offset ps sector) (byte_count ps nsect) buffer True =
    Some (Inr (dev\<lparr>dev_data := take (byte_offset ps sector) (dev_data dev) @
        ecb (encrypt_one (crypt ps) (crypt_key ps) (crypt_keylen ps)) (unat (blocksize (crypt ps))) k buffer @
        drop (byte_offset ps sector + byte_count ps nsect) (dev_data dev)\<rparr>, buffer))"
proof -
  have fit: "byte_offset ps sector + byte_count ps nsect \<le> length (dev_data dev)"
    using dev by (simp add: in_device_def algebra_simps)
  have "crypt_loop (encrypt_one (crypt ps) (crypt_key ps) (crypt_keylen ps)) (unat (blocksize (crypt ps))) buffer 0 (dev_data dev)
      (byte_offset ps sector) (byte_count ps nsect) 0 =
    Some (Inr (take (byte_offset ps sector + 0) (dev_data dev) @
      ecb (encrypt_one (crypt ps) (crypt_key ps) (crypt_keylen ps)) (unat (blocksize (crypt ps))) k (drop (0 + 0) buffer) @
      drop (byte_offset ps sector + byte_count ps nsect) (dev_data dev)))"
    by (rule crypt_loop_spec) (use c k len small fit in \<open>auto simp: cipher_ok_def Let_def\<close>)
  then show ?thesis by (simp add: transfer_loop_def Let_def)
qed

lemma read_loop:
  assumes dev: "in_device ps dev sector nsect" and c: "cipher_ok ps" and len: "length buffer = byte_count ps nsect"
    and k: "byte_count ps nsect = k * unat (blocksize (crypt ps))" and small: "byte_count ps nsect \<le> 2 ^ 31"
  shows "transfer_loop ps dev (byte_offset ps sector) (byte_count ps nsect) buffer False =
    Some (Inr (dev, ecb (decrypt_one (crypt ps) (crypt_key ps) (crypt_keylen ps)) (unat (blocksize (crypt ps))) k
      (drop (byte_offset ps sector) (dev_data dev))))"
proof -
  have fit: "byte_offset ps sector + byte_count ps nsect \<le> length (dev_data dev)"
    using dev by (simp add: in_device_def algebra_simps)
  have "crypt_loop (decrypt_one (crypt ps) (crypt_key ps) (crypt_keylen ps)) (unat (blocksize (crypt ps))) (dev_data dev)
      (byte_offset ps sector) buffer 0 (byte_count ps nsect) 0 =
    Some (Inr (take (0 + 0) buffer @
      ecb (decrypt_one (crypt ps) (crypt_key ps) (crypt_keylen ps)) (unat (blocksize (crypt ps))) k (drop (byte_offset ps sector + 0) (dev_data dev)) @
      drop (0 + byte_count ps nsect) buffer))"
    by (rule crypt_loop_spec) (use c k len small fit in \<open>auto simp: cipher_ok_def Let_def\<close>)
  then show ?thesis using len by (simp add: transfer_loop_def Let_def)
qed

subsection \<open>The request loop\<close>

lemma transfer_returns:
  assumes "0 < blocksize (crypt ps)"
  shows "\<exists>y. sbd_crypt_transfer ps dev sector nsect buffer write = Some y"
proof -
  have "0 < unat (blocksize (crypt ps))" "unat (blocksize (crypt ps)) < 2 ^ 32"
    using assms unsigned_less [of "blocksize (crypt ps)"] by (simp_all add: word_less_nat_alt)
  then have "transfer_loop ps dev off n buffer write \<noteq> None" for off n
    unfolding transfer_loop_def Let_def
    using crypt_loop_returns by (auto simp: option.map_disc_iff)
  then obtain y where "transfer_loop ps dev (unat (ucast (sector * of_nat (logical_block_size ps)) :: u32))
      (unat (nsect * of_nat (logical_block_size ps))) buffer write = Some y" by blast
  then show ?thesis
    unfolding sbd_crypt_transfer_def Let_def by (auto split: sum.split)
qed

text \<open>
  The documented behaviour of the block layer: completing and fetching make progress,
  measured by \<open>m\<close>, and all requests are of the file-system type.
\<close>

definition blk_progress :: "'q blk \<Rightarrow> (breq option \<Rightarrow> 'q \<Rightarrow> nat) \<Rightarrow> bool" where
  "blk_progress k m \<longleftrightarrow>
     (\<forall>r b q. m (Some (r\<lparr>bio_data := b\<rparr>)) q = m (Some r) q) \<and>
     (\<forall>r q r' q'. end_request_cur k r q = (r', q') \<longrightarrow>
        m r' q' < m (Some r) q \<and> (\<forall>x. r' = Some x \<longrightarrow> cmd_fs x)) \<and>
     (\<forall>q r q'. blk_fetch k q = (r, q') \<longrightarrow> m r q' \<le> m None q \<and> (\<forall>x. r = Some x \<longrightarrow> cmd_fs x))"

lemma request_loop_returns:
  assumes prog: "blk_progress k m" and bs: "0 < blocksize (crypt ps)"
  shows "(\<forall>x. r = Some x \<longrightarrow> cmd_fs x) \<Longrightarrow> \<exists>y. request_loop k ps dev q r = Some y"
proof (induction "m r q" arbitrary: dev q r rule: less_induct)
  case less
  show ?case
  proof (cases r)
    case None
    then show ?thesis by (subst request_loop.simps) simp
  next
    case (Some req)
    then have fs: "cmd_fs req" using less.prems by simp
    obtain y where y: "sbd_crypt_transfer ps dev (rq_pos req) (cur_sectors req) (bio_data req) (rq_write req) = Some y"
      using transfer_returns [OF bs] by blast
    show ?thesis
    proof (cases y)
      case (Inl e)
      then show ?thesis using Some fs y by (subst request_loop.simps) simp
    next
      case (Inr p)
      obtain dev1 buf where p: "p = (dev1, buf)" by (cases p)
      obtain r1 q1 where e: "end_request_cur k (req\<lparr>bio_data := buf\<rparr>) q = (r1, q1)" by force
      then have m1: "m r1 q1 < m r q" "\<forall>x. r1 = Some x \<longrightarrow> cmd_fs x"
        using prog Some unfolding blk_progress_def by metis+
      show ?thesis
      proof (cases r1)
        case None
        obtain r2 q2 where f: "blk_fetch k q1 = (r2, q2)" by force
        then have "m r2 q2 < m r q" "\<forall>x. r2 = Some x \<longrightarrow> cmd_fs x"
          using prog m1(1) None unfolding blk_progress_def by (metis le_less_trans)+
        from less.hyps [OF this] show ?thesis
          using Some fs y Inr p e None f by (subst request_loop.simps) simp
      next
        case (Some req1)
        from less.hyps [OF m1] show ?thesis
          using \<open>r = Some req\<close> fs y Inr p e Some by (subst request_loop.simps) simp
      qed
    qed
  qed
qed

lemma request_loop_other:
  assumes "request_loop k ps dev q r = Some y"
  shows "r = Some req \<longrightarrow> cmd_fs req"
proof (rule request_loop.raw_induct [where P = "\<lambda>k ps dev q r y. \<forall>req. r = Some req \<longrightarrow> cmd_fs req",
      OF _ assms, THEN spec])
  fix f k ps dev q r y
  assume IH: "\<And>k ps dev q r y. f k ps dev q r = Some y \<Longrightarrow> \<forall>req. r = Some req \<longrightarrow> cmd_fs req"
    and body: "(case r of None \<Rightarrow> Some (Inr (dev, q))
      | Some req \<Rightarrow>
          if \<not> cmd_fs req then f k ps dev (end_request_all k req q) (Some req)
          else (case sbd_crypt_transfer ps dev (rq_pos req) (cur_sectors req) (bio_data req) (rq_write req) of
                  None \<Rightarrow> None
                | Some (Inl e) \<Rightarrow> Some (Inl e)
                | Some (Inr (dev1, buf)) \<Rightarrow>
                    (case end_request_cur k (req\<lparr>bio_data := buf\<rparr>) q of
                       (Some req1, q1) \<Rightarrow> f k ps dev1 q1 (Some req1)
                     | (None, q1) \<Rightarrow> (let (r2, q2) = blk_fetch k q1 in f k ps dev1 q2 r2)))) = Some y"
  show "\<forall>req. r = Some req \<longrightarrow> cmd_fs req"
    using body IH [of k ps dev] by (auto split: if_splits)
qed

subsection \<open>Properties\<close>

definition demo_params :: sbd_params where
  "demo_params =
     \<lparr>logical_block_size = 16, nsectors = 4, crypt_key = [], crypt_keylen = 0,
      crypt = \<lparr>blocksize = 16, encrypt_one = (\<lambda>_ _. map (\<lambda>x. x XOR 0x5a)), decrypt_one = (\<lambda>_ _. map (\<lambda>x. x XOR 0x5a))\<rparr>,
      low_mem = (\<lambda>a. if a < 4096 then Some 0 else None)\<rparr>"

definition demo_dev :: sbd_device where
  "demo_dev = \<lparr>dev_size = 64, dev_addr = 0x1000, dev_data = replicate 64 0\<rparr>"

definition demo_blk :: "breq list blk" where
  "demo_blk =
     \<lparr>blk_fetch = (\<lambda>q. case filter cmd_fs q of [] \<Rightarrow> (None, []) | r # q' \<Rightarrow> (Some r, q')),
      end_request_cur = (\<lambda>r q. (None, q)), end_request_all = (\<lambda>r q. q)\<rparr>"

lemma demo_cipher_ok: "cipher_ok demo_params"
  by (auto simp: cipher_ok_def demo_params_def keeps_length_def xor.assoc comp_def)

lemma demo_in_device: "in_device demo_params demo_dev 1 2"
  by (simp add: in_device_def demo_params_def demo_dev_def)

text \<open>
  C11 (write, then read): take a request inside the device, of at most 2 GiB, and a cipher that decrypts what it
  encrypts. The loop of a write stores the buffer block by block encrypted and changes no other byte of the
  device, and the loop of a later read of the same sectors into any buffer returns the bytes written. So the data is
  moved before the debug output. The two transfers as a whole then return just that if the 15 bytes that the
  debug output reads at the low byte of the data's address are mapped, and fault otherwise.
\<close>

theorem sbd_write_read:
  assumes dev: "in_device ps dev sector nsect" and c: "cipher_ok ps" and small: "byte_count ps nsect \<le> 2 ^ 31"
    and len: "length buffer = byte_count ps nsect" "length buffer2 = byte_count ps nsect"
  shows "\<exists>dev1.
    transfer_loop ps dev (byte_offset ps sector) (byte_count ps nsect) buffer True = Some (Inr (dev1, buffer)) \<and>
    transfer_loop ps dev1 (byte_offset ps sector) (byte_count ps nsect) buffer2 False = Some (Inr (dev1, buffer)) \<and>
    take (byte_count ps nsect) (drop (byte_offset ps sector) (dev_data dev1)) =
      ecb (encrypt_one (crypt ps) (crypt_key ps) (crypt_keylen ps)) (unat (blocksize (crypt ps)))
        (byte_count ps nsect div unat (blocksize (crypt ps))) buffer \<and>
    length (dev_data dev1) = length (dev_data dev) \<and>
    (\<forall>i<length (dev_data dev). i < byte_offset ps sector \<or> byte_offset ps sector + byte_count ps nsect \<le> i \<longrightarrow>
       dev_data dev1 ! i = dev_data dev ! i) \<and>
    sbd_crypt_transfer ps dev sector nsect buffer True =
      Some (if print_low ps (debug_dest ps dev sector) then Inr (dev1, buffer) else Inl Oops) \<and>
    sbd_crypt_transfer ps dev1 sector nsect buffer2 False =
      Some (if print_low ps (debug_dest ps dev sector) then Inr (dev1, buffer) else Inl Oops)"
proof -
  obtain k where k: "byte_count ps nsect = k * unat (blocksize (crypt ps))" by (rule blocks_dvd [OF dev])
  let ?n = "unat (blocksize (crypt ps))" and ?enc = "encrypt_one (crypt ps) (crypt_key ps) (crypt_keylen ps)"
    and ?dec = "decrypt_one (crypt ps) (crypt_key ps) (crypt_keylen ps)" and ?o = "byte_offset ps sector"
  let ?c = "ecb ?enc ?n k buffer"
  define dev1 where "dev1 = dev\<lparr>dev_data := take ?o (dev_data dev) @ ?c @ drop (?o + byte_count ps nsect) (dev_data dev)\<rparr>"
  have enc: "keeps_length ?enc ?n" and n: "0 < ?n" and inv: "\<And>b. length b = ?n \<Longrightarrow> ?dec (?enc b) = b"
    using c by (auto simp: cipher_ok_def Let_def)
  have lc: "length ?c = byte_count ps nsect" using k len(1) by (simp add: length_ecb [OF enc])
  have fit: "?o + byte_count ps nsect \<le> length (dev_data dev)"
    using dev by (simp add: in_device_def algebra_simps)
  have data1: "length (dev_data dev1) = length (dev_data dev)" using lc fit by (simp add: dev1_def)
  have dev1: "in_device ps dev1 sector nsect" using dev data1 by (simp add: in_device_def dev1_def)
  have l15: "15 \<le> length buffer" "15 \<le> length buffer2" using len in_device_count [OF dev] by simp_all
  have w: "transfer_loop ps dev ?o (byte_count ps nsect) buffer True = Some (Inr (dev1, buffer))"
    using write_loop [OF dev c len(1) k small] by (simp add: dev1_def)
  have "ecb ?dec ?n k (drop ?o (dev_data dev1)) = buffer"
    using ecb_inverse [OF enc inv, of k buffer] fit lc k len(1) by (simp add: dev1_def)
  then have r: "transfer_loop ps dev1 ?o (byte_count ps nsect) buffer2 False = Some (Inr (dev1, buffer))"
    using read_loop [OF dev1 c len(2) k small] by simp
  have "take (byte_count ps nsect) (drop ?o (dev_data dev1)) = ecb ?enc ?n (byte_count ps nsect div ?n) buffer"
    using lc fit k n by (simp add: dev1_def)
  moreover have "dev_data dev1 ! i = dev_data dev ! i"
    if "i < length (dev_data dev)" "i < ?o \<or> ?o + byte_count ps nsect \<le> i" for i
    using that lc fit by (auto simp: dev1_def nth_append)
  moreover have "debug_dest ps dev1 sector = debug_dest ps dev sector" by (simp add: dev1_def)
  ultimately show ?thesis
    using data1 w r transfer_in_device [OF dev l15(1) w refl] transfer_in_device [OF dev1 l15(2) r] len
    by (intro exI [of _ dev1]) simp
qed

theorem sbd_write_read_witness:
  "\<exists>dev1. transfer_loop demo_params demo_dev 16 32 (replicate 32 7) True = Some (Inr (dev1, replicate 32 7)) \<and>
    sbd_crypt_transfer demo_params demo_dev 1 2 (replicate 32 7) True = Some (Inr (dev1, replicate 32 7)) \<and>
    sbd_crypt_transfer demo_params dev1 1 2 (replicate 32 0) False = Some (Inr (dev1, replicate 32 7))"
proof -
  have n: "byte_count demo_params 2 = 32" "byte_offset demo_params 1 = 16" by (simp_all add: demo_params_def)
  have "unat (dest :: u8) < 256" for dest using unsigned_less [of dest] by simp
  then have low: "print_low demo_params dest" for dest
    using add_less_mono [of "unat dest" 256 _ 15] by (fastforce simp: print_low_def demo_params_def)
  show ?thesis
    using sbd_write_read [OF demo_in_device demo_cipher_ok, of "replicate 32 7" "replicate 32 0"]
    unfolding n if_P [OF low] by auto
qed

text \<open>
  C32 (the debug output faults): where the lowest page of memory is not mapped, every
  transfer inside the device ends in a fault, because \<^verbatim>\<open>print_data\<close> is given the low byte of the
  address of the data as its pointer.
\<close>

theorem sbd_transfer_oops:
  assumes dev: "in_device ps dev sector nsect" and c: "cipher_ok ps" and low: "\<And>a. a < 4096 \<Longrightarrow> low_mem ps a = None"
    and len: "length buffer = byte_count ps nsect"
  shows "sbd_crypt_transfer ps dev sector nsect buffer write = Some (Inl Oops)"
proof -
  have "unat (debug_dest ps dev sector) < 256" using unsigned_less [of "debug_dest ps dev sector"] by simp
  then have "low_mem ps (unat (debug_dest ps dev sector) + 0) = None" by (intro low) simp
  then have off: "\<not> print_low ps (debug_dest ps dev sector)" unfolding print_low_def by (metis zero_less_numeral)
  have "0 < blocksize (crypt ps)" using c by (simp add: cipher_ok_def Let_def word_less_nat_alt)
  then obtain y where y: "sbd_crypt_transfer ps dev sector nsect buffer write = Some y"
    using transfer_returns by blast
  have "y \<noteq> Inr z" for z
    using y off in_device_words(3) [OF dev] unfolding sbd_crypt_transfer_def Let_def
    by (auto split: option.splits sum.splits if_splits)
  then show ?thesis using y by (cases y) (auto intro: sbd_error.exhaust)
qed

theorem sbd_transfer_oops_witness:
  "sbd_crypt_transfer (demo_params\<lparr>low_mem := \<lambda>_. None\<rparr>) demo_dev 1 2 (replicate 32 7) True = Some (Inl Oops)"
proof (rule sbd_transfer_oops)
  show "in_device (demo_params\<lparr>low_mem := \<lambda>_. None\<rparr>) demo_dev 1 2"
    using demo_in_device by (simp add: in_device_def)
  show "cipher_ok (demo_params\<lparr>low_mem := \<lambda>_. None\<rparr>)" using demo_cipher_ok by (simp add: cipher_ok_def)
qed (simp_all add: demo_params_def)

lemma crypt_loop_outside:
  assumes "0 < nbytes" "0 < bs" "keeps_length f bs" "length src \<le> s \<or> length dst \<le> d"
  shows "crypt_loop f bs src s dst d nbytes 0 = Some (Inl Oops)"
proof (cases "slice src s bs")
  case None
  then show ?thesis using assms(1) by (subst crypt_loop.simps) simp
next
  case (Some b)
  then have "length b = bs" "s + bs \<le> length src" by (auto simp: slice_def split: if_splits)
  then have "length (f b) = bs" "length dst \<le> d" using assms by (auto simp: keeps_length_def)
  then have "splice dst d (f b) = None" using assms(2) by (simp add: splice_def)
  then show ?thesis using Some assms(1) by (subst crypt_loop.simps) simp
qed

lemma request_words:
  assumes "byte_offset ps sector < 2 ^ 32" "byte_count ps nsect < 2 ^ 32" "logical_block_size ps < 2 ^ 32"
  shows "unat (ucast (sector * of_nat (logical_block_size ps)) :: u32) = byte_offset ps sector"
    "unat (nsect * of_nat (logical_block_size ps) :: u32) = byte_count ps nsect"
    "unat (ucast (sector * of_nat (logical_block_size ps)) + nsect * of_nat (logical_block_size ps) :: u32) =
       (byte_offset ps sector + byte_count ps nsect) mod 2 ^ 32"
proof -
  let ?L = "logical_block_size ps"
  have "unat (sector * of_nat ?L) = byte_offset ps sector"
    using assms by (simp add: unat_word_ariths unat_of_nat)
  then show off: "unat (ucast (sector * of_nat ?L) :: u32) = byte_offset ps sector"
    using assms by (simp add: unsigned_ucast_eq unsigned_take_bit_eq take_bit_nat_eq_self_iff)
  show cnt: "unat (nsect * of_nat ?L :: u32) = byte_count ps nsect"
    using assms by (simp add: unat_word_ariths unat_of_nat)
  show "unat (ucast (sector * of_nat ?L) + nsect * of_nat ?L :: u32) =
       (byte_offset ps sector + byte_count ps nsect) mod 2 ^ 32"
    unfolding unat_word_ariths(1) off cnt by simp
qed

text \<open>
  C31 (the bounds check): when offset and length add up without overflow, a request that
  reaches past the end of the device is refused and changes nothing. The sum is taken in
  32 bits: when it wraps around to a value inside the device the check passes, and the transfer
  accesses memory outside the storage.
\<close>

theorem sbd_bounds_check:
  assumes "byte_offset ps sector < 2 ^ 32" "byte_count ps nsect < 2 ^ 32" "logical_block_size ps < 2 ^ 32"
    "unat (dev_size dev) < byte_offset ps sector + byte_count ps nsect"
  shows "(byte_offset ps sector + byte_count ps nsect < 2 ^ 32 \<longrightarrow>
       sbd_crypt_transfer ps dev sector nsect buffer write = Some (Inr (dev, buffer))) \<and>
    (2 ^ 32 \<le> byte_offset ps sector + byte_count ps nsect \<and>
     byte_offset ps sector + byte_count ps nsect - 2 ^ 32 \<le> unat (dev_size dev) \<and>
     0 < byte_count ps nsect \<and> length (dev_data dev) \<le> byte_offset ps sector \<and> cipher_ok ps \<longrightarrow>
       sbd_crypt_transfer ps dev sector nsect buffer write = Some (Inl Oops))"
proof (intro conjI impI)
  let ?o = "byte_offset ps sector" and ?n = "byte_count ps nsect"
  note w = request_words [OF assms(1-3)]
  show "sbd_crypt_transfer ps dev sector nsect buffer write = Some (Inr (dev, buffer))" if "?o + ?n < 2 ^ 32"
  proof -
    have "(ucast (sector * of_nat (logical_block_size ps)) + nsect * of_nat (logical_block_size ps) :: u32) > dev_size dev"
      unfolding word_less_nat_alt w(3) using that assms(4) by simp
    then show ?thesis unfolding sbd_crypt_transfer_def Let_def by simp
  qed
  show "sbd_crypt_transfer ps dev sector nsect buffer write = Some (Inl Oops)"
    if h: "2 ^ 32 \<le> ?o + ?n \<and> ?o + ?n - 2 ^ 32 \<le> unat (dev_size dev) \<and> 0 < ?n \<and>
      length (dev_data dev) \<le> ?o \<and> cipher_ok ps"
  proof -
    have "(?o + ?n) mod 2 ^ 32 = ?o + ?n - 2 ^ 32"
      using h assms(1,2) by (subst le_mod_geq) auto
    then have pass: "\<not> (ucast (sector * of_nat (logical_block_size ps)) + nsect * of_nat (logical_block_size ps) :: u32) > dev_size dev"
      unfolding word_less_nat_alt w(3) using h by simp
    have "transfer_loop ps dev ?o ?n buffer write = Some (Inl Oops)"
      unfolding transfer_loop_def Let_def
      using h by (auto simp: crypt_loop_outside cipher_ok_def Let_def)
    then show ?thesis using pass w(1,2) unfolding sbd_crypt_transfer_def Let_def by simp
  qed
qed

theorem sbd_bounds_check_witness:
  "sbd_crypt_transfer (demo_params\<lparr>logical_block_size := 512\<rparr>) demo_dev 8388607 1 (replicate 512 0) True = Some (Inl Oops)"
proof -
  have "cipher_ok (demo_params\<lparr>logical_block_size := 512\<rparr>)" using demo_cipher_ok by (simp add: cipher_ok_def)
  then show ?thesis
    using sbd_bounds_check [of 8388607 "demo_params\<lparr>logical_block_size := 512\<rparr>" 1 demo_dev "replicate 512 0" True]
    by (simp add: demo_dev_def)
qed

text \<open>
  C30 (the request handler): with file-system requests only, and a block layer whose
  completion and fetching make progress, the handler returns. On the first request of
  another type it never returns: the request is completed with \<^verbatim>\<open>-EIO\<close> again and again and no
  further request is fetched.
\<close>

theorem sbd_request_returns:
  assumes "0 < blocksize (crypt ps)"
  shows "(blk_progress k m \<longrightarrow> (\<exists>y. sbd_crypt_request k ps dev q = Some y)) \<and>
    (blk_fetch k q = (Some req, q1) \<and> \<not> cmd_fs req \<longrightarrow> sbd_crypt_request k ps dev q = None)"
proof (intro conjI impI)
  assume prog: "blk_progress k m"
  obtain r q1 where f: "blk_fetch k q = (r, q1)" by force
  then have "\<forall>x. r = Some x \<longrightarrow> cmd_fs x" using prog unfolding blk_progress_def by blast
  from request_loop_returns [OF prog assms this] show "\<exists>y. sbd_crypt_request k ps dev q = Some y"
    unfolding sbd_crypt_request_def f by simp
next
  assume "blk_fetch k q = (Some req, q1) \<and> \<not> cmd_fs req"
  then show "sbd_crypt_request k ps dev q = None"
    using request_loop_other [of k ps dev q1 "Some req" _ req]
    by (cases "sbd_crypt_request k ps dev q") (auto simp: sbd_crypt_request_def)
qed

theorem sbd_request_returns_witness:
  "\<exists>y. sbd_crypt_request demo_blk demo_params demo_dev
     [\<lparr>cmd_fs = True, rq_pos = 1, cur_sectors = 2, bio_data = replicate 32 7, rq_write = True\<rparr>] = Some y"
proof -
  let ?m = "\<lambda>r q. (case r of None \<Rightarrow> 0 | Some _ \<Rightarrow> 1) + 2 * length (q :: breq list)"
  have fetch: "?m r q' \<le> ?m None q \<and> (\<forall>x. r = Some x \<longrightarrow> cmd_fs x)" if "blk_fetch demo_blk q = (r, q')" for q r q'
  proof (cases "filter cmd_fs q")
    case Nil
    then show ?thesis using that by (simp add: demo_blk_def)
  next
    case (Cons x us)
    then have "cmd_fs x" "length us < length q"
      using filter_set [of cmd_fs q] length_filter_le [of cmd_fs q] by auto
    then show ?thesis using that Cons by (auto simp: demo_blk_def)
  qed
  have "blk_progress demo_blk ?m" unfolding blk_progress_def
  proof (intro conjI allI impI)
    show "?m r q' \<le> ?m None q" "r = Some x \<Longrightarrow> cmd_fs x" if "blk_fetch demo_blk q = (r, q')" for q r q' x
      using fetch [OF that] by blast+
  qed (auto simp: demo_blk_def)
  moreover have "0 < blocksize (crypt demo_params)" by (simp add: demo_params_def)
  ultimately show ?thesis by (intro sbd_request_returns [THEN conjunct1, rule_format])
qed





end
