(* ===== verification/Spec2Isabelle.thy ===== *)
theory Spec2Isabelle
  imports Slob_Conc Sstf_Slob Syscall_32 Produce_Consume Philosophers Con3_Props Sbd
begin

text \<open>
  A verification library for the programs of the repository: kernel code (a SLOB memory
  allocator, an encrypting block device, an I/O scheduler) and user programs on
  concurrency (a producer and a consumer with their random number generator, the dining
  philosophers, and threads that search, insert into and delete from one linked list).

  \<^bold>\<open>Parts and theories.\<close>

  \<^item> \<^verbatim>\<open>Prelude\<close>: byte memory, machine words, alignment arithmetic, reachable states and runs
    of a step relation, and two contracts: \<^verbatim>\<open>invariant_system\<close> of a component that keeps an
    invariant, and \<^verbatim>\<open>simulation\<close>, which extends it, of one whose steps are steps of an abstract
    component. The programs with threads interpret them. Collections \<open>mem_simps\<close> and \<open>addr_simps\<close> carry the component proofs.

  \<^item> \<^verbatim>\<open>src/kernel/project4/code/slob.c\<close>, bottom up. \<^verbatim>\<open>Slob_Block\<close>: the encoding of free blocks
    (\<^verbatim>\<open>set_slob\<close>, \<^verbatim>\<open>slob_units\<close>, \<^verbatim>\<open>slob_next\<close>, \<^verbatim>\<open>slob_last\<close>) and the predicate \<open>chain\<close> that a piece of
    memory encodes a list of blocks. \<^verbatim>\<open>Slob_Page\<close>: the state record \<open>slob\<close> (memory, page
    descriptors, the three lists of partial pages, the counters) and \<^verbatim>\<open>slob_page_alloc\<close>, refined to
    first fit on lists of blocks. \<^verbatim>\<open>Slob_Insert\<close>: the second half of \<^verbatim>\<open>slob_free\<close>, refined to sorted
    insertion with coalescing. \<^verbatim>\<open>Slob\<close>: \<^verbatim>\<open>slob_alloc\<close> with the best-fit choice, \<^verbatim>\<open>slob_free\<close>, the
    statistics and the system calls. \<^verbatim>\<open>Slob_Inv\<close>: the invariant \<open>slob_inv live st\<close>, where \<open>live\<close> is the
    ghost set of live objects: every slab page is tiled by its free blocks and the live
    objects on it, and the lists hold exactly the pages with free blocks. \<^verbatim>\<open>Slob_Correct\<close>: what
    \<^verbatim>\<open>slob_alloc\<close> and \<^verbatim>\<open>slob_free\<close> do to it on every branch. \<^verbatim>\<open>Slob_Heap\<close>: the contract
    \<^verbatim>\<open>heap_allocator\<close> between the allocator and its clients, interpreted on the two functions, and
    runs of any number of calls with the accounting they keep. \<^verbatim>\<open>Slob_Front\<close>: \<^verbatim>\<open>kmalloc\<close>, \<^verbatim>\<open>kfree\<close>, \<^verbatim>\<open>ksize\<close>,
    the caches and the deferred frees. \<^verbatim>\<open>Slob_Props\<close>: the properties. \<^verbatim>\<open>Slob_Conc\<close>: the two functions on any number of
    processors, as step relations with one step per section under \<^verbatim>\<open>slob_lock\<close> and one per load and store
    of the counters outside it.

  \<^item> \<^verbatim>\<open>src/kernel/project4/code/syscalls.h\<close>. \<^verbatim>\<open>Syscalls\<close>: the macros that define a system call, as functions on
    lists of typed parameters; the entry point works on the values of registers. \<^verbatim>\<open>Syscall_Table\<close>: the
    prototypes as a table, with the preprocessor conditions around them. \<^verbatim>\<open>Syscall_32\<close>: the table of numbers
    \<^verbatim>\<open>src/kernel/project4/code/syscall_32.tbl\<close>, joined with the prototypes and with the two calls of \<^verbatim>\<open>slob.c\<close>.

  \<^item> \<^verbatim>\<open>src/kernel/project3/code/sbd.c\<close>: theory \<^verbatim>\<open>Sbd\<close>. Transfers as loops over blocks of a
    cipher, shown to be electronic-codebook mode; the request handler; geometry; start and exit
    with the resources held and the disk that is registered.

  \<^item> \<^verbatim>\<open>src/kernel/project2/code/sstf-iosched.c\<close>: theory \<^verbatim>\<open>Sstf\<close>. The kernel's circular lists with
    both pointers, refined to lists of requests; the contract \<^verbatim>\<open>io_scheduler\<close> of the block layer,
    interpreted on \<^verbatim>\<open>add_req\<close> and \<^verbatim>\<open>dispatch_req\<close>; the registration of the module. \<^verbatim>\<open>Sstf_Slob\<close>: the scheduler with its
    data on the SLOB heap.

  \<^item> \<^verbatim>\<open>src/concurrency/concurrency1/mt19937ar.c\<close>: theory \<^verbatim>\<open>Mt19937\<close>, the Mersenne Twister, with the
    recurrence on an infinite sequence as its reference, and the rounding of IEEE double precision for \<^verbatim>\<open>genrand_real1\<close>.

  \<^item> \<^verbatim>\<open>src/concurrency/concurrency1/produce_consume.c\<close>: theory \<^verbatim>\<open>Produce_Consume\<close>, which calls the
    generator. The two threads are step relations over a record of the shared state, with one
    step per lock operation and per access to the stack.

  \<^item> \<^verbatim>\<open>src/concurrency/concurrency2/philosophers.java\<close>: theory \<^verbatim>\<open>Philosophers\<close>. A chopstick is a record with its
    owner, its clean flag, its semaphore and the holder of its Java monitor; a philosopher
    (\<open>philo_run\<close>, with \<open>think\<close>, \<open>grabChopstick\<close>, \<open>eat\<close> and \<open>setChopstick\<close>) is a function to the next state that is None while
    blocked. The lines on the console are part of the state.

  \<^item> \<^verbatim>\<open>src/concurrency/concurrency3/con3.c\<close>, four theories. \<^verbatim>\<open>Con3\<close>: the heap, the two mutexes and the
    threads (\<open>con3_search\<close>, \<open>con3_insert\<close>, \<open>con3_delete\<close>, with \<open>linked_list_size\<close>); touching memory
    that is not allocated is a fault. \<^verbatim>\<open>Con3_Correct\<close>: the invariant of locks, list and
    positions, and the simulation of a list of values. \<^verbatim>\<open>Con3_Solo\<close>: threads that run alone, and the search
    lock that is never released. \<^verbatim>\<open>Con3_Props\<close>: the properties.

  \<^bold>\<open>Conventions.\<close> Addresses are integers and memory maps them to bytes. C integers are
  words of their width where overflow matters, integers elsewhere. A loop that the code
  does not bound is a partial function: \<^term>\<open>None\<close> means that the call never returns, and every
  statement that a call returns says that the result is \<^term>\<open>Some\<close>. There is no fuel. \<^verbatim>\<open>BUG_ON\<close>, kernel
  faults and error codes are values. Code outside the repository (page allocator, cipher, block
  layer, RCU, processor instructions) is a parameter; what is relied on is a named
  predicate, such as \<open>fresh_pages\<close>, \<open>cipher_ok\<close>, \<open>rcu_writes_head\<close>, \<open>blk_progress\<close>, \<open>i386_types\<close>; \<open>header_types\<close> lists the
  types that included headers declare.

  \<^bold>\<open>What is shown.\<close> The allocator hands out aligned, disjoint objects and keeps the bytes of the
  live ones through any sequence of calls; its page-level loops terminate and refine first fit and coalescing
  insertion; \<^verbatim>\<open>kmalloc\<close> and the deferred frees find their objects again; the counters mean
  what they count when calls do not overlap, and the system calls 500 and 501 report them. This holds for a
  \<^verbatim>\<open>sp_alt\<close> that starts as NULL or as a page with free blocks; from another page it can hand
  out memory that is not its own. On several processors the heap and the objects are as safe, but the counters lose
  updates. A system call gets the arguments it was passed, and every prototype mentions only declared types and, but
  for \<^verbatim>\<open>sys32_quotactl\<close>, can be defined by the macros; every row of the table is found by its
  number and every entry point in it has a prototype, except those of the architecture and one of the project, whose
  name differs. The loops of the disk return what was written and keep it encrypted in memory; a whole transfer
  returns only where the bytes that its debug output reads in the lowest page are mapped, and faults otherwise, so
  with the usual memory map every transfer faults after moving its data. The scheduler loses no request; when its
  insertion returns is characterised exactly; its data lives on the heap until it is freed. The generator computes its
  recurrence and stays in its intervals. The two threads exclude each other, conserve the entries and cannot deadlock.
  Philosophers that share a chopstick exclude each other and no wake-up is lost, and the console gives the owners and
  the turns, but all five can deadlock. The threads on the linked list exclude each other as the locks say, the list
  stays sound and every interleaving is a run of an abstract list; the locked walks never touch freed memory and the
  unlocked count can; a search of the empty list keeps its lock for ever. Where a theorem shows that the code does not
  do what a comment says, the property states what it does.

  \<^bold>\<open>Bounds.\<close> The allocator is that of an i386 kernel: pages of 4096 bytes, 16-bit block indices,
  32-bit counters. \<^verbatim>\<open>unsigned long\<close> is 32 bits in the kernel code and 64 in the user programs.

  \<^bold>\<open>Not modelled.\<close> A section under \<^verbatim>\<open>slob_lock\<close> is one step; the lock
  itself, weak memory, and the race of the reset of \<^verbatim>\<open>free\<close> with a count in progress are left
  out. The front end of the allocator is sequential. The first value of \<^verbatim>\<open>sp_alt\<close>, which the
  code leaves uninitialised, is an argument; above \<^verbatim>\<open>slob_alloc\<close> the properties are about
  NULL. Taking a page off the lists that is on none does nothing, and a disk request completed with an error is read
  again as it was, where the code would use stale memory. The range of exponents of \<^verbatim>\<open>double\<close>
  is not limited. What the type names of the kernel stand for is a hypothesis. The text output of the kernel code is
  left out except where the memory it reads matters. Threads are never interrupted in the Java program. Sleeping has
  no effect on a state; any thread that can move may move next, so nothing is claimed about fairness or time.
  \<^verbatim>\<open>src/kernel/project2/sstf-iosched.c\<close> is a draft that does not compile (missing semicolons,
  a misspelt function, braces for parentheses); the file in the directory \<^verbatim>\<open>submission\<close> beside
  it is the same as the one in \<^verbatim>\<open>code\<close>. The commented-out \<^verbatim>\<open>main\<close> of
  \<^verbatim>\<open>mt19937ar.c\<close>, the build files and the write-ups have nothing to model.
\<close>

end
